(* ===== verification/Prelude.thy ===== *)
theory Prelude
  imports Main "HOL-Library.Word" "HOL-Library.Multiset" "HOL-Library.AList"
begin

text \<open>
  Shared vocabulary of the development: the machine types of the source, the standard
  library's hash map as an association list in iteration order, and the contract
  \<open>entry_store\<close> that every "add this metric to that cache" routine of the program
  satisfies, with the facts about folding such a routine over a batch of entries.
\<close>

section \<open>Machine types\<close>

type_synonym u8 = "8 word"
type_synonym u16 = "16 word"
type_synonym u32 = "32 word"
type_synonym u64 = "64 word"
type_synonym usize = "64 word"

text \<open>A \<open>Bytes\<close>, \<open>BytesMut\<close>, \<open>String\<close> or \<open>&str\<close> is its sequence of bytes.\<close>

type_synonym bytes = string

section \<open>Lists\<close>

named_theorems list_facts

lemma mset_eq_fold_commute [list_facts]:
  assumes "\<And>x y. x \<in> set xs \<Longrightarrow> y \<in> set xs \<Longrightarrow> f x \<circ> f y = f y \<circ> f x"
    and "mset xs = mset ys"
  shows "fold f xs = fold f ys"
  using assms by (rule fold_multiset_equiv)

lemma sum_list_map_add [list_facts]:
  fixes f g :: "'a \<Rightarrow> 'c::comm_monoid_add"
  shows "(\<Sum>x\<leftarrow>xs. f x + g x) = (\<Sum>x\<leftarrow>xs. f x) + (\<Sum>x\<leftarrow>xs. g x)"
  by (induction xs) (simp_all add: ac_simps)

lemma filter_fst_map_of:
  "distinct (map fst kvs) \<Longrightarrow>
   filter (\<lambda>kv. fst kv = k) kvs = (case map_of kvs k of None \<Rightarrow> [] | Some v \<Rightarrow> [(k, v)])"
proof (induction kvs)
  case Nil
  then show ?case by simp
next
  case (Cons kv kvs)
  have none: "map_of kvs k = None" if "fst kv = k"
    using Cons.prems that by (auto simp: map_of_eq_None_iff)
  show ?case
    using Cons none by (cases kv) (auto split: option.splits)
qed

section \<open>Hash maps\<close>

text \<open>
  \<open>std::collections::HashMap\<close>: an association list with distinct keys whose order is the
  (unspecified) iteration order. \<open>entry\<close>/\<open>get\<close> is \<^const>\<open>map_of\<close>, \<open>insert\<close> is
  \<^const>\<open>AList.update\<close>, iteration and \<open>drain\<close> go through the list. Facts that must not
  depend on the iteration order are stated for every permutation of the list.
\<close>

type_synonym ('k, 'v) hash_map = "('k \<times> 'v) list"

abbreviation hm_get :: "('k, 'v) hash_map \<Rightarrow> 'k \<Rightarrow> 'v option" where
  "hm_get \<equiv> map_of"

abbreviation hm_insert :: "'k \<Rightarrow> 'v \<Rightarrow> ('k, 'v) hash_map \<Rightarrow> ('k, 'v) hash_map" where
  "hm_insert \<equiv> AList.update"

definition hm_keys :: "('k, 'v) hash_map \<Rightarrow> 'k list" where
  "hm_keys m = map fst m"

definition hm_wf :: "('k, 'v) hash_map \<Rightarrow> bool" where
  "hm_wf m \<longleftrightarrow> distinct (hm_keys m)"

definition hm_eq :: "('k, 'v) hash_map \<Rightarrow> ('k, 'v) hash_map \<Rightarrow> bool" where
  "hm_eq m m' \<longleftrightarrow> mset m = mset m'"

lemma hm_wf_Nil [simp]: "hm_wf []"
  by (simp add: hm_wf_def hm_keys_def)

lemma hm_wf_insert [simp]: "hm_wf m \<Longrightarrow> hm_wf (hm_insert k v m)"
  by (simp add: hm_wf_def hm_keys_def distinct_update)

lemma hm_get_insert: "hm_get (hm_insert k v m) k' = (if k' = k then Some v else hm_get m k')"
  by (simp add: update_conv)

lemma set_hm_keys: "set (hm_keys m) = dom (hm_get m)"
  by (simp add: hm_keys_def dom_map_of_conv_image_fst)

lemma hm_get_eq:
  assumes "hm_wf m" and "hm_eq m m'"
  shows "hm_get m = hm_get m'"
proof -
  have "distinct (map fst m')"
    using assms mset_eq_imp_distinct_iff [of "map fst m" "map fst m'"]
    by (metis hm_eq_def hm_keys_def hm_wf_def mset_map)
  moreover have "set m = set m'"
    using assms(2) unfolding hm_eq_def by (metis set_mset_mset)
  ultimately show ?thesis
    using assms(1) by (simp add: hm_wf_def hm_keys_def map_of_inject_set)
qed


section \<open>Adding entries to a store\<close>

text \<open>
  The value a key has after a batch of values has been added to it: the first value of an
  absent key is stored, every later one is joined to what is there.
\<close>

definition join_opt :: "('v \<Rightarrow> 'v \<Rightarrow> 'v) \<Rightarrow> 'v \<Rightarrow> 'v option \<Rightarrow> 'v option" where
  "join_opt j v old = Some (case old of None \<Rightarrow> v | Some o' \<Rightarrow> j o' v)"

definition joins :: "('v \<Rightarrow> 'v \<Rightarrow> 'v) \<Rightarrow> 'v list \<Rightarrow> 'v option \<Rightarrow> 'v option" where
  "joins j vs = fold (join_opt j) vs"

lemma joins_simps [simp]:
  "joins j [] old = old"
  "joins j (v # vs) old = joins j vs (join_opt j v old)"
  "joins j (vs @ ws) old = joins j ws (joins j vs old)"
  by (simp_all add: joins_def)

lemma join_opt_not_None [simp]: "join_opt j v old \<noteq> None" "None \<noteq> join_opt j v old"
  by (simp_all add: join_opt_def)

lemma joins_None_iff: "joins j vs old = None \<longleftrightarrow> vs = [] \<and> old = None"
  by (induction vs arbitrary: old) auto

lemma join_opt_commute:
  assumes "\<And>a b. j a b = j b a" and "\<And>a b c. j (j a b) c = j a (j b c)"
  shows "join_opt j v \<circ> join_opt j w = join_opt j w \<circ> join_opt j v"
proof
  fix old
  have "j (j a w) v = j (j a v) w" for a
    by (metis assms)
  then show "(join_opt j v \<circ> join_opt j w) old = (join_opt j w \<circ> join_opt j v) old"
    by (cases old) (simp_all add: join_opt_def assms(1) [of w v])
qed

lemma joins_mset:
  assumes "\<And>a b. j a b = j b a" and "\<And>a b c. j (j a b) c = j a (j b c)"
    and "mset vs = mset ws"
  shows "joins j vs = joins j ws"
  unfolding joins_def using assms by (intro fold_multiset_equiv join_opt_commute)

text \<open>
  The contract of a routine \<open>put\<close> that adds one named value to a store read by \<open>get\<close>:
  it touches the entry of that name only, which becomes the old value joined with the new
  one. The facts below hold of every such routine.
\<close>

locale entry_store =
  fixes put :: "'k \<times> 'v \<Rightarrow> 's \<Rightarrow> 's"
    and get :: "'s \<Rightarrow> 'k \<Rightarrow> 'v option"
    and join :: "'v \<Rightarrow> 'v \<Rightarrow> 'v"
  assumes get_put: "get (put (k, v) s) k' = (if k' = k then join_opt join v (get s k) else get s k')"
begin

lemma get_fold:
  "get (fold put kvs s) k = joins join (map snd (filter (\<lambda>kv. fst kv = k) kvs)) (get s k)"
proof (induction kvs arbitrary: s)
  case Nil
  show ?case by simp
next
  case (Cons kv kvs)
  then show ?case by (cases kv) (simp add: get_put)
qed

lemma dom_get_fold: "dom (get (fold put kvs s)) = dom (get s) \<union> fst ` set kvs"
  by (auto simp: dom_def get_fold joins_None_iff filter_empty_conv image_iff)

lemma get_fold_distinct:
  assumes "distinct (map fst kvs)"
  shows "get (fold put kvs s) k =
    (case map_of kvs k of None \<Rightarrow> get s k | Some v \<Rightarrow> join_opt join v (get s k))"
  using assms by (simp add: get_fold filter_fst_map_of split: option.split)

lemma get_fold_perm:
  assumes "distinct (map fst kvs)" and "mset kvs = mset kvs'"
  shows "get (fold put kvs s) = get (fold put kvs' s)"
proof
  fix k
  have "map_of kvs = map_of kvs'"
    using hm_get_eq [of kvs kvs'] assms by (simp add: hm_wf_def hm_keys_def hm_eq_def)
  moreover have "distinct (map fst kvs')"
    using assms by (metis mset_eq_imp_distinct_iff mset_map)
  ultimately show "get (fold put kvs s) k = get (fold put kvs' s) k"
    using assms(1) by (simp add: get_fold_distinct)
qed

lemma get_fold_any_order:
  assumes "\<And>a b. join a b = join b a" and "\<And>a b c. join (join a b) c = join a (join b c)"
    and "mset kvs = mset kvs'"
  shows "get (fold put kvs s) = get (fold put kvs' s)"
proof
  fix k
  have "mset (map snd (filter (\<lambda>kv. fst kv = k) kvs)) = mset (map snd (filter (\<lambda>kv. fst kv = k) kvs'))"
    using assms(3) by (metis mset_filter mset_map)
  from joins_mset [OF assms(1,2) this] show "get (fold put kvs s) k = get (fold put kvs' s) k"
    by (simp add: get_fold)
qed

end

end
