(* ===== verification/Floats.thy ===== *)
theory Floats
  imports Complex_Main Prelude
begin

text \<open>
  The language's \<open>f32\<close> and \<open>f64\<close>, as far as the program computes with them itself: the
  conversion of an integer, one multiplication, one comparison and the conversion back to
  an integer. A value is a rational, one of the two infinities, a negative zero or a NaN,
  and every operation rounds its exact result to nearest, ties to even. The arithmetic on
  metric values is in the crate \<open>bioyino_metric\<close> and is not modelled here.
\<close>

datatype ieee = NaN | PosInf | NegInf | NegZero | Fin rat

type_synonym f32 = ieee
type_synonym f64 = ieee

section \<open>Rounding\<close>

fun log2_floor :: "nat \<Rightarrow> nat" where
  "log2_floor n = (if n < 2 then 0 else Suc (log2_floor (n div 2)))"

declare log2_floor.simps [simp del]

definition pow2 :: "int \<Rightarrow> rat" where
  "pow2 e = (if 0 \<le> e then 2 ^ nat e else 1 / 2 ^ nat (- e))"

text \<open>The exponent of a positive rational: the greatest \<open>e\<close> with \<open>pow2 e \<le> q\<close>.\<close>

definition rat_exp :: "rat \<Rightarrow> int" where
  "rat_exp q =
    (let (a, b) = quotient_of q;
         d = int (log2_floor (nat a)) - int (log2_floor (nat b))
     in if pow2 d \<le> q then d else d - 1)"

definition round_even :: "rat \<Rightarrow> int" where
  "round_even q =
    (let f = \<lfloor>q\<rfloor>; r = q - of_int f
     in if r < 1 / 2 then f else if 1 / 2 < r then f + 1 else if even f then f else f + 1)"

text \<open>
  \<open>p\<close> is the number of significant bits, \<open>lo\<close> the exponent of the smallest positive
  value and \<open>hi\<close> the exponent at which values overflow.
\<close>

definition round_mag :: "nat \<Rightarrow> int \<Rightarrow> rat \<Rightarrow> rat" where
  "round_mag p lo q =
    (let e = max (rat_exp q - (int p - 1)) lo in of_int (round_even (q / pow2 e)) * pow2 e)"

definition round_ieee :: "nat \<Rightarrow> int \<Rightarrow> int \<Rightarrow> rat \<Rightarrow> ieee" where
  "round_ieee p lo hi q =
    (if q = 0 then Fin 0
     else let m = round_mag p lo \<bar>q\<bar>
          in if pow2 hi \<le> m then (if q < 0 then NegInf else PosInf)
             else if m = 0 then (if q < 0 then NegZero else Fin 0)
             else Fin (if q < 0 then - m else m))"

abbreviation round_f32 :: "rat \<Rightarrow> f32" where
  "round_f32 \<equiv> round_ieee 24 (- 149) 128"

abbreviation round_f64 :: "rat \<Rightarrow> f64" where
  "round_f64 \<equiv> round_ieee 53 (- 1074) 1024"

section \<open>Operations\<close>

definition f32_of_u64 :: "u64 \<Rightarrow> f32" where
  "f32_of_u64 n = round_f32 (of_nat (unat n))"

definition f64_of_usize :: "usize \<Rightarrow> f64" where
  "f64_of_usize n = round_f64 (of_nat (unat n))"

definition f64_of_u32 :: "u32 \<Rightarrow> f64" where
  "f64_of_u32 n = round_f64 (of_nat (unat n))"

fun is_neg :: "ieee \<Rightarrow> bool" where
  "is_neg NegInf = True"
| "is_neg NegZero = True"
| "is_neg (Fin q) = (q < 0)"
| "is_neg _ = False"

fun is_zero :: "ieee \<Rightarrow> bool" where
  "is_zero NegZero = True"
| "is_zero (Fin q) = (q = 0)"
| "is_zero _ = False"

fun is_inf :: "ieee \<Rightarrow> bool" where
  "is_inf PosInf = True"
| "is_inf NegInf = True"
| "is_inf _ = False"

fun fin_val :: "ieee \<Rightarrow> rat" where
  "fin_val (Fin q) = q"
| "fin_val _ = 0"

definition f32_mul :: "f32 \<Rightarrow> f32 \<Rightarrow> f32" where
  "f32_mul x y =
    (if x = NaN \<or> y = NaN then NaN
     else if is_inf x \<or> is_inf y then
       (if is_zero x \<or> is_zero y then NaN else if is_neg x \<noteq> is_neg y then NegInf else PosInf)
     else if is_zero x \<or> is_zero y then (if is_neg x \<noteq> is_neg y then NegZero else Fin 0)
     else round_f32 (fin_val x * fin_val y))"

fun ieee_le :: "ieee \<Rightarrow> ieee \<Rightarrow> bool" where
  "ieee_le NaN _ = False"
| "ieee_le _ NaN = False"
| "ieee_le NegInf _ = True"
| "ieee_le _ NegInf = False"
| "ieee_le _ PosInf = True"
| "ieee_le PosInf _ = False"
| "ieee_le x y = (fin_val x \<le> fin_val y)"

text \<open>\<open>x as u64\<close>: the integer part, clamped to the range of the target.\<close>

fun u64_of_f32 :: "f32 \<Rightarrow> u64" where
  "u64_of_f32 (Fin q) = (if q < 0 then 0 else if 2 ^ 64 \<le> q then - 1 else of_int \<lfloor>q\<rfloor>)"
| "u64_of_f32 PosInf = - 1"
| "u64_of_f32 _ = 0"

section \<open>Integers that are represented exactly\<close>

lemma log2_floor_bounds: "0 < n \<Longrightarrow> 2 ^ log2_floor n \<le> n \<and> n < 2 * 2 ^ log2_floor n"
proof (induction n rule: log2_floor.induct)
  case (1 n)
  show ?case
  proof (cases "n < 2")
    case True
    with "1.prems" show ?thesis by (simp add: log2_floor.simps [of n])
  next
    case False
    then have "2 ^ log2_floor (n div 2) \<le> n div 2 \<and> n div 2 < 2 * 2 ^ log2_floor (n div 2)"
      using "1.IH" by simp
    then show ?thesis using False by (auto simp: log2_floor.simps [of n])
  qed
qed

lemma round_even_of_int [simp]: "round_even (of_int z) = z"
  by (simp add: round_even_def)

lemma rat_exp_of_nat:
  assumes "0 < n"
  shows "rat_exp (of_nat n) = int (log2_floor n)"
proof -
  have q: "quotient_of (of_nat n) = (int n, 1)"
    using quotient_of_int [of "int n"] by simp
  have "(2::rat) ^ log2_floor n \<le> of_nat n"
    using log2_floor_bounds [OF assms] by (metis of_nat_le_iff of_nat_numeral of_nat_power)
  then show ?thesis
    by (simp add: rat_exp_def q pow2_def Let_def log2_floor.simps [of "Suc 0"])
qed

lemma pow2_nonpos: "e \<le> 0 \<Longrightarrow> pow2 e = 1 / 2 ^ nat (- e)"
  by (simp add: pow2_def)

lemma round_mag_of_nat:
  assumes "0 < n" and "n < 2 ^ p" and "lo \<le> 0"
  shows "round_mag p lo (of_nat n) = of_nat n"
proof -
  let ?e = "max (rat_exp (of_nat n) - (int p - 1)) lo"
  have "(2::nat) ^ log2_floor n < 2 ^ p"
    using log2_floor_bounds [OF assms(1)] assms(2) by linarith
  then have "log2_floor n < p"
    by simp
  then have e: "?e \<le> 0"
    using assms(3) by (simp add: rat_exp_of_nat [OF assms(1)])
  let ?z = "int n * 2 ^ nat (- ?e)"
  have "of_nat n / pow2 ?e = (of_int ?z :: rat)"
    by (simp add: pow2_nonpos [OF e])
  then have "round_even (of_nat n / pow2 ?e) = ?z"
    using round_even_of_int by metis
  then show ?thesis
    unfolding round_mag_def Let_def by (simp add: pow2_nonpos [OF e])
qed

lemma round_ieee_of_nat:
  assumes "n < 2 ^ p" and "lo \<le> 0" and "int p \<le> hi"
  shows "round_ieee p lo hi (of_nat n) = Fin (of_nat n)"
proof (cases "n = 0")
  case True
  then show ?thesis by (simp add: round_ieee_def)
next
  case False
  have "(of_nat n :: rat) < 2 ^ p"
    using assms(1) by (metis of_nat_less_iff of_nat_numeral of_nat_power)
  also have "\<dots> \<le> 2 ^ nat hi"
    using assms(3) by (intro power_increasing) auto
  finally have "\<not> pow2 hi \<le> (of_nat n :: rat)"
    using assms(3) by (simp add: pow2_def)
  then show ?thesis
    using False assms by (simp add: round_ieee_def round_mag_of_nat)
qed

lemma f32_of_u64_exact: "unat n < 2 ^ 24 \<Longrightarrow> f32_of_u64 n = Fin (of_nat (unat n))"
  unfolding f32_of_u64_def by (rule round_ieee_of_nat) auto

lemma f64_of_usize_exact: "unat n < 2 ^ 53 \<Longrightarrow> f64_of_usize n = Fin (of_nat (unat n))"
  unfolding f64_of_usize_def by (rule round_ieee_of_nat) auto

lemma f64_of_u32_exact: "f64_of_u32 n = Fin (of_nat (unat n))"
proof -
  have "unat n < 2 ^ 32" using unsigned_less [of n] by simp
  then have "unat n < 2 ^ 53" by simp
  then show ?thesis unfolding f64_of_u32_def by (rule round_ieee_of_nat) auto
qed

lemma u64_of_f32_le:
  assumes "ieee_le x (Fin (of_nat n))" and "n < 2 ^ 64"
  shows "unat (u64_of_f32 x) \<le> n"
proof (cases x)
  case (Fin q)
  with assms(1) have q: "q \<le> of_nat n" by simp
  show ?thesis
  proof (cases "q < 0")
    case True
    with Fin show ?thesis by simp
  next
    case False
    have fl: "\<lfloor>q\<rfloor> \<le> int n" "0 \<le> \<lfloor>q\<rfloor>"
      using q False by (auto simp: floor_le_iff)
    have "(of_nat n :: rat) < 2 ^ 64"
      using assms(2) by (metis of_nat_less_iff of_nat_numeral of_nat_power)
    then have "\<not> 2 ^ 64 \<le> q" using q by linarith
    with Fin False have "u64_of_f32 x = of_int \<lfloor>q\<rfloor>" by simp
    also have "\<dots> = of_nat (nat \<lfloor>q\<rfloor>)" using fl by simp
    finally have w: "u64_of_f32 x = of_nat (nat \<lfloor>q\<rfloor>)" .
    have "nat \<lfloor>q\<rfloor> < 2 ^ 64" using fl assms(2) by linarith
    then have "unat (u64_of_f32 x) = nat \<lfloor>q\<rfloor>"
      unfolding w unat_of_nat by simp
    then show ?thesis using fl by simp
  qed
qed (use assms in auto)

end
