(* ===== verification/Globals.thy ===== *)
theory Globals
  imports Floats
begin

text \<open>
  The process-wide state of \<^verbatim>\<open>src/main.rs\<close>: the statistics counters, the consensus state
  and the leader flag, with the routine of \<^verbatim>\<open>src/util.rs\<close> through which every consensus
  implementation changes the flag. The error type of \<^verbatim>\<open>src/errors.rs\<close> is here too, since
  every component imports it.
\<close>

section \<open>Addresses and errors\<close>

datatype socket_addr =
    SocketAddrV4 u8 u8 u8 u8 u16
  | SocketAddrV6 "u16 list" u16 u32 u32

text \<open>A payload that comes from a library is its message; nothing inspects it.\<close>

datatype general_error =
    Io string
  | Timer string
  | Time string
  | TcpOutOfTries socket_addr
  | CarbonBackend
  | FutureSend
  | UnknownState
  | Configuration string

section \<open>Statistics counters\<close>

text \<open>Each is an \<open>AtomicUsize\<close>; \<open>fetch_add\<close> wraps around.\<close>

record counters =
  PARSE_ERRORS :: usize
  AGG_ERRORS :: usize
  PEER_ERRORS :: usize
  INGRESS :: usize
  INGRESS_METRICS :: usize
  EGRESS :: usize
  DROPS :: usize

definition counters_init :: counters where
  "counters_init = \<lparr>PARSE_ERRORS = 0, AGG_ERRORS = 0, PEER_ERRORS = 0, INGRESS = 0,
     INGRESS_METRICS = 0, EGRESS = 0, DROPS = 0\<rparr>"

abbreviation add_parse_errors :: "usize \<Rightarrow> counters \<Rightarrow> counters" where
  "add_parse_errors n c \<equiv> c\<lparr>PARSE_ERRORS := PARSE_ERRORS c + n\<rparr>"

abbreviation add_agg_errors :: "usize \<Rightarrow> counters \<Rightarrow> counters" where
  "add_agg_errors n c \<equiv> c\<lparr>AGG_ERRORS := AGG_ERRORS c + n\<rparr>"

abbreviation add_peer_errors :: "usize \<Rightarrow> counters \<Rightarrow> counters" where
  "add_peer_errors n c \<equiv> c\<lparr>PEER_ERRORS := PEER_ERRORS c + n\<rparr>"

abbreviation add_ingress :: "usize \<Rightarrow> counters \<Rightarrow> counters" where
  "add_ingress n c \<equiv> c\<lparr>INGRESS := INGRESS c + n\<rparr>"

abbreviation add_ingress_metrics :: "usize \<Rightarrow> counters \<Rightarrow> counters" where
  "add_ingress_metrics n c \<equiv> c\<lparr>INGRESS_METRICS := INGRESS_METRICS c + n\<rparr>"

abbreviation add_egress :: "usize \<Rightarrow> counters \<Rightarrow> counters" where
  "add_egress n c \<equiv> c\<lparr>EGRESS := EGRESS c + n\<rparr>"

abbreviation add_drops :: "usize \<Rightarrow> counters \<Rightarrow> counters" where
  "add_drops n c \<equiv> c\<lparr>DROPS := DROPS c + n\<rparr>"

section \<open>Consensus state and leadership\<close>

datatype consensus_state = Enabled | Paused | Disabled

definition consensus_state_from_str :: "string \<Rightarrow> general_error + consensus_state" where
  "consensus_state_from_str s =
    (if s = ''enabled'' \<or> s = ''enable'' then Inr Enabled
     else if s = ''disabled'' \<or> s = ''disable'' then Inr Disabled
     else if s = ''pause'' \<or> s = ''paused'' then Inr Paused
     else Inl UnknownState)"

datatype consensus_kind = NoConsensus | Consul | Internal

record leadership =
  CONSENSUS_STATE :: consensus_state
  IS_LEADER :: bool

definition leadership_init :: leadership where
  "leadership_init = \<lparr>CONSENSUS_STATE = Disabled, IS_LEADER = False\<rparr>"

definition switch_leader :: "bool \<Rightarrow> leadership \<Rightarrow> leadership" where
  "switch_leader acquired l =
    (let should_set = CONSENSUS_STATE l = Enabled
     in if should_set then l\<lparr>IS_LEADER := acquired\<rparr> else l)"

lemma switch_leader_simps [simp]:
  "CONSENSUS_STATE (switch_leader a l) = CONSENSUS_STATE l"
  "IS_LEADER (switch_leader a l) = (if CONSENSUS_STATE l = Enabled then a else IS_LEADER l)"
  by (simp_all add: switch_leader_def)

end
