(* ===== verification/Management.thy ===== *)
theory Management
  imports Globals
begin

text \<open>
  \<^verbatim>\<open>src/management.rs\<close>: the commands of the management interface and their spellings on the
  command line, the HTTP service that executes them on the node's leadership state, and the
  client behind \<open>bioyino query\<close>. The JSON codec (serde) and the HTTP transport (hyper) are
  parameters.
\<close>

section \<open>Commands\<close>

datatype mgmt_error =
    Io string
  | Http string
  | Decode string
  | Encode string
  | BadCommand
  | Response

datatype consensus_action = Enable | Disable | Pause | Resume

datatype leader_action = Unchanged | LeaderEnable | LeaderDisable

datatype mgmt_command = Status | ConsensusCommand consensus_action leader_action

definition consensus_action_from_str :: "string \<Rightarrow> mgmt_error + consensus_action" where
  "consensus_action_from_str s =
    (if s = ''enable'' \<or> s = ''enabled'' then Inr Enable
     else if s = ''disable'' \<or> s = ''disabled'' then Inr Disable
     else if s = ''pause'' \<or> s = ''paused'' then Inr Pause
     else if s = ''resume'' \<or> s = ''resumed'' \<or> s = ''unpause'' \<or> s = ''unpaused'' then Inr Resume
     else Inl BadCommand)"

definition leader_action_from_str :: "string \<Rightarrow> mgmt_error + leader_action" where
  "leader_action_from_str s =
    (if s = ''unchanged'' \<or> s = ''unchange'' then Inr Unchanged
     else if s = ''enable'' \<or> s = ''enabled'' then Inr LeaderEnable
     else if s = ''disable'' \<or> s = ''disabled'' then Inr LeaderDisable
     else Inl BadCommand)"

record server_status =
  leader_status :: bool
  consensus_status :: consensus_state

definition server_status_new :: "leadership \<Rightarrow> server_status" where
  "server_status_new l = \<lparr>leader_status = IS_LEADER l, consensus_status = CONSENSUS_STATE l\<rparr>"

section \<open>HTTP and JSON\<close>

datatype http_method = GET | POST | OtherMethod

text \<open>Reading a body to its end (\<open>concat2\<close>) yields the bytes or a transport error.\<close>

type_synonym http_body = "string + bytes"

record http_request =
  req_method :: http_method
  req_authority :: socket_addr
  req_path :: string
  req_body :: http_body

record http_response =
  resp_status :: nat
  resp_body :: http_body

abbreviation OK :: nat where "OK \<equiv> 200"
abbreviation BAD_REQUEST :: nat where "BAD_REQUEST \<equiv> 400"
abbreviation NOT_FOUND :: nat where "NOT_FOUND \<equiv> 404"
abbreviation METHOD_NOT_ALLOWED :: nat where "METHOD_NOT_ALLOWED \<equiv> 405"

text \<open>The serde instances the module derives: encoders and decoders of its two messages.\<close>

record json_lib =
  status_to_json :: "server_status \<Rightarrow> bytes"
  status_of_json :: "bytes \<Rightarrow> server_status option"
  command_to_json :: "mgmt_command \<Rightarrow> bytes"
  command_of_json :: "bytes \<Rightarrow> mgmt_command option"

definition json_roundtrip :: "json_lib \<Rightarrow> bool" where
  "json_roundtrip js \<longleftrightarrow>
    (\<forall>s. status_of_json js (status_to_json js s) = Some s) \<and>
    (\<forall>c. command_of_json js (command_to_json js c) = Some c)"

section \<open>The service\<close>

definition new_consensus_state :: "consensus_action \<Rightarrow> consensus_state" where
  "new_consensus_state a =
    (case a of Enable \<Rightarrow> Enabled | Resume \<Rightarrow> Enabled | Disable \<Rightarrow> Disabled | Pause \<Rightarrow> Paused)"

definition set_leader :: "leader_action \<Rightarrow> leadership \<Rightarrow> leadership" where
  "set_leader a l =
    (case a of
       LeaderEnable \<Rightarrow> l\<lparr>IS_LEADER := True\<rparr>
     | LeaderDisable \<Rightarrow> l\<lparr>IS_LEADER := False\<rparr>
     | _ \<Rightarrow> l)"

definition index_body :: string where
  "index_body = ''Available endpoints:'' @ [CHR 0x0A] @
     ''    status - will show server status'' @ [CHR 0x0A] @
     ''    consensus - posting will change consensus state''"

text \<open>
  \<open>MgmtServer::call\<close>: the left case of the result is the transport error of the request
  body, which the returned future passes on; the state is then unchanged.
\<close>

definition mgmt_call ::
    "json_lib \<Rightarrow> http_request \<Rightarrow> leadership \<Rightarrow> (string + http_response) \<times> leadership" where
  "mgmt_call js req l =
    (let response = \<lparr>resp_status = OK, resp_body = Inr []\<rparr> in
     case req_method req of
       GET \<Rightarrow>
         (if req_path req = ''/'' then (Inr (response\<lparr>resp_body := Inr index_body\<rparr>), l)
          else if req_path req = ''/status'' then
            (Inr (response\<lparr>resp_body := Inr (status_to_json js (server_status_new l))\<rparr>), l)
          else (Inr (response\<lparr>resp_status := NOT_FOUND\<rparr>), l))
     | POST \<Rightarrow>
         (if req_path req = ''/consensus'' then
            (case req_body req of
               Inl e \<Rightarrow> (Inl e, l)
             | Inr body \<Rightarrow>
                 (case command_of_json js body of
                    Some (ConsensusCommand consensus_action leader_action) \<Rightarrow>
                      let l1 = l\<lparr>CONSENSUS_STATE := new_consensus_state consensus_action\<rparr>;
                          l2 = set_leader leader_action l1
                      in (Inr (response\<lparr>resp_status := OK,
                            resp_body := Inr (status_to_json js (server_status_new l2))\<rparr>), l2)
                  | Some _ \<Rightarrow> (Inr (response\<lparr>resp_status := BAD_REQUEST\<rparr>), l)
                  | None \<Rightarrow> (Inr (response\<lparr>resp_status := BAD_REQUEST\<rparr>), l)))
          else (Inr (response\<lparr>resp_status := NOT_FOUND\<rparr>), l))
     | OtherMethod \<Rightarrow> (Inr (response\<lparr>resp_status := METHOD_NOT_ALLOWED\<rparr>), l))"

section \<open>The client\<close>

datatype client_output =
    PrintStatus server_status
  | PrintNewState server_status
  | PrintParseError
  | WarnBadStatus nat

definition mgmt_request :: "json_lib \<Rightarrow> socket_addr \<Rightarrow> mgmt_command \<Rightarrow> http_request" where
  "mgmt_request js address command =
    (case command of
       Status \<Rightarrow> \<lparr>req_method = GET, req_authority = address, req_path = ''/status'', req_body = Inr []\<rparr>
     | ConsensusCommand _ _ \<Rightarrow>
         \<lparr>req_method = POST, req_authority = address, req_path = ''/consensus'',
          req_body = Inr (command_to_json js command)\<rparr>)"

definition mgmt_answer ::
    "json_lib \<Rightarrow> (server_status \<Rightarrow> client_output) \<Rightarrow> string + http_response \<Rightarrow> mgmt_error + client_output" where
  "mgmt_answer js print res =
    (case res of
       Inl e \<Rightarrow> Inl (Http e)
     | Inr resp \<Rightarrow>
         (if resp_status resp = OK then
            (case resp_body resp of
               Inl e \<Rightarrow> Inl (Http e)
             | Inr body \<Rightarrow>
                 (case status_of_json js body of
                    Some status \<Rightarrow> Inr (print status)
                  | None \<Rightarrow> Inr PrintParseError))
          else Inr (WarnBadStatus (resp_status resp))))"

text \<open>\<open>send\<close> is the HTTP exchange: the request, answered by a response or an error.\<close>

definition mgmt_client ::
    "json_lib \<Rightarrow> (http_request \<Rightarrow> string + http_response) \<Rightarrow> socket_addr \<Rightarrow> mgmt_command
      \<Rightarrow> mgmt_error + client_output" where
  "mgmt_client js send address command =
    mgmt_answer js (case command of Status \<Rightarrow> PrintStatus | ConsensusCommand _ _ \<Rightarrow> PrintNewState)
      (send (mgmt_request js address command))"

section \<open>Sessions\<close>

text \<open>The service over a sequence of requests.\<close>

fun mgmt_serve ::
    "json_lib \<Rightarrow> http_request list \<Rightarrow> leadership \<Rightarrow> (string + http_response) list \<times> leadership" where
  "mgmt_serve js [] l = ([], l)"
| "mgmt_serve js (req # reqs) l =
    (let (resp, l1) = mgmt_call js req l; (resps, l2) = mgmt_serve js reqs l1 in (resp # resps, l2))"

text \<open>The consensus command that a request carries, if it does.\<close>

definition posted :: "json_lib \<Rightarrow> http_request \<Rightarrow> (consensus_action \<times> leader_action) list" where
  "posted js req =
    (if req_method req = POST \<and> req_path req = ''/consensus'' then
       (case req_body req of
          Inr body \<Rightarrow> (case command_of_json js body of Some (ConsensusCommand a la) \<Rightarrow> [(a, la)] | _ \<Rightarrow> [])
        | Inl e \<Rightarrow> [])
     else [])"

definition obey :: "consensus_action \<times> leader_action \<Rightarrow> leadership \<Rightarrow> leadership" where
  "obey cmd l = set_leader (snd cmd) (l\<lparr>CONSENSUS_STATE := new_consensus_state (fst cmd)\<rparr>)"

lemma mgmt_call_state: "snd (mgmt_call js req l) = fold obey (posted js req) l"
  by (auto simp: mgmt_call_def posted_def obey_def Let_def split: http_method.splits sum.splits option.splits
      mgmt_command.splits)

lemma mgmt_serve_state: "snd (mgmt_serve js reqs l) = fold obey (concat (map (posted js) reqs)) l"
  by (induction reqs arbitrary: l) (simp_all add: case_prod_unfold Let_def mgmt_call_state)

lemma obey_simps [simp]:
  "CONSENSUS_STATE (obey cmd l) = new_consensus_state (fst cmd)"
  "IS_LEADER (obey cmd l) = (case snd cmd of Unchanged \<Rightarrow> IS_LEADER l | LeaderEnable \<Rightarrow> True | LeaderDisable \<Rightarrow> False)"
  by (simp_all add: obey_def set_leader_def split: leader_action.split)

lemma fold_obey_consensus:
  "CONSENSUS_STATE (fold obey cmds l) =
    (if cmds = [] then CONSENSUS_STATE l else new_consensus_state (fst (last cmds)))"
  by (induction cmds arbitrary: l rule: rev_induct) simp_all

lemma fold_obey_leader:
  "IS_LEADER (fold obey cmds l) =
    (let as = filter (\<lambda>a. a \<noteq> Unchanged) (map snd cmds)
     in if as = [] then IS_LEADER l else last as = LeaderEnable)"
proof (induction cmds arbitrary: l rule: rev_induct)
  case Nil
  show ?case by simp
next
  case (snoc cmd cmds)
  then show ?case
    by (cases "snd cmd") (simp_all add: Let_def)
qed

text \<open>A codec for the examples.\<close>

definition all_commands :: "mgmt_command list" where
  "all_commands = Status # [ConsensusCommand a la. a \<leftarrow> [Enable, Disable, Pause, Resume],
     la \<leftarrow> [Unchanged, LeaderEnable, LeaderDisable]]"

definition all_statuses :: "server_status list" where
  "all_statuses = [\<lparr>leader_status = b, consensus_status = s\<rparr>. b \<leftarrow> [True, False], s \<leftarrow> [Enabled, Paused, Disabled]]"

definition sample_json :: json_lib where
  "sample_json = \<lparr>
     status_to_json = (\<lambda>s. replicate (length (takeWhile (\<lambda>s'. s' \<noteq> s) all_statuses)) CHR ''s''),
     status_of_json = (\<lambda>b. if length b < length all_statuses then Some (all_statuses ! length b) else None),
     command_to_json = (\<lambda>c. replicate (length (takeWhile (\<lambda>c'. c' \<noteq> c) all_commands)) CHR ''c''),
     command_of_json = (\<lambda>b. if length b < length all_commands then Some (all_commands ! length b) else None)\<rparr>"

lemma set_all_commands: "c \<in> set all_commands"
proof (cases c)
  case Status
  then show ?thesis by (simp add: all_commands_def)
next
  case (ConsensusCommand a la)
  then show ?thesis by (cases a; cases la) (simp_all add: all_commands_def)
qed

lemma set_all_statuses: "s \<in> set all_statuses"
proof (cases s)
  case (fields b st)
  then show ?thesis by (cases b; cases st) (simp_all add: all_statuses_def)
qed

lemma nth_takeWhile_index:
  "x \<in> set xs \<Longrightarrow> length (takeWhile (\<lambda>y. y \<noteq> x) xs) < length xs \<and> xs ! length (takeWhile (\<lambda>y. y \<noteq> x) xs) = x"
  by (induction xs) auto

lemma sample_json_roundtrip: "json_roundtrip sample_json"
  using set_all_commands set_all_statuses
  by (simp add: json_roundtrip_def sample_json_def nth_takeWhile_index)

section \<open>Properties\<close>

text \<open>
  The management interface, over any sequence of requests, valid or not: the consensus
  state is the one the last well-formed consensus command asked for, the leader flag is what
  the last of these commands that did not leave it unchanged asked for, and no other request
  has an effect.
\<close>

lemma mgmt_session_effect:
  "(let cmds = concat (map (posted js) reqs); l' = snd (mgmt_serve js reqs l) in
    CONSENSUS_STATE l' = (if cmds = [] then CONSENSUS_STATE l else new_consensus_state (fst (last cmds))) \<and>
    IS_LEADER l' =
      (let as = filter (\<lambda>a. a \<noteq> Unchanged) (map snd cmds)
       in if as = [] then IS_LEADER l else last as = LeaderEnable))"
  unfolding Let_def mgmt_serve_state fold_obey_consensus fold_obey_leader by simp

text \<open>
  Client and server agree. A command sent by the client to a node over a working
  connection leaves the node in the commanded state, and what the client prints is the
  status of the node after the command; asking for the status changes nothing. The codec is
  assumed to read back what it wrote.
\<close>

lemma mgmt_client_server:
  assumes "json_roundtrip js"
  shows "mgmt_client js (\<lambda>req. fst (mgmt_call js req l)) address Status = Inr (PrintStatus (server_status_new l)) \<and>
    snd (mgmt_call js (mgmt_request js address Status) l) = l \<and>
    (let l' = snd (mgmt_call js (mgmt_request js address (ConsensusCommand a la)) l) in
       mgmt_client js (\<lambda>req. fst (mgmt_call js req l)) address (ConsensusCommand a la) = Inr (PrintNewState (server_status_new l')) \<and>
       CONSENSUS_STATE l' = new_consensus_state a \<and>
       IS_LEADER l' = (case la of Unchanged \<Rightarrow> IS_LEADER l | LeaderEnable \<Rightarrow> True | LeaderDisable \<Rightarrow> False))"
  using assms
  by (simp add: json_roundtrip_def mgmt_client_def mgmt_answer_def mgmt_request_def mgmt_call_def set_leader_def Let_def
      split: leader_action.split)

end
