(* ===== verification/Transitions.thy ===== *)
theory Transitions
  imports Main
begin

text \<open>
  Labelled transition systems, as far as the development needs them: reachable states, the
  rule by which an invariant holds in all of them, refinement of one system by another,
  infinite runs, and the rule by which a fair run makes progress. A system is given by its
  initial states and its steps, a step being labelled with the event that it handles.
\<close>

section \<open>Reachable states\<close>

inductive reach :: "('s \<Rightarrow> bool) \<Rightarrow> ('e \<Rightarrow> 's \<Rightarrow> 's \<Rightarrow> bool) \<Rightarrow> 's \<Rightarrow> bool"
  for init step
where
  reach_init: "init s \<Longrightarrow> reach init step s"
| reach_step: "reach init step s \<Longrightarrow> step e s s' \<Longrightarrow> reach init step s'"

locale invariant =
  fixes init :: "'s \<Rightarrow> bool"
    and step :: "'e \<Rightarrow> 's \<Rightarrow> 's \<Rightarrow> bool"
    and inv :: "'s \<Rightarrow> bool"
  assumes inv_init: "init s \<Longrightarrow> inv s"
    and inv_step: "reach init step s \<Longrightarrow> inv s \<Longrightarrow> step e s s' \<Longrightarrow> inv s'"
begin

lemma reach_inv: "reach init step s \<Longrightarrow> inv s"
  by (induction rule: reach.induct) (blast intro: inv_init inv_step)+

end

section \<open>Refinement\<close>

text \<open>
  Every step of the concrete system is, seen through \<open>abs\<close>, a step of the abstract one or no
  step at all; then every reachable state of the one abstracts to a reachable state of the
  other, and invariants of the abstract system hold of the concrete one.
\<close>

locale refinement =
  fixes cinit :: "'c \<Rightarrow> bool"
    and cstep :: "'e \<Rightarrow> 'c \<Rightarrow> 'c \<Rightarrow> bool"
    and ainit :: "'a \<Rightarrow> bool"
    and astep :: "'f \<Rightarrow> 'a \<Rightarrow> 'a \<Rightarrow> bool"
    and abs :: "'c \<Rightarrow> 'a"
  assumes abs_init: "cinit c \<Longrightarrow> ainit (abs c)"
    and abs_step: "reach cinit cstep c \<Longrightarrow> cstep e c c' \<Longrightarrow> abs c' = abs c \<or> (\<exists>f. astep f (abs c) (abs c'))"
begin

lemma abs_reach: "reach cinit cstep c \<Longrightarrow> reach ainit astep (abs c)"
proof (induction rule: reach.induct)
  case (reach_init c)
  then show ?case by (intro reach.reach_init abs_init)
next
  case (reach_step c e c')
  then show ?case using abs_step [of c e c'] by (metis reach.reach_step)
qed

end

section \<open>Runs and fairness\<close>

text \<open>An infinite run: its states and the events between them.\<close>

definition is_run :: "('s \<Rightarrow> bool) \<Rightarrow> ('e \<Rightarrow> 's \<Rightarrow> 's \<Rightarrow> bool) \<Rightarrow> (nat \<Rightarrow> 's) \<Rightarrow> (nat \<Rightarrow> 'e) \<Rightarrow> bool" where
  "is_run init step \<sigma> \<epsilon> \<longleftrightarrow> init (\<sigma> 0) \<and> (\<forall>i. step (\<epsilon> i) (\<sigma> i) (\<sigma> (Suc i)))"

text \<open>Weak fairness: the action occurs again and again, or is again and again not enabled.\<close>

definition weakly_fair :: "('s \<Rightarrow> bool) \<Rightarrow> ('e \<Rightarrow> bool) \<Rightarrow> (nat \<Rightarrow> 's) \<Rightarrow> (nat \<Rightarrow> 'e) \<Rightarrow> bool" where
  "weakly_fair enabled act \<sigma> \<epsilon> \<longleftrightarrow> (\<forall>i. \<exists>j\<ge>i. act (\<epsilon> j) \<or> \<not> enabled (\<sigma> j))"

lemma run_reach: "is_run init step \<sigma> \<epsilon> \<Longrightarrow> reach init step (\<sigma> i)"
proof (induction i)
  case 0
  then show ?case by (auto simp: is_run_def intro: reach_init)
next
  case (Suc i)
  then show ?case by (auto simp: is_run_def intro: reach_step)
qed

lemma run_step: "is_run init step \<sigma> \<epsilon> \<Longrightarrow> step (\<epsilon> i) (\<sigma> i) (\<sigma> (Suc i))"
  by (simp add: is_run_def)

text \<open>
  The rule of progress by one fair action: as long as \<open>P\<close> holds the action is enabled, every
  step keeps \<open>P\<close> or reaches \<open>Q\<close>, and the action itself reaches \<open>Q\<close>.
\<close>

lemma weak_fairness_rule:
  assumes run: "is_run init step \<sigma> \<epsilon>" and fair: "weakly_fair enabled act \<sigma> \<epsilon>"
    and P: "P (\<sigma> i)"
    and enabled: "\<And>s. reach init step s \<Longrightarrow> P s \<Longrightarrow> enabled s"
    and keep: "\<And>e s s'. reach init step s \<Longrightarrow> P s \<Longrightarrow> step e s s' \<Longrightarrow> P s' \<or> Q s'"
    and acts: "\<And>e s s'. reach init step s \<Longrightarrow> P s \<Longrightarrow> step e s s' \<Longrightarrow> act e \<Longrightarrow> Q s'"
  shows "\<exists>j\<ge>i. Q (\<sigma> j)"
proof (rule ccontr)
  assume never: "\<not> (\<exists>j\<ge>i. Q (\<sigma> j))"
  have always: "P (\<sigma> (i + k))" for k
  proof (induction k)
    case (Suc k)
    with keep [OF run_reach [OF run] Suc run_step [OF run]] never show ?case by auto
  qed (simp add: P)
  from fair obtain j where j: "i \<le> j" "act (\<epsilon> j) \<or> \<not> enabled (\<sigma> j)"
    unfolding weakly_fair_def by blast
  have "P (\<sigma> j)" using always [of "j - i"] j(1) by simp
  with j(2) enabled [OF run_reach [OF run]] have "act (\<epsilon> j)" by blast
  with acts [OF run_reach [OF run] \<open>P (\<sigma> j)\<close> run_step [OF run]] have "Q (\<sigma> (Suc j))" by blast
  with never j(1) show False by (meson le_Suc_eq)
qed

text \<open>Progress in stages: a rank that some stage must lower until it is 0.\<close>

lemma progress_by_rank:
  assumes "\<And>(n :: nat) i. P n (\<sigma> i) \<Longrightarrow> \<exists>j\<ge>i. Q (\<sigma> j) \<or> (\<exists>m<n. P m (\<sigma> j))"
  shows "P n (\<sigma> i) \<Longrightarrow> \<exists>j\<ge>i. Q (\<sigma> (j :: nat))"
proof (induction n arbitrary: i rule: less_induct)
  case (less n)
  from assms [OF less.prems] obtain j where "i \<le> j" "Q (\<sigma> j) \<or> (\<exists>m<n. P m (\<sigma> j))" by blast
  with less.IH show ?case by (meson le_trans)
qed

text \<open>What holds of each of finitely many things from some time on holds of all from some time on.\<close>

lemma eventually_all:
  fixes i :: nat
  assumes "finite A" and "\<And>x. x \<in> A \<Longrightarrow> \<exists>j\<ge>i. \<forall>m\<ge>j. P x m"
  shows "\<exists>j\<ge>i. \<forall>x \<in> A. \<forall>m\<ge>j. P x m"
  using assms
proof (induction rule: finite_induct)
  case (insert x A)
  then obtain j j' where "j \<ge> i" "\<forall>y \<in> A. \<forall>m\<ge>j. P y m" "j' \<ge> i" "\<forall>m\<ge>j'. P x m" by (metis insertCI)
  then show ?case by (intro exI [of _ "max j j'"]) auto
qed auto

end
