(* ===== verification/Race.thy ===== *)
theory Race
  imports Management Transitions
begin

text \<open>
  The Raft thread and the management thread on the leadership of a node, at the grain of the
  accesses to the shared state: \<open>switch_leader\<close> of \<^verbatim>\<open>src/util.rs\<close> reads the consensus state
  under its lock and stores the leader flag after the lock is released; the handler of a
  consensus command in \<^verbatim>\<open>src/management.rs\<close> sets the consensus state under the lock and stores
  the flag after it. Elsewhere in the development both are single steps; here their
  interleavings are explored.
\<close>

section \<open>Threads\<close>

text \<open>
  Where each thread is: outside, in the critical section, or past it with the store of the flag
  still to come. The last field is a history variable: a command has set the consensus state
  since the Raft thread read it.
\<close>

datatype thread = RaftThread | MgmtThread

datatype switch_pc = SwitchIdle | SwitchLocked bool | SwitchChecked bool bool

datatype command_pc = CommandIdle | CommandLocked consensus_action leader_action | CommandSet leader_action

record race =
  rc_lead :: leadership
  rc_lock :: "thread option"
  rc_switch :: switch_pc
  rc_command :: command_pc
  rc_overtaken :: bool

definition race_init :: "leadership \<Rightarrow> race \<Rightarrow> bool" where
  "race_init l s \<longleftrightarrow>
    s = \<lparr>rc_lead = l, rc_lock = None, rc_switch = SwitchIdle, rc_command = CommandIdle, rc_overtaken = False\<rparr>"

text \<open>\<open>switch_leader\<close>: the block that computes \<open>should_set\<close>, which releases the lock at its end, and the store.\<close>

definition switch_leader_check :: "bool \<Rightarrow> race \<Rightarrow> race" where
  "switch_leader_check acquired s =
    (let should_set = CONSENSUS_STATE (rc_lead s) = Enabled
     in s\<lparr>rc_lock := None, rc_switch := SwitchChecked acquired should_set, rc_overtaken := False\<rparr>)"

definition switch_leader_store :: "bool \<Rightarrow> bool \<Rightarrow> race \<Rightarrow> race" where
  "switch_leader_store acquired should_set s =
    s\<lparr>rc_lead := (if should_set then (rc_lead s)\<lparr>IS_LEADER := acquired\<rparr> else rc_lead s), rc_switch := SwitchIdle\<rparr>"

text \<open>A consensus command: the block that holds the lock, and the store.\<close>

definition command_set :: "consensus_action \<Rightarrow> leader_action \<Rightarrow> race \<Rightarrow> race" where
  "command_set consensus_action leader_action s =
    s\<lparr>rc_lead := (rc_lead s)\<lparr>CONSENSUS_STATE := new_consensus_state consensus_action\<rparr>, rc_lock := None,
      rc_command := CommandSet leader_action, rc_overtaken := True\<rparr>"

definition command_store :: "leader_action \<Rightarrow> race \<Rightarrow> race" where
  "command_store leader_action s = s\<lparr>rc_lead := set_leader leader_action (rc_lead s), rc_command := CommandIdle\<rparr>"

datatype race_event = SwitchLock bool | SwitchCheck | SwitchStore | CommandLock consensus_action leader_action | CommandDo | CommandStore

inductive race_step :: "race_event \<Rightarrow> race \<Rightarrow> race \<Rightarrow> bool" where
  switch_lock: "rc_switch s = SwitchIdle \<Longrightarrow> rc_lock s = None \<Longrightarrow>
    race_step (SwitchLock acquired) s (s\<lparr>rc_lock := Some RaftThread, rc_switch := SwitchLocked acquired\<rparr>)"
| switch_check: "rc_switch s = SwitchLocked acquired \<Longrightarrow> race_step SwitchCheck s (switch_leader_check acquired s)"
| switch_store: "rc_switch s = SwitchChecked acquired should_set \<Longrightarrow>
    race_step SwitchStore s (switch_leader_store acquired should_set s)"
| command_lock: "rc_command s = CommandIdle \<Longrightarrow> rc_lock s = None \<Longrightarrow>
    race_step (CommandLock ca la) s (s\<lparr>rc_lock := Some MgmtThread, rc_command := CommandLocked ca la\<rparr>)"
| command_do: "rc_command s = CommandLocked ca la \<Longrightarrow> race_step CommandDo s (command_set ca la s)"
| command_store: "rc_command s = CommandSet la \<Longrightarrow> race_step CommandStore s (command_store la s)"

inductive_cases switch_store_elim: "race_step SwitchStore s s'"

lemmas race_defs = switch_leader_check_def switch_leader_store_def command_set_def command_store_def Let_def

section \<open>The invariant\<close>

text \<open>
  The lock is held by the thread in its critical section, and what the Raft thread has read is
  still true unless a command has overtaken it.
\<close>

definition race_ok :: "race \<Rightarrow> bool" where
  "race_ok s \<longleftrightarrow>
    (rc_lock s = Some RaftThread \<longleftrightarrow> (\<exists>a. rc_switch s = SwitchLocked a)) \<and>
    (rc_lock s = Some MgmtThread \<longleftrightarrow> (\<exists>ca la. rc_command s = CommandLocked ca la)) \<and>
    (\<forall>a should_set. rc_switch s = SwitchChecked a should_set \<longrightarrow> \<not> rc_overtaken s \<longrightarrow>
      should_set = (CONSENSUS_STATE (rc_lead s) = Enabled))"

lemma set_leader_consensus [simp]: "CONSENSUS_STATE (set_leader la l) = CONSENSUS_STATE l"
  by (cases la) (simp_all add: set_leader_def)

lemma race_ok_step: "race_ok s \<Longrightarrow> race_step e s s' \<Longrightarrow> race_ok s'"
  by (erule race_step.cases) (auto simp: race_ok_def race_defs)

interpretation race: invariant "race_init l" race_step race_ok for l
proof unfold_locales
  show "race_init l s \<Longrightarrow> race_ok s" for s by (simp add: race_init_def race_ok_def)
qed (rule race_ok_step)

text \<open>A run of the two threads, for the schedules below.\<close>

fun race_run :: "race_event list \<Rightarrow> race \<Rightarrow> race \<Rightarrow> bool" where
  "race_run [] s s' = (s' = s)"
| "race_run (e # es) s s' = (\<exists>t. race_step e s t \<and> race_run es t s')"

lemma race_run_reach: "race_run es s s' \<Longrightarrow> reach (race_init l) race_step s \<Longrightarrow> reach (race_init l) race_step s'"
  by (induction es arbitrary: s) (auto intro: reach_step)

text \<open>The command is executed as a whole between the check and the store.\<close>

lemma overtaking_schedule:
  assumes "CONSENSUS_STATE l = Enabled"
  shows "\<exists>s0 s. race_init l s0 \<and> race_run [SwitchLock acquired, SwitchCheck, CommandLock ca la, CommandDo, CommandStore] s0 s \<and>
    rc_lead s = obey (ca, la) l \<and> rc_command s = CommandIdle \<and> rc_switch s = SwitchChecked acquired True"
proof -
  let ?s0 = "\<lparr>rc_lead = l, rc_lock = None, rc_switch = SwitchIdle, rc_command = CommandIdle, rc_overtaken = False\<rparr>"
  let ?s1 = "?s0\<lparr>rc_lock := Some RaftThread, rc_switch := SwitchLocked acquired\<rparr>"
  let ?s2 = "switch_leader_check acquired ?s1"
  let ?s3 = "?s2\<lparr>rc_lock := Some MgmtThread, rc_command := CommandLocked ca la\<rparr>"
  let ?s4 = "command_set ca la ?s3"
  have "race_step (SwitchLock acquired) ?s0 ?s1" by (intro switch_lock) simp_all
  moreover have "race_step SwitchCheck ?s1 ?s2" by (intro switch_check) simp
  moreover have "race_step (CommandLock ca la) ?s2 ?s3" by (intro command_lock) (simp_all add: race_defs)
  moreover have "race_step CommandDo ?s3 ?s4" by (intro command_do) simp
  moreover have "race_step CommandStore ?s4 (command_store la ?s4)" by (intro race_step.command_store) (simp add: race_defs)
  ultimately have "race_run [SwitchLock acquired, SwitchCheck, CommandLock ca la, CommandDo, CommandStore] ?s0 (command_store la ?s4)"
    by fastforce
  moreover have "race_init l ?s0" by (simp add: race_init_def)
  ultimately show ?thesis using assms by (intro exI [of _ ?s0] exI [of _ "command_store la ?s4"]) (simp add: race_defs obey_def)
qed

section \<open>Properties\<close>

text \<open>
  C38. The Raft thread can override a command that has been executed as a whole, and only then
  does \<open>switch_leader\<close> deviate from its atomic form. From every state in which consensus is
  enabled, for every command and every role, the two threads reach a state in which the command
  has been executed completely, and from which the store of \<open>switch_leader\<close> sets the flag to
  the role, whatever the command has set and although it may have paused or disabled consensus.
  In every reachable state the two threads are never both in their critical sections, and a
  store that no command has overtaken since the check does what the atomic \<open>switch_leader\<close> does.
\<close>

theorem switch_leader_race:
  "(CONSENSUS_STATE l = Enabled \<longrightarrow>
     (\<exists>t t'. reach (race_init l) race_step t \<and> rc_command t = CommandIdle \<and> rc_lead t = obey (ca, la) l \<and>
       race_step SwitchStore t t' \<and> rc_lead t' = (obey (ca, la) l)\<lparr>IS_LEADER := acquired\<rparr>)) \<and>
   (reach (race_init l) race_step s \<longrightarrow>
     \<not> (rc_switch s = SwitchLocked a \<and> rc_command s = CommandLocked ca' la') \<and>
     (rc_switch s = SwitchChecked a should_set \<and> race_step SwitchStore s s' \<and> \<not> rc_overtaken s \<longrightarrow>
       rc_lead s' = switch_leader a (rc_lead s)))"
proof (intro conjI impI)
  assume "CONSENSUS_STATE l = Enabled"
  from overtaking_schedule [OF this, of acquired ca la] obtain s0 t where t: "race_init l s0"
      "race_run [SwitchLock acquired, SwitchCheck, CommandLock ca la, CommandDo, CommandStore] s0 t"
      "rc_lead t = obey (ca, la) l" "rc_command t = CommandIdle" "rc_switch t = SwitchChecked acquired True"
    by blast
  have "reach (race_init l) race_step t" by (rule race_run_reach [OF t(2) reach_init [of "race_init l", OF t(1)]])
  moreover have "race_step SwitchStore t (switch_leader_store acquired True t)" by (rule switch_store [OF t(5)])
  ultimately show "\<exists>t t'. reach (race_init l) race_step t \<and> rc_command t = CommandIdle \<and> rc_lead t = obey (ca, la) l \<and>
       race_step SwitchStore t t' \<and> rc_lead t' = (obey (ca, la) l)\<lparr>IS_LEADER := acquired\<rparr>"
    using t(3,4) by (intro exI [of _ t] exI [of _ "switch_leader_store acquired True t"]) (simp add: race_defs)
next
  assume "reach (race_init l) race_step s"
  note ok = race.reach_inv [OF this]
  from ok show "\<not> (rc_switch s = SwitchLocked a \<and> rc_command s = CommandLocked ca' la')" by (auto simp: race_ok_def)
  assume "rc_switch s = SwitchChecked a should_set \<and> race_step SwitchStore s s' \<and> \<not> rc_overtaken s"
  with ok show "rc_lead s' = switch_leader a (rc_lead s)"
    by (auto simp: race_ok_def race_defs switch_leader_def elim!: switch_store_elim)
qed

theorem switch_leader_race_witness:
  "\<exists>t t'. reach (race_init \<lparr>CONSENSUS_STATE = Enabled, IS_LEADER = False\<rparr>) race_step t \<and>
    rc_lead t = \<lparr>CONSENSUS_STATE = Disabled, IS_LEADER = False\<rparr> \<and> rc_command t = CommandIdle \<and>
    race_step SwitchStore t t' \<and> rc_lead t' = \<lparr>CONSENSUS_STATE = Disabled, IS_LEADER = True\<rparr>"
proof -
  let ?l = "\<lparr>CONSENSUS_STATE = Enabled, IS_LEADER = False\<rparr>"
  have "obey (Disable, LeaderDisable) ?l = \<lparr>CONSENSUS_STATE = Disabled, IS_LEADER = False\<rparr>" by code_simp
  then show ?thesis
    using switch_leader_race [THEN conjunct1, of ?l Disable LeaderDisable True] by auto
qed

end
