(* ===== verification/Config.thy ===== *)
theory Config
  imports Management
begin

text \<open>
  \<^verbatim>\<open>src/config.rs\<close>: the configuration sections with their defaults, the Raft timing options
  derived from them, and \<open>System::load\<close>, which turns the parsed command line and the
  configuration file into the configuration and the command to run. The command line parser
  (clap) and the TOML decoder are parameters; a failed \<open>expect\<close> is a \<open>panic\<close>.
\<close>

datatype panic = Panic string

section \<open>Sections and defaults\<close>

datatype aggregation_mode = Single | Common | Separate

record metrics_config =
  count_updates :: bool
  update_counter_prefix :: string
  update_counter_suffix :: string
  update_counter_threshold :: u32
  consistent_parsing :: bool
  log_parse_errors :: bool
  max_unparsed_buffer :: usize
  aggregation_mode :: aggregation_mode
  aggregation_threads :: "usize option"

definition metrics_default :: metrics_config where
  "metrics_default = \<lparr>
     count_updates = True,
     update_counter_prefix = ''resources.monitoring.bioyino.updates'',
     update_counter_suffix = [],
     update_counter_threshold = 200,
     consistent_parsing = True,
     log_parse_errors = False,
     max_unparsed_buffer = 10000,
     aggregation_mode = Single,
     aggregation_threads = None\<rparr>"

record carbon_config =
  carbon_address :: string
  bind_address :: "socket_addr option"
  carbon_interval :: u64
  connect_delay :: u64
  connect_delay_multiplier :: f32
  connect_delay_max :: u64
  send_retries :: usize
  carbon_chunks :: usize

definition carbon_default :: carbon_config where
  "carbon_default = \<lparr>
     carbon_address = ''127.0.0.1:2003'',
     bind_address = None,
     carbon_interval = 30000,
     connect_delay = 250,
     connect_delay_multiplier = Fin 2,
     connect_delay_max = 10000,
     send_retries = 30,
     carbon_chunks = 1\<rparr>"

record network_config =
  listen :: socket_addr
  peer_listen :: socket_addr
  peer_client_bind :: "socket_addr option"
  mgmt_listen :: socket_addr
  bufsize :: usize
  multimessage :: bool
  mm_packets :: usize
  mm_async :: bool
  mm_timeout :: u64
  buffer_flush_time :: u64
  buffer_flush_length :: usize
  greens :: usize
  async_sockets :: usize
  network_nodes :: "string list"
  snapshot_interval :: usize

abbreviation localhost :: "u16 \<Rightarrow> socket_addr" where
  "localhost port \<equiv> SocketAddrV4 127 0 0 1 port"

definition network_default :: network_config where
  "network_default = \<lparr>
     listen = localhost 8125,
     peer_listen = localhost 8136,
     peer_client_bind = None,
     mgmt_listen = localhost 8137,
     bufsize = 1500,
     multimessage = False,
     mm_packets = 100,
     mm_async = False,
     mm_timeout = 0,
     buffer_flush_time = 0,
     buffer_flush_length = 0,
     greens = 4,
     async_sockets = 4,
     network_nodes = [],
     snapshot_interval = 1000\<rparr>"

record consul_config =
  start_as :: consensus_state
  consul_agent :: socket_addr
  session_ttl :: usize
  renew_time :: usize
  key_name :: string

definition consul_default :: consul_config where
  "consul_default = \<lparr>
     start_as = Disabled,
     consul_agent = localhost 8500,
     session_ttl = 11000,
     renew_time = 1000,
     key_name = ''service/bioyino/lock''\<rparr>"

record raft_config =
  start_delay :: u64
  heartbeat_timeout :: u64
  election_timeout_min :: u64
  election_timeout_max :: u64
  this_node :: "string option"
  raft_nodes :: "(string, u64) hash_map"
  client_bind :: "socket_addr option"

definition raft_default :: raft_config where
  "raft_default = \<lparr>
     start_delay = 0,
     heartbeat_timeout = 250,
     election_timeout_min = 500,
     election_timeout_max = 750,
     this_node = None,
     raft_nodes = [],
     client_bind = None\<rparr>"

text \<open>\<open>RaftOptions\<close>: durations in milliseconds.\<close>

record raft_options =
  ro_heartbeat_timeout :: u64
  ro_election_start :: u64
  ro_election_end :: u64

definition get_raft_options :: "raft_config \<Rightarrow> raft_options" where
  "get_raft_options r = \<lparr>
     ro_heartbeat_timeout = heartbeat_timeout r,
     ro_election_start = election_timeout_min r,
     ro_election_end = election_timeout_max r\<rparr>"

record system_config =
  verbosity :: string
  network :: network_config
  raft :: raft_config
  consul :: consul_config
  metrics :: metrics_config
  carbon :: carbon_config
  n_threads :: usize
  w_threads :: usize
  task_queue_size :: usize
  start_as_leader :: bool
  stats_interval :: u64
  stats_prefix :: string
  consensus :: consensus_kind

definition system_default :: system_config where
  "system_default = \<lparr>
     verbosity = ''warn'',
     network = network_default,
     raft = raft_default,
     consul = consul_default,
     metrics = metrics_default,
     carbon = carbon_default,
     n_threads = 4,
     w_threads = 4,
     task_queue_size = 2048,
     start_as_leader = False,
     stats_interval = 10000,
     stats_prefix = ''resources.monitoring.bioyino'',
     consensus = NoConsensus\<rparr>"

section \<open>Loading\<close>

datatype command = Daemon | Query mgmt_command string

text \<open>
  The matches of the command line parser. \<open>config\<close>, \<open>host\<close> and \<open>leader_action\<close> have default
  values, so they are always present; \<open>action\<close> may be missing. Of the two subcommands of
  \<open>query\<close> the code looks at \<open>status\<close> first.
\<close>

record query_matches =
  qm_host :: string
  qm_status :: bool
  qm_consensus :: "(string option \<times> string) option"

record matches =
  m_config :: string
  m_verbosity :: "string option"
  m_query :: "query_matches option"

definition load_command :: "matches \<Rightarrow> panic + command" where
  "load_command app =
    (case m_query app of
       None \<Rightarrow> Inr Daemon
     | Some query \<Rightarrow>
         (if qm_status query then Inr (Query Status (qm_host query))
          else case qm_consensus query of
            None \<Rightarrow> Inl (Panic ''clap bug?'')
          | Some (action, leader_action) \<Rightarrow>
              (case action of
                 None \<Rightarrow> Inl (Panic ''bad consensus action'')
               | Some a \<Rightarrow>
                   (case consensus_action_from_str a of
                      Inl _ \<Rightarrow> Inl (Panic ''bad consensus action'')
                    | Inr c_action \<Rightarrow>
                        (case leader_action_from_str leader_action of
                           Inl _ \<Rightarrow> Inl (Panic ''bad leader action'')
                         | Inr l_action \<Rightarrow>
                             Inr (Query (ConsensusCommand c_action l_action) (qm_host query)))))))"

definition system_load ::
    "(string \<Rightarrow> string option) \<Rightarrow> (string \<Rightarrow> system_config option) \<Rightarrow> matches
      \<Rightarrow> panic + system_config \<times> command" where
  "system_load read_file from_toml app =
    (case read_file (m_config app) of
       None \<Rightarrow> Inl (Panic ''opening config file'')
     | Some config_str \<Rightarrow>
         (case from_toml config_str of
            None \<Rightarrow> Inl (Panic ''parsing config'')
          | Some system \<Rightarrow>
              let system' = (case m_verbosity app of Some v \<Rightarrow> system\<lparr>verbosity := v\<rparr> | None \<Rightarrow> system)
              in map_sum id (\<lambda>cmd. (system', cmd)) (load_command app)))"

end
