(* ===== verification/Task.thy ===== *)
theory Task
  imports Config
begin

text \<open>
  \<^verbatim>\<open>src/task.rs\<close>: the counting worker. A worker owns two caches (\<open>short\<close>: what arrived since
  the last snapshot; \<open>long\<close>: what arrived since the last rotation) and the unparsed tail of
  every sender's byte stream; \<open>run\<close> executes one task on it. The metric arithmetic and the
  metric parser are in the crate \<open>bioyino_metric\<close> and enter as the record \<open>metric_lib\<close>.
\<close>

section \<open>The metric crate\<close>

text \<open>
  \<open>aggregate old new\<close> is the value of \<open>old\<close> after \<open>old.aggregate(new)\<close> and whether the call
  returned \<open>Ok\<close>. \<open>parse n buf\<close> is a whole run of \<open>MetricParser::new(buf, n, handler)\<close>: the
  metrics it yields, what it leaves in the buffer, and the calls of the error handler.
\<close>

record 'm metric_lib =
  aggregate :: "'m \<Rightarrow> 'm \<Rightarrow> 'm \<times> bool"
  update_counter :: "'m \<Rightarrow> u32"
  into_iter :: "'m \<Rightarrow> (bytes \<times> f64) list"
  parse :: "usize \<Rightarrow> bytes \<Rightarrow> (bytes \<times> 'm) list \<times> bytes \<times> (bytes \<times> usize) list"
  metric_new_counter :: "f64 \<Rightarrow> 'm"

abbreviation joined :: "'m metric_lib \<Rightarrow> 'm \<Rightarrow> 'm \<Rightarrow> 'm" where
  "joined lib a b \<equiv> fst (aggregate lib a b)"

type_synonym 'm cache = "(bytes, 'm) hash_map"

section \<open>Data\<close>

record update_counter_options =
  threshold :: u32
  prefix :: bytes
  suffix :: bytes

record aggregate_options =
  is_leader :: bool
  update_counter_opts :: "update_counter_options option"
  agg_mode :: aggregation_mode
  multi_threads :: usize

text \<open>The two ends of a channel share an identifier; a reply is tagged with it.\<close>

type_synonym chan_id = nat

record 'm aggregate_data =
  ad_buf :: bytes
  ad_name :: bytes
  ad_metric :: 'm
  ad_options :: aggregate_options
  ad_response :: chan_id

datatype 'm task =
    is_Parse: Parse u64 bytes
  | AddMetric bytes 'm
  | AddMetrics "(bytes \<times> 'm) list"
  | is_AddSnapshot: AddSnapshot "(bytes \<times> 'm) list"
  | TakeSnapshot chan_id
  | Rotate chan_id
  | Aggregate "'m aggregate_data"

record 'm task_runner =
  long :: "'m cache"
  short :: "'m cache"
  buffers :: "(u64, usize \<times> bytes) hash_map"
  runner_config :: system_config

definition task_runner_new :: "system_config \<Rightarrow> 'm task_runner" where
  "task_runner_new config = \<lparr>long = [], short = [], buffers = [], runner_config = config\<rparr>"

text \<open>What a worker sends, in the order it sends it.\<close>

datatype 'm message =
    Snapshot chan_id "'m cache"
  | Rotated chan_id "'m cache"
  | Aggregated chan_id bytes f64

text \<open>A worker thread: its runner, its view of the counters, and what it has sent so far.\<close>

record 'm worker =
  runner :: "'m task_runner"
  stats :: counters
  outbox :: "'m message list"

section \<open>Operations\<close>

definition update_metric ::
    "'m metric_lib \<Rightarrow> bytes \<times> 'm \<Rightarrow> 'm cache \<times> counters \<Rightarrow> 'm cache \<times> counters" where
  "update_metric lib = (\<lambda>(name, metric) (cache, c).
    (case hm_get cache name of
       Some old \<Rightarrow>
         (let (old', ok) = aggregate lib old metric
          in (hm_insert name old' cache, if ok then c else add_agg_errors 1 c))
     | None \<Rightarrow> (hm_insert name metric cache, c)))"

abbreviation update_metrics ::
    "'m metric_lib \<Rightarrow> (bytes \<times> 'm) list \<Rightarrow> 'm cache \<times> counters \<Rightarrow> 'm cache \<times> counters" where
  "update_metrics lib kvs \<equiv> fold (update_metric lib) kvs"

text \<open>\<open>aggregate_task\<close>, the values it computes: \<open>buf\<close> is taken (emptied) after every name.\<close>

definition update_counter_value ::
    "'m metric_lib \<Rightarrow> 'm aggregate_data \<Rightarrow> (bytes \<times> f64) option \<times> bytes" where
  "update_counter_value lib d =
    (case update_counter_opts (ad_options d) of
       Some options \<Rightarrow>
         (if threshold options < update_counter lib (ad_metric d) then
            (let buf1 = (if 0 < length (prefix options) then ad_buf d @ prefix options @ ''.'' else ad_buf d);
                 buf2 = buf1 @ ad_name d;
                 buf3 = (if 0 < length (suffix options) then buf2 @ ''.'' @ suffix options else buf2)
             in (Some (buf3, f64_of_u32 (update_counter lib (ad_metric d))), []))
          else (None, ad_buf d))
     | None \<Rightarrow> (None, ad_buf d))"

fun named_values :: "bytes \<Rightarrow> bytes \<Rightarrow> (bytes \<times> f64) list \<Rightarrow> (bytes \<times> f64) list" where
  "named_values buf name [] = []"
| "named_values buf name ((sfx, value) # rest) = (buf @ name @ sfx, value) # named_values [] name rest"

definition aggregate_values :: "'m metric_lib \<Rightarrow> 'm aggregate_data \<Rightarrow> (bytes \<times> f64) list" where
  "aggregate_values lib d =
    (let (upd, buf) = update_counter_value lib d
     in named_values buf (ad_name d) (into_iter lib (ad_metric d)) @ (case upd of None \<Rightarrow> [] | Some u \<Rightarrow> [u]))"

text \<open>
  \<open>alive ch\<close> says that the receiving end of \<open>ch\<close> has not been dropped: a send succeeds
  exactly then.
\<close>

definition aggregate_task ::
    "'m metric_lib \<Rightarrow> (chan_id \<Rightarrow> bool) \<Rightarrow> 'm aggregate_data \<Rightarrow> counters \<times> 'm message list
      \<Rightarrow> counters \<times> 'm message list" where
  "aggregate_task lib alive d = fold (\<lambda>(name, value) (c, out).
     if alive (ad_response d) then (c, out @ [Aggregated (ad_response d) name value])
     else (add_agg_errors 1 c, out)) (aggregate_values lib d)"

definition parse_error_handler :: "bytes \<times> usize \<Rightarrow> counters \<Rightarrow> counters" where
  "parse_error_handler e c = add_parse_errors 1 c"

text \<open>The buffer of a sender, to which the arriving bytes are appended.\<close>

definition prev_buffer :: "'m task_runner \<Rightarrow> u64 \<Rightarrow> bytes" where
  "prev_buffer r addr = (case hm_get (buffers r) addr of Some (age, b) \<Rightarrow> b | None \<Rightarrow> [])"

definition parse_stream ::
    "'m metric_lib \<Rightarrow> 'm task_runner \<Rightarrow> u64 \<Rightarrow> bytes \<Rightarrow> (bytes \<times> 'm) list \<times> bytes \<times> (bytes \<times> usize) list" where
  "parse_stream lib r addr buf =
    parse lib (max_unparsed_buffer (metrics (runner_config r))) (prev_buffer r addr @ buf)"

definition run_parse :: "'m metric_lib \<Rightarrow> u64 \<Rightarrow> bytes \<Rightarrow> 'm worker \<Rightarrow> 'm worker" where
  "run_parse lib addr buf w =
    (let r = runner w;
         (found, rest, errs) = parse_stream lib r addr buf;
         c1 = fold parse_error_handler errs (stats w);
         (short', c2) = fold (\<lambda>kv (s, c). update_metric lib kv (s, add_ingress_metrics 1 c)) found (short r, c1)
     in w\<lparr>runner := r\<lparr>short := short', buffers := hm_insert addr (0, rest) (buffers r)\<rparr>, stats := c2\<rparr>)"

definition run_take_snapshot ::
    "'m metric_lib \<Rightarrow> (chan_id \<Rightarrow> bool) \<Rightarrow> chan_id \<Rightarrow> 'm worker \<Rightarrow> 'm worker" where
  "run_take_snapshot lib alive channel w =
    (let r = runner w;
         snapshot = short r;
         (long', c1) = update_metrics lib (short r) (long r, stats w);
         w1 = w\<lparr>runner := r\<lparr>long := long', short := []\<rparr>, stats := c1\<rparr>
     in if alive channel then w1\<lparr>outbox := outbox w1 @ [Snapshot channel snapshot]\<rparr>
        else w1\<lparr>stats := add_peer_errors 1 (stats w1)\<rparr>)"

definition age_buffers :: "(u64, usize \<times> bytes) hash_map \<Rightarrow> (u64, usize \<times> bytes) hash_map" where
  "age_buffers bufs =
    filter (\<lambda>(addr, age, b). age < 5) (map (\<lambda>(addr, age, b). (addr, age + 1, b)) bufs)"

definition run_rotate :: "(chan_id \<Rightarrow> bool) \<Rightarrow> chan_id \<Rightarrow> 'm worker \<Rightarrow> 'm worker" where
  "run_rotate alive channel w =
    (let r = runner w;
         rotated = long r;
         w1 = w\<lparr>runner := r\<lparr>long := [], buffers := age_buffers (buffers r)\<rparr>\<rparr>
     in if alive channel then w1\<lparr>outbox := outbox w1 @ [Rotated channel rotated]\<rparr>
        else w1\<lparr>stats := add_drops 1 (stats w1)\<rparr>)"

fun run :: "'m metric_lib \<Rightarrow> (chan_id \<Rightarrow> bool) \<Rightarrow> 'm task \<Rightarrow> 'm worker \<Rightarrow> 'm worker" where
  "run lib alive (Parse addr buf) w = run_parse lib addr buf w"
| "run lib alive (AddMetric name metric) w =
    (let (s, c) = update_metric lib (name, metric) (short (runner w), stats w)
     in w\<lparr>runner := (runner w)\<lparr>short := s\<rparr>, stats := c\<rparr>)"
| "run lib alive (AddMetrics kvs) w =
    (let (s, c) = update_metrics lib kvs (short (runner w), stats w)
     in w\<lparr>runner := (runner w)\<lparr>short := s\<rparr>, stats := c\<rparr>)"
| "run lib alive (AddSnapshot kvs) w =
    (let (l, c) = update_metrics lib kvs (long (runner w), stats w)
     in w\<lparr>runner := (runner w)\<lparr>long := l\<rparr>, stats := c\<rparr>)"
| "run lib alive (TakeSnapshot channel) w = run_take_snapshot lib alive channel w"
| "run lib alive (Rotate channel) w = run_rotate alive channel w"
| "run lib alive (Aggregate d) w =
    (let (c, out) = aggregate_task lib alive d (stats w, outbox w) in w\<lparr>stats := c, outbox := out\<rparr>)"

text \<open>The counting thread of \<open>main\<close>: the runner folded over the tasks of its queue.\<close>

definition run_tasks :: "'m metric_lib \<Rightarrow> (chan_id \<Rightarrow> bool) \<Rightarrow> 'm task list \<Rightarrow> 'm worker \<Rightarrow> 'm worker" where
  "run_tasks lib alive = fold (run lib alive)"

definition get_long_entry :: "'m task_runner \<Rightarrow> bytes \<Rightarrow> 'm option" where
  "get_long_entry r e = hm_get (long r) e"

definition get_short_entry :: "'m task_runner \<Rightarrow> bytes \<Rightarrow> 'm option" where
  "get_short_entry r e = hm_get (short r) e"


section \<open>The store contract\<close>

text \<open>\<open>update_metric\<close> adds one metric to a cache; the counters play no role in the cache.\<close>

interpretation upd: entry_store "update_metric lib" "\<lambda>s. hm_get (fst s)" "joined lib" for lib
  by unfold_locales
    (auto simp: update_metric_def join_opt_def update_conv split: prod.splits option.splits)

definition put_metric :: "'m metric_lib \<Rightarrow> bytes \<times> 'm \<Rightarrow> 'm cache \<Rightarrow> 'm cache" where
  "put_metric lib kv m = hm_insert (fst kv)
     (case hm_get m (fst kv) of Some old \<Rightarrow> joined lib old (snd kv) | None \<Rightarrow> snd kv) m"

lemma fst_update_metric: "fst (update_metric lib kv s) = put_metric lib kv (fst s)"
  by (cases kv; cases s) (auto simp: update_metric_def put_metric_def split: prod.splits option.splits)

lemma fst_update_metrics: "fst (update_metrics lib kvs s) = fold (put_metric lib) kvs (fst s)"
  by (induction kvs arbitrary: s) (simp_all add: fst_update_metric)

lemma fst_ingress_fold:
  "fst (fold (\<lambda>kv (s, c). update_metric lib kv (s, add_ingress_metrics 1 c)) kvs s)
    = fold (put_metric lib) kvs (fst s)"
  by (induction kvs arbitrary: s) (auto simp: fst_update_metric split: prod.split)

lemma hm_wf_put_metric [simp]: "hm_wf m \<Longrightarrow> hm_wf (put_metric lib kv m)"
  by (simp add: put_metric_def)

lemma hm_wf_put_metrics [simp]: "hm_wf m \<Longrightarrow> hm_wf (fold (put_metric lib) kvs m)"
  by (induction kvs arbitrary: m) simp_all

text \<open>What each task does to the runner, with the counters projected away.\<close>

lemma runner_run_parse:
  "runner (run lib alive (Parse addr buf) w) =
    (runner w)\<lparr>short := fold (put_metric lib) (fst (parse_stream lib (runner w) addr buf)) (short (runner w)),
       buffers := hm_insert addr (0, fst (snd (parse_stream lib (runner w) addr buf))) (buffers (runner w))\<rparr>"
  by (simp add: run_parse_def Let_def case_prod_unfold fst_ingress_fold [unfolded case_prod_unfold])

lemma runner_run:
  "runner (run lib alive (AddMetric name metric) w) =
     (runner w)\<lparr>short := put_metric lib (name, metric) (short (runner w))\<rparr>"
  "runner (run lib alive (AddMetrics kvs) w) =
     (runner w)\<lparr>short := fold (put_metric lib) kvs (short (runner w))\<rparr>"
  "runner (run lib alive (AddSnapshot kvs) w) =
     (runner w)\<lparr>long := fold (put_metric lib) kvs (long (runner w))\<rparr>"
  "runner (run lib alive (TakeSnapshot channel) w) =
     (runner w)\<lparr>long := fold (put_metric lib) (short (runner w)) (long (runner w)), short := []\<rparr>"
  "runner (run lib alive (Rotate channel) w) =
     (runner w)\<lparr>long := [], buffers := age_buffers (buffers (runner w))\<rparr>"
  "runner (run lib alive (Aggregate d) w) = runner w"
  by (simp_all add: run_take_snapshot_def run_rotate_def Let_def case_prod_unfold
      fst_update_metric fst_update_metrics)

lemma outbox_run:
  "outbox (run lib alive (Parse addr buf) w) = outbox w"
  "outbox (run lib alive (AddMetric name metric) w) = outbox w"
  "outbox (run lib alive (AddMetrics kvs) w) = outbox w"
  "outbox (run lib alive (AddSnapshot kvs) w) = outbox w"
  "outbox (run lib alive (TakeSnapshot channel) w) =
     outbox w @ (if alive channel then [Snapshot channel (short (runner w))] else [])"
  "outbox (run lib alive (Rotate channel) w) =
     outbox w @ (if alive channel then [Rotated channel (long (runner w))] else [])"
  by (simp_all add: run_parse_def run_take_snapshot_def run_rotate_def Let_def case_prod_unfold)

lemma aggregate_task_outbox:
  "snd (aggregate_task lib alive d (c, out)) =
    out @ (if alive (ad_response d)
           then map (\<lambda>(name, value). Aggregated (ad_response d) name value) (aggregate_values lib d) else [])"
proof -
  have "snd (fold (\<lambda>(name, value) (c, out).
      if alive (ad_response d) then (c, out @ [Aggregated (ad_response d) name value])
      else (add_agg_errors 1 c, out)) kvs (c, out)) =
    out @ (if alive (ad_response d) then map (\<lambda>(name, value). Aggregated (ad_response d) name value) kvs else [])"
    for kvs and c :: counters and out :: "'a message list"
    by (induction kvs arbitrary: c out) auto
  then show ?thesis by (simp add: aggregate_task_def)
qed

lemma outbox_run_aggregate:
  "outbox (run lib alive (Aggregate d) w) =
    outbox w @ (if alive (ad_response d)
       then map (\<lambda>(name, value). Aggregated (ad_response d) name value) (aggregate_values lib d) else [])"
  using aggregate_task_outbox [of lib alive d "stats w" "outbox w"]
  by (simp add: case_prod_unfold)

declare run.simps [simp del]

lemmas run_effects = runner_run runner_run_parse outbox_run outbox_run_aggregate

section \<open>Well-formed workers\<close>

definition worker_new :: "system_config \<Rightarrow> 'm worker" where
  "worker_new config = \<lparr>runner = task_runner_new config, stats = counters_init, outbox = []\<rparr>"

definition runner_wf :: "'m task_runner \<Rightarrow> bool" where
  "runner_wf r \<longleftrightarrow> hm_wf (long r) \<and> hm_wf (short r) \<and> hm_wf (buffers r) \<and>
    (\<forall>(addr, age, b) \<in> set (buffers r). age < 5)"

lemma map_fst_age_buffers: "set (map fst (age_buffers bufs)) \<subseteq> set (map fst bufs)"
  by (force simp: age_buffers_def)

lemma hm_wf_age_buffers [simp]: "hm_wf bufs \<Longrightarrow> hm_wf (age_buffers bufs)"
  by (simp add: age_buffers_def hm_wf_def hm_keys_def distinct_map_filter comp_def case_prod_unfold)

lemma age_buffers_bound: "(addr, age, b) \<in> set (age_buffers bufs) \<Longrightarrow> age < 5"
  by (auto simp: age_buffers_def)

lemma set_hm_insert: "set (hm_insert k v m) \<subseteq> insert (k, v) (set m)"
  by (induction m) auto

lemma runner_wf_run:
  assumes "runner_wf (runner w)"
  shows "runner_wf (runner (run lib alive t w))"
  using assms
proof (cases t)
  case (Parse addr buf)
  have "age < 5" if "(a, age, b) \<in> set (hm_insert addr (0, x) (buffers (runner w)))" for a age b x
    using set_hm_insert [of addr "(0, x)" "buffers (runner w)"] that assms
    by (fastforce simp: runner_wf_def)
  with assms Parse show ?thesis
    by (auto simp: runner_wf_def run_effects)
next
  case (Rotate channel)
  with assms show ?thesis
    by (auto simp: runner_wf_def run_effects dest: age_buffers_bound)
qed (auto simp: runner_wf_def run_effects)

lemma runner_wf_run_tasks: "runner_wf (runner w) \<Longrightarrow> runner_wf (runner (run_tasks lib alive ts w))"
  unfolding run_tasks_def by (induction ts arbitrary: w) (simp_all add: runner_wf_run)

lemma runner_wf_new: "runner_wf (runner (worker_new config))"
  by (simp add: runner_wf_def worker_new_def task_runner_new_def)

section \<open>Conservation\<close>

text \<open>
  A measure of metrics that \<open>aggregate\<close> adds up, per name: the number of updates of a
  metric, the value of a counter, the number of samples of a timer.
\<close>

definition additive :: "'m metric_lib \<Rightarrow> (bytes \<Rightarrow> 'm \<Rightarrow> 'c::comm_monoid_add) \<Rightarrow> bool" where
  "additive lib \<mu> \<longleftrightarrow> (\<forall>k a b. \<mu> k (joined lib a b) = \<mu> k a + \<mu> k b)"

definition entries_total :: "(bytes \<Rightarrow> 'm \<Rightarrow> 'c::comm_monoid_add) \<Rightarrow> (bytes \<times> 'm) list \<Rightarrow> 'c" where
  "entries_total \<mu> kvs = (\<Sum>(k, v)\<leftarrow>kvs. \<mu> k v)"

lemma entries_total_simps [simp]:
  "entries_total \<mu> [] = 0"
  "entries_total \<mu> (kv # kvs) = \<mu> (fst kv) (snd kv) + entries_total \<mu> kvs"
  "entries_total \<mu> (kvs @ kvs') = entries_total \<mu> kvs + entries_total \<mu> kvs'"
  by (simp_all add: entries_total_def case_prod_unfold)

lemma entries_total_put_metric:
  assumes "additive lib \<mu>"
  shows "entries_total \<mu> (put_metric lib kv m) = entries_total \<mu> m + \<mu> (fst kv) (snd kv)"
proof (induction m)
  case Nil
  show ?case by (simp add: put_metric_def)
next
  case (Cons e m)
  show ?case
  proof (cases "fst e = fst kv")
    case True
    with assms show ?thesis
      by (cases e) (simp add: put_metric_def additive_def ac_simps)
  next
    case False
    have "put_metric lib kv (e # m) = e # put_metric lib kv m"
      using False by (cases e) (simp add: put_metric_def)
    with Cons show ?thesis by (simp add: ac_simps)
  qed
qed

lemma entries_total_put_metrics:
  "additive lib \<mu> \<Longrightarrow>
    entries_total \<mu> (fold (put_metric lib) kvs m) = entries_total \<mu> m + entries_total \<mu> kvs"
  by (induction kvs arbitrary: m) (simp_all add: entries_total_put_metric ac_simps)

text \<open>The entries a task brings into the worker, and those of a whole run.\<close>

fun inflow :: "'m metric_lib \<Rightarrow> 'm task \<Rightarrow> 'm worker \<Rightarrow> (bytes \<times> 'm) list" where
  "inflow lib (Parse addr buf) w = fst (parse_stream lib (runner w) addr buf)"
| "inflow lib (AddMetric name metric) w = [(name, metric)]"
| "inflow lib (AddMetrics kvs) w = kvs"
| "inflow lib (AddSnapshot kvs) w = kvs"
| "inflow lib _ w = []"

fun inflows :: "'m metric_lib \<Rightarrow> (chan_id \<Rightarrow> bool) \<Rightarrow> 'm task list \<Rightarrow> 'm worker \<Rightarrow> (bytes \<times> 'm) list" where
  "inflows lib alive [] w = []"
| "inflows lib alive (t # ts) w = inflow lib t w @ inflows lib alive ts (run lib alive t w)"

definition stored :: "'m worker \<Rightarrow> (bytes \<times> 'm) list" where
  "stored w = long (runner w) @ short (runner w)"

definition rotated :: "'m message list \<Rightarrow> (bytes \<times> 'm) list" where
  "rotated out = concat (map (\<lambda>msg. case msg of Rotated ch m \<Rightarrow> m | _ \<Rightarrow> []) out)"

lemma rotated_append [simp]: "rotated (xs @ ys) = rotated xs @ rotated ys"
  by (simp add: rotated_def)

lemma rotated_simps [simp]:
  "rotated [] = []"
  "rotated [Snapshot ch m] = []"
  "rotated [Rotated ch m] = m"
  "rotated (map (\<lambda>(name, value). Aggregated ch name value) kvs) = []"
  by (auto simp: rotated_def case_prod_unfold comp_def)

lemma run_conserves:
  assumes "additive lib \<mu>" and "\<And>ch. t = Rotate ch \<Longrightarrow> alive ch"
  shows "entries_total \<mu> (stored (run lib alive t w)) + entries_total \<mu> (rotated (outbox (run lib alive t w)))
    = entries_total \<mu> (stored w) + entries_total \<mu> (rotated (outbox w)) + entries_total \<mu> (inflow lib t w)"
  using assms by (cases t) (simp_all add: stored_def run_effects entries_total_put_metrics
    entries_total_put_metric ac_simps)

lemma run_tasks_conserves:
  assumes "additive lib \<mu>" and "\<And>ch. Rotate ch \<in> set ts \<Longrightarrow> alive ch"
  shows "entries_total \<mu> (stored (run_tasks lib alive ts w))
      + entries_total \<mu> (rotated (outbox (run_tasks lib alive ts w)))
    = entries_total \<mu> (stored w) + entries_total \<mu> (rotated (outbox w))
      + entries_total \<mu> (inflows lib alive ts w)"
  using assms(2)
proof (induction ts arbitrary: w)
  case Nil
  show ?case by (simp add: run_tasks_def)
next
  case (Cons t ts)
  have "entries_total \<mu> (stored (run lib alive t w)) + entries_total \<mu> (rotated (outbox (run lib alive t w)))
    = entries_total \<mu> (stored w) + entries_total \<mu> (rotated (outbox w)) + entries_total \<mu> (inflow lib t w)"
    using assms(1) Cons.prems by (intro run_conserves) auto
  with Cons.IH [of "run lib alive t w"] Cons.prems show ?case
    by (simp add: run_tasks_def ac_simps)
qed

section \<open>Snapshots\<close>

lemma hm_get_put_metrics:
  assumes "hm_wf kvs"
  shows "hm_get (fold (put_metric lib) kvs m) k =
    (case hm_get kvs k of None \<Rightarrow> hm_get m k | Some v \<Rightarrow> join_opt (joined lib) v (hm_get m k))"
  using upd.get_fold_distinct [of kvs lib "(m, counters_init)" k] assms
  by (simp add: fst_update_metrics hm_wf_def hm_keys_def split: option.split)

definition snapshots :: "'m message list \<Rightarrow> (chan_id \<times> 'm cache) list" where
  "snapshots out = concat (map (\<lambda>msg. case msg of Snapshot ch m \<Rightarrow> [(ch, m)] | _ \<Rightarrow> []) out)"

lemma snapshots_simps [simp]:
  "snapshots [] = []"
  "snapshots (xs @ ys) = snapshots xs @ snapshots ys"
  "snapshots [Snapshot ch m] = [(ch, m)]"
  "snapshots [Rotated ch m] = []"
  "snapshots (map (\<lambda>(name, value). Aggregated ch name value) kvs) = []"
  by (auto simp: snapshots_def case_prod_unfold comp_def)

text \<open>What determines the snapshots a worker will send: everything but its long cache.\<close>

definition same_short :: "'m worker \<Rightarrow> 'm worker \<Rightarrow> bool" where
  "same_short w w' \<longleftrightarrow> short (runner w) = short (runner w') \<and> buffers (runner w) = buffers (runner w') \<and>
    runner_config (runner w) = runner_config (runner w') \<and>
    snapshots (outbox w) = snapshots (outbox w')"

lemma same_short_run: "same_short w w' \<Longrightarrow> same_short (run lib alive t w) (run lib alive t w')"
  by (cases t) (simp_all add: same_short_def run_effects parse_stream_def prev_buffer_def)

lemma same_short_AddSnapshot:
  "is_AddSnapshot t \<Longrightarrow> same_short w w' \<Longrightarrow> same_short (run lib alive t w) w'"
  by (cases t) (simp_all add: same_short_def run_effects)

lemma same_short_run_tasks:
  "same_short w w' \<Longrightarrow> same_short (run_tasks lib alive ts w)
     (run_tasks lib alive (filter (\<lambda>t. \<not> is_AddSnapshot t) ts) w')"
  unfolding run_tasks_def
  by (induction ts arbitrary: w w') (auto intro: same_short_run same_short_AddSnapshot)

section \<open>Streams of different senders\<close>

lemma hm_get_age_buffers:
  assumes "hm_wf bufs"
  shows "hm_get (age_buffers bufs) addr =
    (case hm_get bufs addr of
       Some (age, b) \<Rightarrow> if age + 1 < 5 then Some (age + 1, b) else None
     | None \<Rightarrow> None)"
  using assms
proof (induction bufs)
  case Nil
  show ?case by (simp add: age_buffers_def)
next
  case (Cons e bufs)
  obtain a age b where e: "e = (a, age, b)" by (cases e)
  have absent: "hm_get (age_buffers bufs) a = None"
    using Cons.prems map_fst_age_buffers [of bufs]
    by (auto simp: e hm_wf_def hm_keys_def map_of_eq_None_iff)
  have "age_buffers (e # bufs) = (if age + 1 < 5 then [(a, age + 1, b)] else []) @ age_buffers bufs"
    by (simp add: age_buffers_def e)
  with Cons absent show ?case
    by (auto simp: e hm_wf_def hm_keys_def split: if_splits)
qed

definition stream_of :: "u64 \<Rightarrow> 'm task \<Rightarrow> bool" where
  "stream_of addr t = (case t of Parse a buf \<Rightarrow> a = addr | Rotate ch \<Rightarrow> True | _ \<Rightarrow> False)"

text \<open>The metrics found in the stream of one sender over a run.\<close>

fun stream_metrics ::
    "'m metric_lib \<Rightarrow> (chan_id \<Rightarrow> bool) \<Rightarrow> u64 \<Rightarrow> 'm task list \<Rightarrow> 'm worker \<Rightarrow> (bytes \<times> 'm) list" where
  "stream_metrics lib alive addr [] w = []"
| "stream_metrics lib alive addr (t # ts) w =
    (case t of Parse a buf \<Rightarrow> if a = addr then inflow lib t w else [] | _ \<Rightarrow> [])
    @ stream_metrics lib alive addr ts (run lib alive t w)"

definition same_stream :: "u64 \<Rightarrow> 'm worker \<Rightarrow> 'm worker \<Rightarrow> bool" where
  "same_stream addr w w' \<longleftrightarrow> hm_get (buffers (runner w)) addr = hm_get (buffers (runner w')) addr \<and>
    runner_config (runner w) = runner_config (runner w') \<and> runner_wf (runner w) \<and> runner_wf (runner w')"

lemma same_stream_parse:
  "same_stream addr w w' \<Longrightarrow> parse_stream lib (runner w) addr buf = parse_stream lib (runner w') addr buf"
  by (simp add: same_stream_def parse_stream_def prev_buffer_def)

lemma same_stream_run:
  assumes "same_stream addr w w'" and "stream_of addr t"
  shows "same_stream addr (run lib alive t w) (run lib alive t w')"
  using assms runner_wf_run [of w lib alive t] runner_wf_run [of w' lib alive t]
  by (cases t) (auto simp: same_stream_def stream_of_def run_effects parse_stream_def
      prev_buffer_def update_conv hm_get_age_buffers runner_wf_def)

lemma same_stream_other:
  assumes "same_stream addr w w'" and "\<not> stream_of addr t"
  shows "same_stream addr (run lib alive t w) w'"
  using assms runner_wf_run [of w lib alive t]
  by (cases t) (auto simp: same_stream_def stream_of_def run_effects update_conv)

lemma stream_metrics_isolated:
  "same_stream addr w w' \<Longrightarrow>
    stream_metrics lib alive addr ts w = stream_metrics lib alive addr (filter (stream_of addr) ts) w'"
proof (induction ts arbitrary: w w')
  case Nil
  show ?case by simp
next
  case (Cons t ts)
  show ?case
  proof (cases "stream_of addr t")
    case True
    with Cons same_stream_run [of addr w w' t lib alive] show ?thesis
      by (cases t) (auto simp: stream_of_def same_stream_parse [OF Cons.prems])
  next
    case False
    with Cons same_stream_other [of addr w w' t lib alive] show ?thesis
      by (cases t) (auto simp: stream_of_def)
  qed
qed

text \<open>How long the tail of a silent sender is kept.\<close>

definition rotations :: "'m task list \<Rightarrow> nat" where
  "rotations ts = length (filter (\<lambda>t. case t of Rotate ch \<Rightarrow> True | _ \<Rightarrow> False) ts)"

lemma silent_stream_kept:
  assumes "runner_wf (runner w)"
    and "\<forall>t \<in> set ts. \<forall>buf. t \<noteq> Parse addr buf"
    and "hm_get (buffers (runner w)) addr = (if n < 5 then Some (of_nat n, rest) else None)"
  shows "hm_get (buffers (runner (run_tasks lib alive ts w))) addr =
    (if n + rotations ts < 5 then Some (of_nat (n + rotations ts), rest) else None)"
  using assms
proof (induction ts arbitrary: w n)
  case Nil
  then show ?case by (simp add: run_tasks_def rotations_def)
next
  case (Cons t ts)
  let ?n' = "n + rotations [t]"
  have "n = 0 \<or> n = 1 \<or> n = 2 \<or> n = 3 \<or> n = 4 \<or> 5 \<le> n" by linarith
  with Cons.prems have "hm_get (buffers (runner (run lib alive t w))) addr =
      (if ?n' < 5 then Some (of_nat ?n', rest) else None)"
    by (cases t) (auto simp: run_effects rotations_def update_conv hm_get_age_buffers runner_wf_def)
  with Cons.IH [of "run lib alive t w" ?n'] Cons.prems(2) runner_wf_run [OF Cons.prems(1)]
  show ?case by (simp add: run_tasks_def rotations_def add.assoc split: if_splits)
qed

section \<open>A concrete metric library\<close>

text \<open>
  An instance of the parameter, on which the statements with hypotheses are exercised: metrics
  are natural numbers that add up, and every complete line of a stream is a metric of value 1
  named by the line; a line with a blank is an error.
\<close>

fun split_lines :: "bytes \<Rightarrow> bytes \<Rightarrow> bytes list \<times> bytes" where
  "split_lines line [] = ([], line)"
| "split_lines line (b # bs) =
    (if b = CHR 0x0A then (let (ls, rest) = split_lines [] bs in (line # ls, rest))
     else split_lines (line @ [b]) bs)"

definition sample_lib :: "nat metric_lib" where
  "sample_lib = \<lparr>
     aggregate = (\<lambda>a b. (a + b, True)),
     update_counter = of_nat,
     into_iter = (\<lambda>m. [([], Fin (of_nat m))]),
     parse = (\<lambda>limit buf. let (ls, rest) = split_lines [] buf
       in (map (\<lambda>l. (l, 1)) (filter (\<lambda>l. CHR '' '' \<notin> set l) ls), rest,
           map (\<lambda>l. (l, 0)) (filter (\<lambda>l. CHR '' '' \<in> set l) ls))),
     metric_new_counter = (\<lambda>v. 0)\<rparr>"

lemma aggregate_sample_lib [simp]: "aggregate sample_lib a b = (a + b, True)"
  by (simp add: sample_lib_def)

lemma sample_lib_additive: "additive sample_lib (\<lambda>k v. v)"
  by (simp add: additive_def sample_lib_def)

section \<open>Properties\<close>

text \<open>
  Nothing is lost and nothing is counted twice. For every measure that the metric
  crate's \<open>aggregate\<close> adds up, and every sequence of tasks whose rotations are received,
  what a worker stores at the end together with everything it handed out by rotation is
  what it stored and had handed out at the start plus everything the tasks brought in.
\<close>

lemma worker_conserves_metrics:
  fixes \<mu> :: "bytes \<Rightarrow> 'm \<Rightarrow> 'c::comm_monoid_add"
  assumes "additive lib \<mu>" and "\<And>ch. Rotate ch \<in> set ts \<Longrightarrow> alive ch"
  shows "entries_total \<mu> (stored (run_tasks lib alive ts w))
      + entries_total \<mu> (rotated (outbox (run_tasks lib alive ts w)))
    = entries_total \<mu> (stored w) + entries_total \<mu> (rotated (outbox w))
      + entries_total \<mu> (inflows lib alive ts w)"
  using assms by (rule run_tasks_conserves)

text \<open>
  C21. A snapshot received from a peer is never sent on to peers: the snapshots a worker
  sends during any run are the same as if the \<open>AddSnapshot\<close> tasks had not been there.
\<close>

theorem snapshots_ignore_peer_data:
  "snapshots (outbox (run_tasks lib alive ts w)) =
   snapshots (outbox (run_tasks lib alive (filter (\<lambda>t. \<not> is_AddSnapshot t) ts) w))"
  using same_short_run_tasks [of w w lib alive ts] by (simp add: same_short_def)

text \<open>
  Taking a snapshot moves the short cache into the long one, whatever the iteration
  order \<open>kvs\<close> of the short cache is: afterwards the short cache is empty, and a name has in
  the long cache its old value aggregated with the short one.
\<close>

lemma take_snapshot_merges:
  assumes "runner_wf (runner w)" and "hm_eq kvs (short (runner w))"
    and "w' = run lib alive (TakeSnapshot ch) (w\<lparr>runner := (runner w)\<lparr>short := kvs\<rparr>\<rparr>)"
  shows "short (runner w') = [] \<and>
    get_long_entry (runner w') k =
      (case get_short_entry (runner w) k of
         None \<Rightarrow> get_long_entry (runner w) k
       | Some m \<Rightarrow> (case get_long_entry (runner w) k of
             None \<Rightarrow> Some m | Some old \<Rightarrow> Some (fst (aggregate lib old m))))"
proof -
  have wf: "hm_wf (short (runner w))" using assms(1) by (simp add: runner_wf_def)
  have "hm_wf kvs"
    using assms(2) wf by (metis hm_eq_def hm_keys_def hm_wf_def mset_eq_imp_distinct_iff mset_map)
  moreover have "hm_get kvs = hm_get (short (runner w))"
    using hm_get_eq [OF wf, of kvs] assms(2) by (simp add: hm_eq_def)
  ultimately show ?thesis
    unfolding assms(3) get_long_entry_def get_short_entry_def
    by (simp add: run_effects hm_get_put_metrics join_opt_def split: option.split)
qed

text \<open>
  C22. The streams of different senders do not mix: from a well-formed worker, the metrics
  found in the stream of one sender are those found when the packets of all other senders,
  and every other task but the rotations, are left out.
\<close>

theorem streams_are_isolated:
  assumes "runner_wf (runner w)"
  shows "stream_metrics lib alive addr ts w =
    stream_metrics lib alive addr (filter (stream_of addr) ts) w"
  using assms by (intro stream_metrics_isolated) (simp add: same_stream_def)

theorem streams_are_isolated_witness:
  "stream_metrics sample_lib (\<lambda>ch. True) 7
     [Parse 7 ''fo'', Parse 8 (''x'' @ [CHR 0x0A]), Parse 7 (''o'' @ [CHR 0x0A])] (worker_new system_default)
   = [(''foo'', 1)]"
  using streams_are_isolated [OF runner_wf_new, of sample_lib "\<lambda>ch. True" 7
      "[Parse 7 ''fo'', Parse 8 (''x'' @ [CHR 0x0A]), Parse 7 (''o'' @ [CHR 0x0A])]" system_default]
  by (simp add: stream_of_def run_effects parse_stream_def prev_buffer_def sample_lib_def
      worker_new_def task_runner_new_def)

text \<open>
  C31. The unparsed tail of a sender that stays silent is kept, unchanged, through exactly
  four rotations and dropped at the fifth.
\<close>

theorem silent_sender_dropped_at_fifth_rotation:
  assumes "runner_wf (runner w)" and "\<forall>t \<in> set ts. \<forall>b. t \<noteq> Parse addr b"
  shows "hm_get (buffers (runner (run_tasks lib alive (Parse addr buf # ts) w))) addr =
    (if rotations ts < 5
     then Some (of_nat (rotations ts), fst (snd (parse_stream lib (runner w) addr buf))) else None)"
proof -
  have "hm_get (buffers (runner (run lib alive (Parse addr buf) w))) addr =
      (if (0::nat) < 5 then Some (of_nat 0, fst (snd (parse_stream lib (runner w) addr buf))) else None)"
    by (simp add: run_effects update_conv)
  from silent_stream_kept [OF runner_wf_run [OF assms(1)] assms(2) this]
  show ?thesis by (simp add: run_tasks_def)
qed

theorem silent_sender_dropped_at_fifth_rotation_witness:
  "hm_get (buffers (runner (run_tasks sample_lib (\<lambda>ch. True)
     [Parse 7 ''fo'', Rotate 0, Rotate 1, Rotate 2, Rotate 3] (worker_new system_default)))) 7 = Some (4, ''fo'')
   \<and> hm_get (buffers (runner (run_tasks sample_lib (\<lambda>ch. True)
     [Parse 7 ''fo'', Rotate 0, Rotate 1, Rotate 2, Rotate 3, Rotate 4] (worker_new system_default)))) 7 = None"
  using silent_sender_dropped_at_fifth_rotation [OF runner_wf_new, of
      "[Rotate 0, Rotate 1, Rotate 2, Rotate 3]" 7 sample_lib "\<lambda>ch. True" "''fo''" system_default]
    silent_sender_dropped_at_fifth_rotation [OF runner_wf_new, of
      "[Rotate 0, Rotate 1, Rotate 2, Rotate 3, Rotate 4]" 7 sample_lib "\<lambda>ch. True" "''fo''" system_default]
  by (simp add: rotations_def parse_stream_def prev_buffer_def sample_lib_def worker_new_def task_runner_new_def)

text \<open>
  In every state a worker can reach, no name occurs twice in a cache, no sender has two
  buffers, and no buffer has survived five rotations.
\<close>

theorem reachable_worker_wf: "runner_wf (runner (run_tasks lib alive ts (worker_new config)))"
  by (rule runner_wf_run_tasks [OF runner_wf_new])

end
