(* ===== verification/Aggregate.thy ===== *)
theory Aggregate
  imports Task
begin

text \<open>
  \<^verbatim>\<open>src/aggregate.rs\<close>: the aggregator that runs once per carbon interval. It asks every worker
  to rotate, and, on the leader, joins the caches in the order in which they arrive and turns
  every metric of the result into named values, in one of three modes.
\<close>

section \<open>Operations\<close>

definition accumulate_one ::
    "'m metric_lib \<Rightarrow> bytes \<times> 'm \<Rightarrow> 'm cache \<times> counters \<Rightarrow> 'm cache \<times> counters" where
  "accumulate_one lib = (\<lambda>(name, metric) (acc, c).
    if name \<in> set (hm_keys acc) then
      (let (old, ok) = aggregate lib (the (hm_get acc name)) metric
       in (hm_insert name old acc, if ok then c else add_agg_errors 1 c))
    else (hm_insert name metric acc, c))"

text \<open>
  The answers of the workers in the order they complete; \<open>None\<close> is a worker whose queue or
  whose answer is gone, which ends the fold with an error.
\<close>

fun accumulate ::
    "'m metric_lib \<Rightarrow> 'm cache option list \<Rightarrow> 'm cache \<times> counters \<Rightarrow> 'm cache option \<times> counters" where
  "accumulate lib [] (acc, c) = (Some acc, c)"
| "accumulate lib (None # rest) (acc, c) = (None, c)"
| "accumulate lib (Some m # rest) (acc, c) = accumulate lib rest (fold (accumulate_one lib) m (acc, c))"

text \<open>
  What the aggregator does to its surroundings: the counters, the values sent to the backend
  channel, and the tasks queued to workers (by index).
\<close>

record 'm agg_state =
  agg_stats :: counters
  agg_sent :: "'m message list"
  agg_queued :: "(nat \<times> 'm task) list"

text \<open>
  \<open>accepts i\<close>: the queue of worker \<open>i\<close> takes the task. \<open>pool_ok\<close>: a thread pool of that size
  starts.
\<close>

record 'm agg_env =
  env_alive :: "chan_id \<Rightarrow> bool"
  env_accepts :: "nat \<Rightarrow> bool"
  env_pool_ok :: "usize \<Rightarrow> bool"

definition task_data :: "aggregate_options \<Rightarrow> chan_id \<Rightarrow> bytes \<times> 'm \<Rightarrow> 'm aggregate_data" where
  "task_data options tx = (\<lambda>(name, metric).
    \<lparr>ad_buf = [], ad_name = name, ad_metric = metric, ad_options = options, ad_response = tx\<rparr>)"

definition aggregate_here ::
    "'m metric_lib \<Rightarrow> 'm agg_env \<Rightarrow> aggregate_options \<Rightarrow> chan_id \<Rightarrow> bytes \<times> 'm \<Rightarrow> 'm agg_state \<Rightarrow> 'm agg_state" where
  "aggregate_here lib env options tx entry st =
    (let (c, out) = aggregate_task lib (env_alive env) (task_data options tx entry)
                      (add_egress 1 (agg_stats st), agg_sent st)
     in st\<lparr>agg_stats := c, agg_sent := out\<rparr>)"

definition aggregate_queued ::
    "'m agg_env \<Rightarrow> aggregate_options \<Rightarrow> chan_id \<Rightarrow> nat \<Rightarrow> nat \<times> bytes \<times> 'm \<Rightarrow> 'm agg_state \<Rightarrow> 'm agg_state" where
  "aggregate_queued env options tx n_chans = (\<lambda>(num, entry) st.
    let st1 = st\<lparr>agg_stats := add_egress 1 (agg_stats st)\<rparr>; i = num mod n_chans
    in if env_accepts env i
       then st1\<lparr>agg_queued := agg_queued st1 @ [(i, Aggregate (task_data options tx entry))]\<rparr>
       else st1\<lparr>agg_stats := add_drops 1 (agg_stats st1)\<rparr>)"

text \<open>
  The separate mode runs \<open>aggregate_task\<close> on the threads of the pool. For every value this
  function calls tokio's \<open>current_thread::spawn\<close>, which is documented to panic on a thread
  that runs no executor, and the threads of a pool run none; the pool hands the panic on to its
  caller. So the mode gets through exactly if no metric has a value.
\<close>

definition dispatch ::
    "'m metric_lib \<Rightarrow> 'm agg_env \<Rightarrow> aggregate_options \<Rightarrow> chan_id \<Rightarrow> nat \<Rightarrow> 'm cache \<Rightarrow> 'm agg_state
      \<Rightarrow> panic + 'm agg_state" where
  "dispatch lib env options tx n_chans accumulated st =
    (case agg_mode options of
       Single \<Rightarrow> Inr (fold (aggregate_here lib env options tx) accumulated st)
     | Common \<Rightarrow>
         (if n_chans = 0 \<and> accumulated \<noteq> [] then Inl (Panic ''remainder with a divisor of zero'')
          else Inr (fold (aggregate_queued env options tx n_chans) (enumerate 0 accumulated) st))
     | Separate \<Rightarrow>
         (if \<not> env_pool_ok env (multi_threads options) then Inl (Panic ''thread pool'')
          else if list_ex (\<lambda>e. 0 < length (aggregate_values lib (task_data options tx e))) accumulated
          then Inl (Panic ''spawn outside of an executor'')
          else Inr (fold (aggregate_here lib env options tx) accumulated st)))"

text \<open>
  \<open>Aggregator::into_future\<close>. The requests to the workers are the same in both branches; the
  result is the outcome of the future: \<open>Some ()\<close> for \<open>Ok\<close>, \<open>None\<close> for \<open>Err\<close>.
\<close>

definition rotate_requests :: "chan_id list \<Rightarrow> (nat \<times> 'm task) list" where
  "rotate_requests replies = enumerate 0 (map Rotate replies)"

definition aggregator ::
    "'m metric_lib \<Rightarrow> 'm agg_env \<Rightarrow> aggregate_options \<Rightarrow> chan_id \<Rightarrow> nat \<Rightarrow> 'm cache option list
      \<Rightarrow> 'm agg_state \<Rightarrow> panic + unit option \<times> 'm agg_state" where
  "aggregator lib env options tx n_chans responses st =
    (if \<not> is_leader options then
       Inr (if None \<in> set responses then None else Some (), st)
     else
       (case accumulate lib responses ([], agg_stats st) of
          (None, c) \<Rightarrow> Inr (None, st\<lparr>agg_stats := c\<rparr>)
        | (Some accumulated, c) \<Rightarrow>
            map_sum id (Pair (Some ())) (dispatch lib env options tx n_chans accumulated (st\<lparr>agg_stats := c\<rparr>))))"

section \<open>The store contract\<close>

interpretation acc: entry_store "accumulate_one lib" "\<lambda>s. hm_get (fst s)" "joined lib" for lib
  by unfold_locales
    (auto simp: accumulate_one_def join_opt_def update_conv set_hm_keys split: prod.splits option.splits)

lemma fst_accumulate_one: "fst (accumulate_one lib kv s) = put_metric lib kv (fst s)"
  by (cases kv; cases s)
    (auto simp: accumulate_one_def put_metric_def set_hm_keys split: prod.splits option.splits)

lemma fst_accumulate_fold: "fst (fold (accumulate_one lib) kvs s) = fold (put_metric lib) kvs (fst s)"
  by (induction kvs arbitrary: s) (simp_all add: fst_accumulate_one)

text \<open>The caches that arrived, one after the other.\<close>

definition arrived :: "'m cache option list \<Rightarrow> (bytes \<times> 'm) list" where
  "arrived rs = concat (map (\<lambda>r. case r of None \<Rightarrow> [] | Some m \<Rightarrow> m) rs)"

lemma arrived_simps [simp]:
  "arrived [] = []"
  "arrived (None # rs) = arrived rs"
  "arrived (Some m # rs) = m @ arrived rs"
  by (simp_all add: arrived_def)

lemma fst_accumulate:
  "fst (accumulate lib rs s) =
    (if None \<in> set rs then None else Some (fold (put_metric lib) (arrived rs) (fst s)))"
proof (induction lib rs s rule: accumulate.induct)
  case (3 lib m rest acc c)
  then show ?case
    using fst_accumulate_fold [of lib m "(acc, c)"] by (cases "fold (accumulate_one lib) m (acc, c)") simp
qed simp_all

lemma dom_put_metrics: "dom (hm_get (fold (put_metric lib) kvs m)) = dom (hm_get m) \<union> fst ` set kvs"
  using acc.dom_get_fold [of lib kvs "(m, counters_init)"] by (simp add: fst_accumulate_fold)

section \<open>Dispatching\<close>

lemma aggregate_here_sent:
  "agg_sent (aggregate_here lib env options tx e st) =
    agg_sent st @ (if env_alive env tx
      then map (\<lambda>(name, value). Aggregated tx name value) (aggregate_values lib (task_data options tx e)) else [])"
  using aggregate_task_outbox [of lib "env_alive env" "task_data options tx e"]
  by (simp add: aggregate_here_def Let_def case_prod_unfold) (simp add: task_data_def case_prod_unfold)

definition entry_messages ::
    "'m metric_lib \<Rightarrow> (chan_id \<Rightarrow> bool) \<Rightarrow> aggregate_options \<Rightarrow> chan_id \<Rightarrow> bytes \<times> 'm \<Rightarrow> 'm message list" where
  "entry_messages lib alive options tx e =
    (if alive tx then map (\<lambda>(name, value). Aggregated tx name value)
       (aggregate_values lib (task_data options tx e)) else [])"

lemma fold_aggregate_here_sent:
  "agg_sent (fold (aggregate_here lib env options tx) es st) =
    agg_sent st @ concat (map (entry_messages lib (env_alive env) options tx) es)"
  by (induction es arbitrary: st) (simp_all add: aggregate_here_sent entry_messages_def)

lemma fold_aggregate_queued:
  assumes "\<And>i. i < n_chans \<Longrightarrow> env_accepts env i" and "0 < n_chans"
  shows "agg_queued (fold (aggregate_queued env options tx n_chans) (enumerate k es) st) =
    agg_queued st @ map (\<lambda>(num, e). (num mod n_chans, Aggregate (task_data options tx e))) (enumerate k es)"
  using assms by (induction es arbitrary: k st) (simp_all add: aggregate_queued_def Let_def)

text \<open>Delivering queued tasks to an array of workers.\<close>

definition deliver ::
    "'m metric_lib \<Rightarrow> (chan_id \<Rightarrow> bool) \<Rightarrow> (nat \<times> 'm task) list \<Rightarrow> 'm worker list \<Rightarrow> 'm worker list" where
  "deliver lib alive queued ws = fold (\<lambda>(i, t) ws. ws[i := run lib alive t (ws ! i)]) queued ws"

definition all_sent :: "'m worker list \<Rightarrow> 'm message multiset" where
  "all_sent ws = (\<Sum>w\<leftarrow>ws. mset (outbox w))"

lemma all_sent_update:
  "i < length ws \<Longrightarrow> outbox w = outbox (ws ! i) @ out \<Longrightarrow> all_sent (ws[i := w]) = all_sent ws + mset out"
proof (induction ws arbitrary: i)
  case Nil
  then show ?case by simp
next
  case (Cons v ws)
  then show ?case by (cases i) (simp_all add: all_sent_def ac_simps)
qed

lemma outbox_run_entry:
  "outbox (run lib alive (Aggregate (task_data options tx e)) w) =
    outbox w @ entry_messages lib alive options tx e"
  by (simp add: outbox_run_aggregate entry_messages_def) (simp add: task_data_def case_prod_unfold)

lemma all_sent_deliver_entries:
  assumes "0 < length ws"
  shows "all_sent (deliver lib alive
      (map (\<lambda>(num, e). (num mod length ws, Aggregate (task_data options tx e))) (enumerate k es)) ws) =
    all_sent ws + mset (concat (map (entry_messages lib alive options tx) es))"
  using assms
proof (induction es arbitrary: k ws)
  case Nil
  show ?case by (simp add: deliver_def)
next
  case (Cons e es)
  let ?ws = "ws[k mod length ws := run lib alive (Aggregate (task_data options tx e)) (ws ! (k mod length ws))]"
  have "all_sent ?ws = all_sent ws + mset (entry_messages lib alive options tx e)"
    using Cons.prems by (intro all_sent_update outbox_run_entry) simp
  with Cons.IH [of ?ws "Suc k"] Cons.prems show ?case
    by (simp add: deliver_def ac_simps)
qed

section \<open>Properties\<close>

text \<open>
  C19. The single and the common aggregation mode send the same values: when every queue
  accepts, the values that the single mode sends are, up to order, those that the workers send
  once the tasks that the common mode queued have run on them. The separate mode sends nothing:
  it panics exactly if its pool does not start or there is a value to send.
\<close>

theorem aggregation_modes_agree:
  assumes "is_leader options" and "0 < length ws" and "env_alive env tx" and "\<And>i. i < length ws \<Longrightarrow> env_accepts env i"
    and "agg_queued st = []" and "agg_sent st = []"
  shows "\<exists>s1 s2. dispatch lib env (options\<lparr>agg_mode := Single\<rparr>) tx (length ws) m st = Inr s1 \<and>
    dispatch lib env (options\<lparr>agg_mode := Common\<rparr>) tx (length ws) m st = Inr s2 \<and>
    all_sent (deliver lib (env_alive env) (agg_queued s2) ws) = all_sent ws + mset (agg_sent s1) \<and>
    ((\<exists>p. dispatch lib env (options\<lparr>agg_mode := Separate\<rparr>) tx (length ws) m st = Inl p) \<longleftrightarrow>
      \<not> env_pool_ok env (multi_threads options) \<or> agg_sent s1 \<noteq> [])"
proof -
  let ?msgs = "\<lambda>mode. entry_messages lib (env_alive env) (options\<lparr>agg_mode := mode\<rparr>) tx"
  have mode: "?msgs mode = ?msgs Single" for mode
    by (rule ext) (simp add: entry_messages_def aggregate_values_def update_counter_value_def
        task_data_def case_prod_unfold split: option.split)
  let ?s1 = "fold (aggregate_here lib env (options\<lparr>agg_mode := Single\<rparr>) tx) m st"
  let ?s2 = "fold (aggregate_queued env (options\<lparr>agg_mode := Common\<rparr>) tx (length ws)) (enumerate 0 m) st"
  have s1: "agg_sent ?s1 = concat (map (?msgs Single) m)" using assms(6) by (simp add: fold_aggregate_here_sent)
  have s2: "agg_queued ?s2 =
      map (\<lambda>(num, e). (num mod length ws, Aggregate (task_data (options\<lparr>agg_mode := Common\<rparr>) tx e)))
        (enumerate 0 m)"
    using assms(2,4,5) by (simp add: fold_aggregate_queued)
  have "all_sent (deliver lib (env_alive env) (agg_queued ?s2) ws) = all_sent ws + mset (agg_sent ?s1)"
    using all_sent_deliver_entries [OF assms(2), of lib "env_alive env" "options\<lparr>agg_mode := Common\<rparr>" tx 0 m]
    by (simp add: s1 s2 mode [of Common])
  moreover have "agg_sent ?s1 \<noteq> [] \<longleftrightarrow>
      list_ex (\<lambda>e. 0 < length (aggregate_values lib (task_data (options\<lparr>agg_mode := Separate\<rparr>) tx e))) m"
    using assms(3) by (auto simp: s1 mode [of Separate, symmetric] entry_messages_def list_ex_iff)
  then have "(\<exists>p. dispatch lib env (options\<lparr>agg_mode := Separate\<rparr>) tx (length ws) m st = Inl p) \<longleftrightarrow>
      \<not> env_pool_ok env (multi_threads options) \<or> agg_sent ?s1 \<noteq> []"
    by (auto simp: dispatch_def)
  moreover have "dispatch lib env (options\<lparr>agg_mode := Single\<rparr>) tx (length ws) m st = Inr ?s1"
    "dispatch lib env (options\<lparr>agg_mode := Common\<rparr>) tx (length ws) m st = Inr ?s2"
    using assms(2) by (auto simp: dispatch_def)
  ultimately show ?thesis by blast
qed

definition sample_options :: aggregate_options where
  "sample_options = \<lparr>is_leader = True,
     update_counter_opts = Some \<lparr>threshold = 2, prefix = ''upd'', suffix = []\<rparr>,
     agg_mode = Single, multi_threads = 0\<rparr>"

definition sample_env :: "nat agg_env" where
  "sample_env = \<lparr>env_alive = (\<lambda>ch. True), env_accepts = (\<lambda>i. True),
     env_pool_ok = (\<lambda>n. True)\<rparr>"

definition sample_agg_state :: "nat agg_state" where
  "sample_agg_state = \<lparr>agg_stats = counters_init, agg_sent = [], agg_queued = []\<rparr>"

theorem aggregation_modes_agree_witness:
  "\<exists>s1 s2 p.
    dispatch sample_lib sample_env (sample_options\<lparr>agg_mode := Single\<rparr>) 9 2 [(''a'', 2), (''b'', 3)] sample_agg_state = Inr s1
    \<and> dispatch sample_lib sample_env (sample_options\<lparr>agg_mode := Common\<rparr>) 9 2 [(''a'', 2), (''b'', 3)] sample_agg_state = Inr s2
    \<and> agg_sent s1 \<noteq> []
    \<and> all_sent (deliver sample_lib (\<lambda>ch. True) (agg_queued s2)
         [worker_new system_default, worker_new system_default]) = mset (agg_sent s1)
    \<and> dispatch sample_lib sample_env (sample_options\<lparr>agg_mode := Separate\<rparr>) 9 2 [(''a'', 2), (''b'', 3)] sample_agg_state = Inl p"
proof -
  let ?ws = "[worker_new system_default, worker_new system_default] :: nat worker list"
  have "all_sent ?ws = {#}" by (simp add: all_sent_def worker_new_def)
  moreover have "map_sum id (\<lambda>st. 0 < length (agg_sent st)) (dispatch sample_lib sample_env (sample_options\<lparr>agg_mode := Single\<rparr>) 9 2
      [(''a'', 2), (''b'', 3)] sample_agg_state) = Inr True"
    by code_simp
  ultimately show ?thesis
    using aggregation_modes_agree [of sample_options ?ws sample_env 9 sample_agg_state sample_lib "[(''a'', 2), (''b'', 3)]"]
    by (auto simp: sample_options_def sample_env_def sample_agg_state_def numeral_2_eq_2)
qed

text \<open>
  The leader accumulates everything that arrived, under each name once: accumulation
  succeeds exactly when every worker answered, the result has no name twice, and its names
  are those of all the answers.
\<close>

theorem accumulate_complete:
  "(fst (accumulate lib rs ([], c)) = None \<longleftrightarrow> None \<in> set rs) \<and>
   (\<forall>acc. fst (accumulate lib rs ([], c)) = Some acc \<longrightarrow>
      distinct (map fst acc) \<and> set (map fst acc) = fst ` set (arrived rs))"
proof -
  have "distinct (map fst (fold (put_metric lib) (arrived rs) []))"
    using hm_wf_put_metrics [of "[]" lib "arrived rs"] by (simp add: hm_wf_def hm_keys_def)
  moreover have "set (map fst (fold (put_metric lib) (arrived rs) [])) = fst ` set (arrived rs)"
    using dom_put_metrics [of lib "arrived rs" "[]"] by (simp add: dom_map_of_conv_image_fst)
  ultimately show ?thesis by (auto simp: fst_accumulate)
qed

lemma sample_accumulate:
  "fst (accumulate sample_lib [Some [(''a'', 1)], Some [(''a'', 2), (''b'', 3)]] ([], counters_init))
     = Some [(''a'', 3), (''b'', 3)]"
  by (simp add: accumulate_one_def hm_keys_def)

lemma count_residues:
  fixes n :: nat
  assumes "i < n"
  shows "length (filter (\<lambda>x. x mod n = i) [0..<k]) = k div n + (if i < k mod n then 1 else 0)"
proof (induction k)
  case 0
  show ?case by simp
next
  case (Suc k)
  have "Suc k div n + (if i < Suc k mod n then 1 else 0)
      = k div n + (if i < k mod n then 1 else 0) + (if k mod n = i then 1 else 0)"
    using assms by (auto simp: mod_Suc div_Suc)
  with Suc show ?case by simp
qed

text \<open>
  The common mode spreads the work evenly: of \<open>k\<close> metrics, every one of the \<open>n\<close>
  workers is queued \<open>k div n\<close> or one more.
\<close>

lemma common_mode_balanced:
  assumes "i < n" and "\<And>j. j < n \<Longrightarrow> env_accepts env j" and "agg_queued st = []"
    and "dispatch lib env (options\<lparr>agg_mode := Common\<rparr>) tx n m st = Inr st'"
  shows "length (filter (\<lambda>(j, t). j = i) (agg_queued st')) \<in> {length m div n, length m div n + 1}"
proof -
  have "agg_queued st' = map (\<lambda>(num, e). (num mod n,
      Aggregate (task_data (options\<lparr>agg_mode := Common\<rparr>) tx e))) (enumerate 0 m)"
    using assms by (auto simp: dispatch_def fold_aggregate_queued split: if_splits)
  then have "map fst (agg_queued st') = map (\<lambda>num. num mod n) (map fst (enumerate 0 m))"
    by (simp add: comp_def case_prod_unfold del: map_fst_enumerate)
  then have "map fst (agg_queued st') = map (\<lambda>num. num mod n) [0..<length m]"
    by simp
  then have "length (filter (\<lambda>j. j = i) (map fst (agg_queued st'))) =
      length (filter (\<lambda>x. x mod n = i) [0..<length m])"
    by (simp add: filter_map comp_def)
  then show ?thesis
    using count_residues [OF assms(1), of "length m"]
    by (simp add: filter_map comp_def case_prod_unfold split: if_splits)
qed

end
