(* ===== verification/Carbon.thy ===== *)
theory Carbon
  imports Config Decimal
begin

text \<open>
  \<^verbatim>\<open>src/carbon.rs\<close>: the client that sends aggregated values to a carbon server as lines of text,
  and the part of \<^verbatim>\<open>src/main.rs\<close> that splits the values of an interval over connections. The
  float formatter \<open>ftoa\<close> and the TCP connection are parameters.
\<close>

section \<open>Operations\<close>

record carbon_client_options =
  client_addr :: socket_addr
  client_bind_addr :: "socket_addr option"

type_synonym carbon_line = "bytes \<times> bytes \<times> bytes"

record carbon_backend =
  backend_options :: carbon_client_options
  backend_metrics :: "carbon_line list"

text \<open>
  \<open>ftoa v\<close>: the bytes the formatter appends to the buffer, and whether it succeeded. After a
  failure the buffer keeps what was appended.
\<close>

definition carbon_format ::
    "(f64 \<Rightarrow> bytes \<times> bool) \<Rightarrow> bytes \<Rightarrow> bytes \<times> f64 \<Rightarrow> carbon_line list \<times> bytes \<times> counters
      \<Rightarrow> carbon_line list \<times> bytes \<times> counters" where
  "carbon_format ftoa ts = (\<lambda>(name, metric) (acc, buf, c).
    let (written, ok) = ftoa metric; buf' = buf @ written
    in if ok then (acc @ [(name, buf', ts)], [], c) else (acc, buf', add_agg_errors 1 c))"

definition carbon_backend_new ::
    "(f64 \<Rightarrow> bytes \<times> bool) \<Rightarrow> carbon_client_options \<Rightarrow> u64 \<Rightarrow> (bytes \<times> f64) list \<Rightarrow> counters
      \<Rightarrow> carbon_backend \<times> counters" where
  "carbon_backend_new ftoa opts secs vals c =
    (let ts = show_nat (unat secs);
         (acc, buf, c') = fold (carbon_format ftoa ts) vals ([], [], c)
     in (\<lparr>backend_options = opts, backend_metrics = acc\<rparr>, c'))"

definition carbon_encode :: "carbon_line \<Rightarrow> bytes \<Rightarrow> bytes" where
  "carbon_encode m buf = (case m of (name, v, ts) \<Rightarrow> buf @ name @ '' '' @ v @ '' '' @ ts @ [CHR 0x0A])"

record 'a shared_iter =
  iter_inner :: "'a list"
  current :: nat

definition shared_iter_new :: "'a list \<Rightarrow> 'a shared_iter" where
  "shared_iter_new xs = \<lparr>iter_inner = xs, current = 0\<rparr>"

definition shared_iter_next :: "'a shared_iter \<Rightarrow> 'a option \<times> 'a shared_iter" where
  "shared_iter_next it =
    (if current it < length (iter_inner it) then Some (iter_inner it ! current it) else None,
     it\<lparr>current := current it + 1\<rparr>)"

text \<open>The stream \<open>iter_ok(SharedIter)\<close>: the items up to the first \<open>None\<close>.\<close>

function iter_items :: "'a shared_iter \<Rightarrow> 'a list" where
  "iter_items it = (case shared_iter_next it of (None, it') \<Rightarrow> [] | (Some x, it') \<Rightarrow> x # iter_items it')"
  by pat_completeness auto
termination
  by (relation "measure (\<lambda>it. length (iter_inner it) - current it)")
    (auto simp: shared_iter_next_def split: if_splits)

declare iter_items.simps [simp del]

text \<open>
  \<open>CarbonBackend::into_future\<close>, one attempt: \<open>connect\<close> binds if asked to and connects; a
  connection is the number of bytes it takes before it breaks (\<open>None\<close>: it does not). The
  result is the bytes that reached the server and the outcome.
\<close>

definition carbon_send ::
    "(socket_addr option \<Rightarrow> socket_addr \<Rightarrow> string + nat option) \<Rightarrow> carbon_backend
      \<Rightarrow> bytes \<times> (general_error + unit)" where
  "carbon_send connect backend =
    (let opts = backend_options backend in
     case connect (client_bind_addr opts) (client_addr opts) of
       Inl e \<Rightarrow> ([], Inl (general_error.Io e))
     | Inr limit \<Rightarrow>
         (let wire = fold carbon_encode (iter_items (shared_iter_new (backend_metrics backend))) [] in
          case limit of
            None \<Rightarrow> (wire, Inr ())
          | Some k \<Rightarrow> if length wire \<le> k then (wire, Inr ()) else (take k wire, Inl CarbonBackend)))"

text \<open>\<open>slice::chunks\<close>: panics on size 0.\<close>

function chunk_list :: "nat \<Rightarrow> 'a list \<Rightarrow> 'a list list" where
  "chunk_list n xs = (if n = 0 \<or> xs = [] then [] else take n xs # chunk_list n (drop n xs))"
  by pat_completeness auto
termination
  by (relation "measure (length \<circ> snd)") auto

declare chunk_list.simps [simp del]

definition slice_chunks :: "nat \<Rightarrow> 'a list \<Rightarrow> panic + 'a list list" where
  "slice_chunks n xs = (if n = 0 then Inl (Panic ''chunk size must be non-zero'') else Inr (chunk_list n xs))"

text \<open>The chunk count of \<open>main\<close>: 0 is corrected to 1.\<close>

definition effective_chunks :: "carbon_config \<Rightarrow> nat" where
  "effective_chunks cfg = (if carbon_chunks cfg = 0 then 1 else unat (carbon_chunks cfg))"

definition carbon_split :: "carbon_config \<Rightarrow> 'a list \<Rightarrow> panic + 'a list list" where
  "carbon_split cfg vals =
    (let chunk_size = length vals div effective_chunks cfg in slice_chunks chunk_size vals)"

section \<open>Chunks\<close>

lemma concat_chunk_list: "0 < n \<Longrightarrow> concat (chunk_list n xs) = xs"
proof (induction n xs rule: chunk_list.induct)
  case (1 n xs)
  then show ?case by (simp add: chunk_list.simps [of n xs])
qed

lemma chunk_list_sizes: "ys \<in> set (chunk_list n xs) \<Longrightarrow> 0 < length ys \<and> length ys \<le> n"
proof (induction n xs rule: chunk_list.induct)
  case (1 n xs)
  then show ?case by (auto simp: chunk_list.simps [of n xs] split: if_splits)
qed

text \<open>The number of chunks is the length divided by the size, rounded up.\<close>

lemma length_chunk_list:
  assumes "0 < n"
  shows "length (chunk_list n xs) = (length xs + n - 1) div n"
  using assms
proof (induction n xs rule: chunk_list.induct)
  case (1 n xs)
  show ?case
  proof (cases "xs = []")
    case True
    then show ?thesis using "1.prems" by (simp add: chunk_list.simps)
  next
    case False
    with "1.IH" "1.prems" have IH: "length (chunk_list n (drop n xs)) = (length xs - n + n - 1) div n"
      by simp
    have "Suc ((length xs - n + n - 1) div n) = (length xs + n - 1) div n"
    proof (cases "n \<le> length xs")
      case True
      then have "length xs + n - 1 = (length xs - n + n - 1) + n" using "1.prems" by linarith
      then show ?thesis using "1.prems" by (simp only: div_add_self2)
    next
      case short: False
      have "1 \<le> length xs" using False by (cases xs) simp_all
      with short have "n * 1 \<le> length xs + n - 1" and "length xs + n - 1 < n * Suc 1" by simp_all
      then have "(length xs + n - 1) div n = 1" by (rule div_nat_eqI)
      moreover have "(length xs - n + n - 1) div n = 0" using short "1.prems" by simp
      ultimately show ?thesis by simp
    qed
    with IH False "1.prems" show ?thesis by (simp add: chunk_list.simps [of n xs])
  qed
qed

lemma effective_chunks_pos [simp]: "0 < effective_chunks cfg"
  by (simp add: effective_chunks_def unat_gt_0)

lemma chunk_count_bounds:
  fixes n c :: nat
  assumes "0 < c" and "c \<le> n"
  shows "c \<le> (n + n div c - 1) div (n div c) \<and> (n + n div c - 1) div (n div c) < 2 * c"
proof -
  let ?s = "n div c"
  have s: "0 < ?s" using assms by (simp add: div_greater_zero_iff)
  have lo: "?s * c \<le> n" by simp
  have hi: "n < (?s + 1) * c" using assms(1) dividend_less_times_div [of c n] by (simp add: algebra_simps)
  have "?s * c \<le> n + ?s - 1" using lo s by linarith
  then have "c * ?s \<le> n + ?s - 1" by (simp only: mult.commute)
  then have "c \<le> (n + ?s - 1) div ?s" using s by (simp add: less_eq_div_iff_mult_less_eq)
  moreover have "n + ?s - 1 < 2 * c * ?s"
  proof -
    have "n + ?s \<le> ?s * c + c - 1 + ?s" using hi assms(1) by (simp add: algebra_simps)
    moreover have "c + ?s \<le> ?s * c + 1"
    proof -
      have "a + b \<le> b * a + 1" if "0 < a" "0 < b" for a b :: nat
        using that by (cases a; cases b) auto
      then show ?thesis using assms(1) s by blast
    qed
    ultimately show ?thesis using s assms(1) by (simp add: algebra_simps)
  qed
  then have "(n + ?s - 1) div ?s < 2 * c" using s by (simp add: div_less_iff_less_mult)
  ultimately show ?thesis by simp
qed

section \<open>The iterator\<close>

lemma iter_items_drop: "iter_items it = drop (current it) (iter_inner it)"
proof (induction it rule: iter_items.induct)
  case (1 it)
  show ?case
  proof (cases "current it < length (iter_inner it)")
    case True
    then have "iter_items it = (iter_inner it ! current it) # iter_items (it\<lparr>current := current it + 1\<rparr>)"
      by (subst iter_items.simps) (simp add: shared_iter_next_def)
    with 1 True show ?thesis by (simp add: shared_iter_next_def Cons_nth_drop_Suc)
  next
    case False
    then show ?thesis by (subst iter_items.simps) (simp add: shared_iter_next_def)
  qed
qed

lemma iter_items_new [simp]: "iter_items (shared_iter_new xs) = xs"
  by (simp add: iter_items_drop shared_iter_new_def)

section \<open>The wire format\<close>

text \<open>
  What a carbon server reads: lines ended by a newline, each with three fields separated by
  one blank. \<open>split_at c\<close> cuts at the first occurrence of \<open>c\<close>.
\<close>

fun split_at :: "char \<Rightarrow> bytes \<Rightarrow> (bytes \<times> bytes) option" where
  "split_at c [] = None"
| "split_at c (b # bs) =
    (if b = c then Some ([], bs) else map_option (\<lambda>(x, y). (b # x, y)) (split_at c bs))"

lemma split_at_shorter: "split_at c bs = Some (x, y) \<Longrightarrow> length y < length bs"
  by (induction bs arbitrary: x) (auto split: if_splits)

lemma split_at_append [simp]: "c \<notin> set x \<Longrightarrow> split_at c (x @ c # y) = Some (x, y)"
  by (induction x) auto

definition carbon_decode_line :: "bytes \<Rightarrow> carbon_line option" where
  "carbon_decode_line l =
    Option.bind (split_at (CHR '' '') l) (\<lambda>(name, r).
      map_option (\<lambda>(v, ts). (name, v, ts)) (split_at (CHR '' '') r))"

function carbon_decode :: "bytes \<Rightarrow> carbon_line option list" where
  "carbon_decode bs =
    (case split_at (CHR 0x0A) bs of None \<Rightarrow> [] | Some (l, rest) \<Rightarrow> carbon_decode_line l # carbon_decode rest)"
  by pat_completeness auto
termination
  by (relation "measure length") (auto dest: split_at_shorter)

declare carbon_decode.simps [simp del]

definition plain :: "bytes \<Rightarrow> bool" where
  "plain s \<longleftrightarrow> CHR '' '' \<notin> set s \<and> CHR 0x0A \<notin> set s"

lemma carbon_encode_append: "carbon_encode m buf = buf @ carbon_encode m []"
  by (simp add: carbon_encode_def split: prod.split)

lemma fold_carbon_encode: "fold carbon_encode ms buf = buf @ concat (map (\<lambda>m. carbon_encode m []) ms)"
proof (induction ms arbitrary: buf)
  case Nil
  show ?case by simp
next
  case (Cons m ms)
  then show ?case by (simp add: carbon_encode_append [of m buf])
qed

lemma carbon_decode_line_encode:
  assumes "plain name" and "plain v" and "plain ts"
  shows "carbon_decode (carbon_encode (name, v, ts) [] @ rest) = Some (name, v, ts) # carbon_decode rest"
proof -
  let ?l = "name @ '' '' @ v @ '' '' @ ts"
  have "split_at (CHR 0x0A) (?l @ [CHR 0x0A] @ rest) = Some (?l, rest)"
    using assms by (simp only: append_Cons append_Nil) (rule split_at_append, auto simp: plain_def)
  moreover have "carbon_decode_line ?l = Some (name, v, ts)"
    using assms by (simp add: carbon_decode_line_def plain_def)
  ultimately show ?thesis
    by (subst carbon_decode.simps) (simp add: carbon_encode_def)
qed

lemma carbon_decode_encoded:
  "\<forall>(name, v, ts) \<in> set ms. plain name \<and> plain v \<and> plain ts \<Longrightarrow>
    carbon_decode (concat (map (\<lambda>m. carbon_encode m []) ms)) = map Some ms"
proof (induction ms)
  case Nil
  show ?case by (simp add: carbon_decode.simps)
next
  case (Cons m ms)
  then show ?case by (cases m) (simp add: carbon_decode_line_encode)
qed

lemma digit_char_plain: "d < 10 \<Longrightarrow> digit_char d \<noteq> CHR '' '' \<and> digit_char d \<noteq> CHR 0x0A"
proof -
  assume "d < 10"
  then have "of_char (digit_char d) = (48 + d :: nat)" by (simp add: digit_char_def)
  then show ?thesis using \<open>d < 10\<close> by auto
qed

lemma plain_show_nat: "plain (show_nat n)"
proof (induction n rule: show_nat.induct)
  case (1 n)
  then show ?case
    using digit_char_plain [of n] digit_char_plain [of "n mod 10"]
    by (auto simp: plain_def show_nat.simps [of n] split: if_splits)
qed

section \<open>Formatting\<close>

lemma fold_carbon_format:
  assumes "\<forall>(name, x) \<in> set vals. snd (ftoa x)"
  shows "fold (carbon_format ftoa ts) vals (acc, [], c) =
    (acc @ map (\<lambda>(name, x). (name, fst (ftoa x), ts)) vals, [], c)"
  using assms
proof (induction vals arbitrary: acc)
  case Nil
  show ?case by simp
next
  case (Cons v vs)
  then show ?case by (cases v) (auto simp: carbon_format_def case_prod_unfold)
qed

lemma carbon_format_counts:
  fixes acc :: "carbon_line list"
  assumes "fold (carbon_format ftoa ts) vals (acc, buf, c) = (acc', buf', c')"
  shows "length acc' + length (filter (\<lambda>(name, x). \<not> snd (ftoa x)) vals) = length acc + length vals \<and>
    AGG_ERRORS c' = AGG_ERRORS c + of_nat (length (filter (\<lambda>(name, x). \<not> snd (ftoa x)) vals))"
  using assms
proof (induction vals arbitrary: acc buf c)
  case Nil
  then show ?case by simp
next
  case (Cons v vs)
  then show ?case
    by (cases v; cases "ftoa (snd v)") (force simp: carbon_format_def split: if_splits)
qed

section \<open>Properties\<close>

text \<open>
  C24. Splitting the values of an interval over connections loses, duplicates and reorders
  nothing, and makes at least the configured number of connections but fewer than twice as
  many. It panics exactly when there are fewer values than configured connections: with the
  default of one connection, when there is nothing to send.
\<close>

theorem carbon_split_spec:
  "case carbon_split cfg vals of
     Inl e \<Rightarrow> length vals < effective_chunks cfg
   | Inr parts \<Rightarrow> concat parts = vals \<and> [] \<notin> set parts \<and>
       effective_chunks cfg \<le> length parts \<and> length parts < 2 * effective_chunks cfg"
proof (cases "length vals < effective_chunks cfg")
  case True
  then show ?thesis by (simp add: carbon_split_def slice_chunks_def)
next
  case False
  let ?size = "length vals div effective_chunks cfg"
  have size: "0 < ?size" using False by (simp add: div_greater_zero_iff)
  then have split: "carbon_split cfg vals = Inr (chunk_list ?size vals)"
    by (simp add: carbon_split_def slice_chunks_def)
  have "[] \<notin> set (chunk_list ?size vals)"
    using chunk_list_sizes [of "[]" ?size vals] by auto
  with chunk_count_bounds [of "effective_chunks cfg" "length vals"] False show ?thesis
    unfolding split by (simp add: concat_chunk_list [OF size] length_chunk_list [OF size])
qed

text \<open>
  C23. What the carbon client writes is read back by the server as the values it was given:
  when every name and every formatted value is free of blanks and newlines and the
  connection holds, the lines on the wire are the names, the formatted values and the
  timestamp of the interval, in order, and the outcome is success.
\<close>

theorem carbon_roundtrip:
  assumes "\<forall>(name, x) \<in> set vals. snd (ftoa x) \<and> plain name \<and> plain (fst (ftoa x))"
    and "connect (client_bind_addr opts) (client_addr opts) = Inr None"
  shows "\<exists>wire. carbon_send connect (fst (carbon_backend_new ftoa opts secs vals c)) = (wire, Inr ()) \<and>
    carbon_decode wire = map (\<lambda>(name, x). Some (name, fst (ftoa x), show_nat (unat secs))) vals"
proof -
  let ?ms = "map (\<lambda>(name, x). (name, fst (ftoa x), show_nat (unat secs))) vals"
  have "backend_metrics (fst (carbon_backend_new ftoa opts secs vals c)) = ?ms"
    using assms(1) fold_carbon_format [of vals ftoa "show_nat (unat secs)" "[]" c]
    by (auto simp: carbon_backend_new_def Let_def split: prod.splits)
  moreover have "backend_options (fst (carbon_backend_new ftoa opts secs vals c)) = opts"
    by (simp add: carbon_backend_new_def Let_def split: prod.splits)
  ultimately have send: "carbon_send connect (fst (carbon_backend_new ftoa opts secs vals c)) =
      (concat (map (\<lambda>m. carbon_encode m []) ?ms), Inr ())"
    using assms(2) by (simp add: carbon_send_def fold_carbon_encode)
  have "carbon_decode (concat (map (\<lambda>m. carbon_encode m []) ?ms)) = map Some ?ms"
    using assms(1) plain_show_nat by (intro carbon_decode_encoded) auto
  with send show ?thesis by (simp add: comp_def case_prod_unfold)
qed

definition sample_ftoa :: "f64 \<Rightarrow> bytes \<times> bool" where
  "sample_ftoa x = (case x of Fin q \<Rightarrow> (show_nat (nat \<lfloor>q\<rfloor>), True) | _ \<Rightarrow> (''na'', False))"

theorem carbon_roundtrip_witness:
  "\<exists>wire. carbon_send (\<lambda>bind addr. Inr None)
      (fst (carbon_backend_new sample_ftoa \<lparr>client_addr = localhost 2003, client_bind_addr = None\<rparr> 17
        [(''a.b'', Fin 5), (''c'', Fin 42)] counters_init)) = (wire, Inr ()) \<and>
    carbon_decode wire = [Some (''a.b'', ''5'', ''17''), Some (''c'', ''42'', ''17'')]"
proof -
  have digits: "show_nat 5 = ''5''" "show_nat 42 = ''42''" "show_nat 17 = ''17''"
    by code_simp+
  from carbon_roundtrip [of "[(''a.b'', Fin 5), (''c'', Fin 42)]" sample_ftoa "\<lambda>bind addr. Inr None"
      "\<lparr>client_addr = localhost 2003, client_bind_addr = None\<rparr>" 17 counters_init]
  show ?thesis
    by (simp add: sample_ftoa_def digits plain_def)
qed

text \<open>
  Every value handed to the carbon client is either a line to send or counted as an
  aggregation error.
\<close>

theorem carbon_backend_accounts:
  "length (backend_metrics (fst (carbon_backend_new ftoa opts secs vals c)))
     + length (filter (\<lambda>(name, x). \<not> snd (ftoa x)) vals) = length vals \<and>
   AGG_ERRORS (snd (carbon_backend_new ftoa opts secs vals c))
     = AGG_ERRORS c + of_nat (length (filter (\<lambda>(name, x). \<not> snd (ftoa x)) vals))"
  using carbon_format_counts [of ftoa "show_nat (unat secs)" vals "[]" "[]" c]
  by (simp add: carbon_backend_new_def Let_def split: prod.split)

end
