(* ===== verification/Backoff.thy ===== *)
theory Backoff
  imports Globals
begin

text \<open>
  \<open>BackoffRetry\<close> of \<^verbatim>\<open>src/util.rs\<close>: a future that runs an action again after a delay when it
  fails, up to a number of retries. The carbon client, the snapshot client and the peer
  server all run under it. The model keeps two histories the code does not have: how often
  the action has been started and the delays that were waited.
\<close>

section \<open>Operations\<close>

record backoff_options =
  delay :: u64
  delay_mul :: f32
  delay_max :: u64
  retries :: usize

definition backoff_default :: backoff_options where
  "backoff_default = \<lparr>delay = 250, delay_mul = Fin 2, delay_max = 5000, retries = 25\<rparr>"

text \<open>\<open>Either<F::Future, Delay>\<close>: the action is running, or a delay (in ms) is.\<close>

datatype inner = Action | Delay u64

record backoff =
  inner :: inner
  options :: backoff_options
  attempts :: nat
  waits :: "u64 list"

definition backoff_spawn :: "backoff_options \<Rightarrow> backoff" where
  "backoff_spawn opts = \<lparr>inner = Action, options = opts, attempts = 1, waits = []\<rparr>"

definition retry_delay :: "backoff_options \<Rightarrow> u64" where
  "retry_delay opts =
    (let d = f32_mul (f32_of_u64 (delay opts)) (delay_mul opts)
     in if ieee_le d (f32_of_u64 (delay_max opts)) then u64_of_f32 d else delay_max opts)"

definition rotate_f :: "backoff \<Rightarrow> backoff" where
  "rotate_f b =
    (let b1 = b\<lparr>options := (options b)\<lparr>retries := retries (options b) - 1\<rparr>\<rparr>;
         d = retry_delay (options b1)
     in b1\<lparr>inner := Delay d, waits := waits b1 @ [d]\<rparr>)"

definition rotate_t :: "backoff \<Rightarrow> backoff" where
  "rotate_t b = b\<lparr>inner := Action, attempts := attempts b + 1\<rparr>"

datatype ('a, 'e) polled = Ready 'a | NotReady | Failed 'e

datatype ('a, 'e) poll_result = Returned 'a | Pending | GaveUp 'e | Unreachable

text \<open>
  \<open>poll\<close>. Each round of the loop polls what is running: the list supplies, round by round,
  the answer the action would give and the answer the timer would give. \<open>None\<close> means that
  the list ran out before the loop returned.
\<close>

fun backoff_poll ::
    "(('a, 'e) polled \<times> (unit, unit) polled) list \<Rightarrow> backoff
      \<Rightarrow> (('a, 'e) poll_result \<times> backoff \<times> (('a, 'e) polled \<times> (unit, unit) polled) list) option" where
  "backoff_poll [] b = None"
| "backoff_poll ((future, timer) # answers) b =
    (case inner b of
       Action \<Rightarrow>
         (case future of
            Ready item \<Rightarrow> Some (Returned item, b, answers)
          | NotReady \<Rightarrow> Some (Pending, b, answers)
          | Failed e \<Rightarrow>
              (if retries (options b) = 0 then Some (GaveUp e, b, answers)
               else backoff_poll answers (rotate_f b)))
     | Delay d \<Rightarrow>
         (case timer of
            Ready u \<Rightarrow> backoff_poll answers (rotate_t b)
          | NotReady \<Rightarrow> Some (Pending, b, answers)
          | Failed u \<Rightarrow> Some (Unreachable, b, answers)))"

lemma backoff_poll_consumes:
  "backoff_poll answers b = Some (r, b', rest) \<Longrightarrow> length rest < length answers"
  by (induction answers b rule: backoff_poll.induct)
    (auto split: inner.splits polled.splits if_splits)

text \<open>The executor polls again after every \<open>NotReady\<close>.\<close>

function drive ::
    "(('a, 'e) polled \<times> (unit, unit) polled) list \<Rightarrow> backoff \<Rightarrow> (('a, 'e) poll_result \<times> backoff) option" where
  "drive answers b =
    (case backoff_poll answers b of
       None \<Rightarrow> None
     | Some (r, b', rest) \<Rightarrow> (if r = Pending then drive rest b' else Some (r, b')))"
  by pat_completeness auto
termination
  by (relation "measure (length \<circ> fst)") (auto dest: backoff_poll_consumes)

declare drive.simps [simp del]

section \<open>The invariant\<close>

text \<open>
  Starting the action, a retry in progress and a retry still allowed are three forms of the
  same budget; every delay that was waited is the one computed from the initial options.
\<close>

definition backoff_inv :: "backoff_options \<Rightarrow> backoff \<Rightarrow> bool" where
  "backoff_inv opts b \<longleftrightarrow>
    attempts b + unat (retries (options b)) + (case inner b of Action \<Rightarrow> 0 | Delay d \<Rightarrow> 1)
      = unat (retries opts) + 1 \<and>
    length (waits b) = attempts b + (case inner b of Action \<Rightarrow> 0 | Delay d \<Rightarrow> 1) - 1 \<and>
    0 < attempts b \<and>
    set (waits b) \<subseteq> {retry_delay opts} \<and>
    (\<exists>n. options b = opts\<lparr>retries := n\<rparr>)"

lemma retry_delay_retries [simp]: "retry_delay (opts\<lparr>retries := n\<rparr>) = retry_delay opts"
  by (simp add: retry_delay_def Let_def)

lemma backoff_inv_spawn: "backoff_inv opts (backoff_spawn opts)"
  unfolding backoff_inv_def backoff_spawn_def
  by (auto intro: exI [of _ "retries opts"])

lemma backoff_inv_rotate_f:
  assumes "backoff_inv opts b" and "inner b = Action" and "retries (options b) \<noteq> 0"
  shows "backoff_inv opts (rotate_f b)"
proof -
  have "0 < unat (retries (options b))"
    using assms(3) by (simp add: unat_gt_0)
  moreover have "unat (retries (options b) - 1) = unat (retries (options b)) - 1"
    using assms(3) by (simp add: unat_minus_one)
  ultimately show ?thesis
    using assms(1,2) by (auto simp: backoff_inv_def rotate_f_def Let_def)
qed

lemma backoff_inv_rotate_t:
  "backoff_inv opts b \<Longrightarrow> inner b = Delay d \<Longrightarrow> backoff_inv opts (rotate_t b)"
  by (auto simp: backoff_inv_def rotate_t_def)

lemma backoff_inv_poll:
  "backoff_poll answers b = Some (r, b', rest) \<Longrightarrow> backoff_inv opts b \<Longrightarrow>
    backoff_inv opts b' \<and> (\<forall>e. r = GaveUp e \<longrightarrow> inner b' = Action \<and> retries (options b') = 0)"
  by (induction answers b rule: backoff_poll.induct)
    (auto split: inner.splits polled.splits if_splits intro: backoff_inv_rotate_f backoff_inv_rotate_t)

lemma backoff_inv_drive:
  "drive answers b = Some (r, b') \<Longrightarrow> backoff_inv opts b \<Longrightarrow>
    backoff_inv opts b' \<and> (\<forall>e. r = GaveUp e \<longrightarrow> inner b' = Action \<and> retries (options b') = 0)"
proof (induction answers b rule: drive.induct)
  case (1 answers b)
  then show ?case
    using backoff_inv_poll [of answers b _ _ _ opts]
    by (auto simp: drive.simps [of answers b] split: option.splits prod.splits if_splits)
qed

text \<open>Once nothing blocks any more, a loop with enough rounds returns.\<close>

definition decisive :: "('a, 'e) polled \<times> (unit, unit) polled \<Rightarrow> bool" where
  "decisive a \<longleftrightarrow> fst a \<noteq> NotReady \<and> snd a = Ready ()"

definition rounds_left :: "backoff \<Rightarrow> nat" where
  "rounds_left b = 2 * unat (retries (options b)) + (case inner b of Action \<Rightarrow> 1 | Delay d \<Rightarrow> 2)"

lemma backoff_poll_returns:
  assumes "\<forall>a \<in> set answers. decisive a" and "rounds_left b \<le> length answers"
  shows "\<exists>r b' rest. backoff_poll answers b = Some (r, b', rest) \<and> r \<noteq> Pending \<and> r \<noteq> Unreachable"
  using assms
proof (induction answers b rule: backoff_poll.induct)
  case (1 b)
  then show ?case by (simp add: rounds_left_def split: inner.splits)
next
  case (2 future timer answers b)
  have dec: "timer = Ready ()" "future \<noteq> NotReady" "\<forall>a \<in> set answers. decisive a"
    using "2.prems"(1) by (auto simp: decisive_def)
  show ?case
  proof (cases "inner b")
    case (Delay d)
    then have "rounds_left (rotate_t b) \<le> length answers"
      using "2.prems"(2) by (simp add: rounds_left_def rotate_t_def)
    with "2.IH"(2) [OF Delay dec(1) dec(3)] Delay dec(1) show ?thesis by simp
  next
    case Action
    show ?thesis
    proof (cases "\<exists>e. future = Failed e \<and> retries (options b) \<noteq> 0")
      case True
      then obtain e where e: "future = Failed e" "retries (options b) \<noteq> 0" by blast
      then have "0 < unat (retries (options b))" by (simp add: unat_gt_0)
      moreover have "unat (retries (options b) - 1) = unat (retries (options b)) - 1"
        using e(2) by (simp add: unat_minus_one)
      ultimately have "rounds_left (rotate_f b) \<le> length answers"
        using "2.prems"(2) Action by (simp add: rounds_left_def rotate_f_def Let_def)
      with "2.IH"(1) [OF Action e(1) e(2) dec(3)] Action e show ?thesis by simp
    next
      case False
      with Action dec(2) show ?thesis by (auto split: polled.splits)
    qed
  qed
qed

section \<open>Attempts in sequence\<close>

text \<open>
  What the future is meant to do, without its state: try, and after a failure try again, at
  most \<open>n\<close> times. The result comes with the number of attempts that were made; \<open>None\<close> means
  that the outcomes ran out.
\<close>

fun retried :: "nat \<Rightarrow> ('a, 'e) polled list \<Rightarrow> (('a, 'e) poll_result \<times> nat) option" where
  "retried n [] = None"
| "retried n (Ready x # outcomes) = Some (Returned x, 1)"
| "retried n (NotReady # outcomes) = Some (Pending, 1)"
| "retried n (Failed e # outcomes) =
    (case n of
       0 \<Rightarrow> Some (GaveUp e, 1)
     | Suc m \<Rightarrow> map_option (map_prod id Suc) (retried m outcomes))"

text \<open>The rounds of a poll loop in which the attempts end like this and every delay passes.\<close>

definition retry_rounds :: "('a, 'e) polled list \<Rightarrow> (('a, 'e) polled \<times> (unit, unit) polled) list" where
  "retry_rounds outcomes = concat (map (\<lambda>future. [(future, NotReady), (NotReady, Ready ())]) outcomes)"

lemma retry_rounds_simps [simp]:
  "retry_rounds [] = []"
  "retry_rounds (future # outcomes) = (future, NotReady) # (NotReady, Ready ()) # retry_rounds outcomes"
  by (simp_all add: retry_rounds_def)

lemma rotate_tf_simps [simp]:
  "inner (rotate_f b) = Delay (retry_delay (options b))" "inner (rotate_t b) = Action"
  "attempts (rotate_f b) = attempts b" "attempts (rotate_t b) = Suc (attempts b)"
  "waits (rotate_f b) = waits b @ [retry_delay (options b)]" "waits (rotate_t b) = waits b"
  "options (rotate_f b) = (options b)\<lparr>retries := retries (options b) - 1\<rparr>" "options (rotate_t b) = options b"
  by (simp_all add: rotate_f_def rotate_t_def Let_def)

lemma retried_bounds: "retried n outcomes = Some (r, k) \<Longrightarrow> 0 < k \<and> k \<le> Suc n \<and> (\<forall>e. r = GaveUp e \<longrightarrow> k = Suc n)"
proof (induction n outcomes arbitrary: r k rule: retried.induct)
  case (4 n e outcomes)
  then show ?case by (cases n) auto
qed auto

lemma backoff_poll_retried:
  assumes "inner b = Action"
  shows "case retried (unat (retries (options b))) outcomes of
      None \<Rightarrow> backoff_poll (retry_rounds outcomes) b = None
    | Some (r, k) \<Rightarrow> \<exists>b' rest. backoff_poll (retry_rounds outcomes) b = Some (r, b', rest) \<and>
        attempts b' + 1 = attempts b + k \<and> waits b' = waits b @ replicate (k - 1) (retry_delay (options b))"
  using assms
proof (induction outcomes arbitrary: b)
  case Nil
  then show ?case by simp
next
  case (Cons future outcomes)
  show ?case
  proof (cases "\<exists>e. future = Failed e \<and> retries (options b) \<noteq> 0")
    case True
    then obtain e where e: "future = Failed e" "retries (options b) \<noteq> 0" by blast
    then have "0 < unat (retries (options b))" by (simp add: unat_gt_0)
    then obtain m where m: "unat (retries (options b)) = Suc m" by (cases "unat (retries (options b))") auto
    let ?b = "rotate_t (rotate_f b)"
    have left: "unat (retries (options ?b)) = m" using e(2) m by (simp add: unat_minus_one)
    have poll: "backoff_poll (retry_rounds (future # outcomes)) b = backoff_poll (retry_rounds outcomes) ?b"
      using Cons.prems e by simp
    have spec: "retried (unat (retries (options b))) (future # outcomes) = map_option (map_prod id Suc) (retried m outcomes)"
      using e(1) m by simp
    from Cons.IH [of ?b] show ?thesis
      unfolding left poll spec
    proof (cases "retried m outcomes")
      case (Some rk)
      obtain r k where rk: "rk = (r, Suc k)"
        using Some retried_bounds [of m outcomes] by (cases rk) (metis gr0_conv_Suc)
      from Cons.IH [of ?b] obtain b' rest where b': "backoff_poll (retry_rounds outcomes) ?b = Some (r, b', rest)"
          "attempts b' + 1 = attempts ?b + Suc k" "waits b' = waits ?b @ replicate k (retry_delay (options ?b))"
        unfolding left Some rk by auto
      have "waits b' = waits b @ replicate (Suc k) (retry_delay (options b))" using b'(3) by simp
      with b'(1,2) show "case map_option (map_prod id Suc) (retried m outcomes) of
          None \<Rightarrow> backoff_poll (retry_rounds outcomes) ?b = None
        | Some (r, k) \<Rightarrow> \<exists>b' rest. backoff_poll (retry_rounds outcomes) ?b = Some (r, b', rest) \<and>
            attempts b' + 1 = attempts b + k \<and> waits b' = waits b @ replicate (k - 1) (retry_delay (options b))"
        unfolding Some rk by simp
    qed simp
  next
    case False
    then show ?thesis
      using Cons.prems by (cases future) (auto simp: unat_eq_zero split: nat.split)
  qed
qed

section \<open>Properties\<close>

text \<open>
  The action is started at most once more than the number of retries, and the error is
  handed on only after exactly that many attempts ("0 means 1 try").
\<close>

lemma backoff_attempts:
  assumes "drive answers (backoff_spawn opts) = Some (r, b)"
  shows "attempts b \<le> unat (retries opts) + 1 \<and>
    (\<forall>e. r = GaveUp e \<longrightarrow> attempts b = unat (retries opts) + 1 \<and> length (waits b) = unat (retries opts))"
  using backoff_inv_drive [OF assms backoff_inv_spawn] by (auto simp: backoff_inv_def)

text \<open>
  C20. The state machine of the retrying future is the loop it stands for: for any outcomes of
  the attempts, polling it gives the result of trying and, after a failure, trying again at
  most \<open>retries\<close> times, with as many attempts, and the same delay between any two.
\<close>

theorem backoff_is_retry_loop:
  "case retried (unat (retries opts)) outcomes of
     None \<Rightarrow> backoff_poll (retry_rounds outcomes) (backoff_spawn opts) = None
   | Some (r, k) \<Rightarrow> \<exists>b rest. backoff_poll (retry_rounds outcomes) (backoff_spawn opts) = Some (r, b, rest) \<and>
       attempts b = k \<and> waits b = replicate (k - 1) (retry_delay opts)"
  using backoff_poll_retried [of "backoff_spawn opts" outcomes] by (auto simp: backoff_spawn_def split: option.splits)

text \<open>
  C32. It terminates: given \<open>2 * retries + 1\<close> rounds in which the action answers and the
  timer expires, the future returns the item or gives up.
\<close>

theorem backoff_terminates:
  assumes "\<forall>a \<in> set answers. decisive a" and "2 * unat (retries opts) + 1 \<le> length answers"
  shows "\<exists>r b. drive answers (backoff_spawn opts) = Some (r, b) \<and>
    ((\<exists>item. r = Returned item) \<or> (\<exists>e. r = GaveUp e))"
proof -
  have "rounds_left (backoff_spawn opts) \<le> length answers"
    using assms(2) by (simp add: rounds_left_def backoff_spawn_def)
  then obtain r b rest where "backoff_poll answers (backoff_spawn opts) = Some (r, b, rest)"
      and "r \<noteq> Pending" "r \<noteq> Unreachable"
    using backoff_poll_returns [OF assms(1), of "backoff_spawn opts"] by blast
  then show ?thesis by (cases r) (auto simp: drive.simps [of answers])
qed

theorem backoff_terminates_witness:
  "\<exists>r b. drive (replicate 3 (Failed ''x'', Ready ())) (backoff_spawn (backoff_default\<lparr>retries := 1\<rparr>)) = Some (r, b)
     \<and> ((\<exists>item. r = Returned (item :: unit)) \<or> (\<exists>e. r = GaveUp e))"
  by (rule backoff_terminates) (simp_all add: decisive_def)

text \<open>
  The delay does not grow: every delay waited during a run is the same, the product of
  the configured delay and multiplier. It exceeds the configured maximum never, as long as
  that maximum is below \<open>2 ^ 24\<close> and so exactly representable as an \<open>f32\<close>.
\<close>

theorem backoff_delay_constant_and_capped:
  assumes "drive answers (backoff_spawn opts) = Some (r, b)" and "d \<in> set (waits b)"
    and "unat (delay_max opts) < 2 ^ 24"
  shows "d = retry_delay opts \<and> unat d \<le> unat (delay_max opts)"
proof -
  have "d = retry_delay opts"
    using backoff_inv_drive [OF assms(1) backoff_inv_spawn] assms(2) by (auto simp: backoff_inv_def)
  moreover have "unat (retry_delay opts) \<le> unat (delay_max opts)"
    using u64_of_f32_le [of _ "unat (delay_max opts)"] assms(3)
    by (auto simp: retry_delay_def Let_def f32_of_u64_exact)
  ultimately show ?thesis by simp
qed

lemma retry_delay_default: "retry_delay backoff_default = 500"
proof -
  have "f32_of_u64 250 = Fin 250" "f32_of_u64 5000 = Fin 5000"
    by (simp_all add: f32_of_u64_exact)
  moreover have "round_f32 500 = Fin 500"
    using round_ieee_of_nat [of 500 24 "- 149" 128] by simp
  ultimately show ?thesis
    by (simp add: retry_delay_def backoff_default_def f32_mul_def)
qed

end
