(* ===== verification/Peer.thy ===== *)
theory Peer
  imports Task Backoff
begin

text \<open>
  \<^verbatim>\<open>src/peer.rs\<close>: replication between nodes. Every snapshot interval a node takes the short
  caches of its workers and sends them, as one message, to every other node; the receiving
  server turns each message of a connection into a task for one of its workers. The Cap'n
  Proto encoding and the metric's part of it are library code and enter as \<open>capnp_lib\<close>.
\<close>

section \<open>Messages and errors\<close>

datatype metric_error = MCapnpSchema string | MCapnp string | MOther string

datatype peer_error =
    Io string
  | Timer string
  | TaskSend
  | BadMessage
  | BadCommand
  | Response
  | Capnp string
  | CapnpSchema string
  | Metric metric_error

text \<open>The union of the schema; a field of it is read when it is accessed, which may fail.\<close>

datatype 'r which =
    MSingle "string + 'r"
  | MMulti "string + 'r list"
  | MSnapshot "string + 'r list"

text \<open>
  \<open>'w\<close> is a message, \<open>'r\<close> a metric inside one. \<open>get_root\<close> and \<open>which_of\<close> give access to a
  message that was read, \<open>fill_capnp\<close> writes a named metric into a list element, and
  \<open>build_snapshot\<close> is the message whose root is a snapshot with these elements.
\<close>

record ('w, 'r, 'm) capnp_lib =
  get_root :: "'w \<Rightarrow> string + 'w"
  which_of :: "'w \<Rightarrow> string + 'r which"
  from_capnp :: "'r \<Rightarrow> metric_error + bytes \<times> 'm"
  fill_capnp :: "bytes \<times> 'm \<Rightarrow> 'r"
  build_snapshot :: "'r list \<Rightarrow> 'w"

section \<open>The receiving server\<close>

text \<open>Elements of a list that do not decode are skipped.\<close>

definition decoded :: "('w, 'r, 'm) capnp_lib \<Rightarrow> 'r list \<Rightarrow> (bytes \<times> 'm) list" where
  "decoded cl rs = concat (map (\<lambda>r. case from_capnp cl r of Inl e \<Rightarrow> [] | Inr kv \<Rightarrow> [kv]) rs)"

text \<open>The task that is sent to \<open>next_chan\<close>; a failing send is only logged.\<close>

definition parse_and_send :: "('w, 'r, 'm) capnp_lib \<Rightarrow> 'w \<Rightarrow> metric_error + 'm task" where
  "parse_and_send cl reader =
    (case which_of cl reader of
       Inl e \<Rightarrow> Inl (MCapnpSchema e)
     | Inr (MSingle field) \<Rightarrow>
         (case field of
            Inl e \<Rightarrow> Inl (MCapnp e)
          | Inr r \<Rightarrow>
              (case from_capnp cl r of Inl e \<Rightarrow> Inl e | Inr (name, metric) \<Rightarrow> Inr (AddMetric name metric)))
     | Inr (MMulti field) \<Rightarrow>
         (case field of Inl e \<Rightarrow> Inl (MCapnp e) | Inr rs \<Rightarrow> Inr (AddMetrics (decoded cl rs)))
     | Inr (MSnapshot field) \<Rightarrow>
         (case field of Inl e \<Rightarrow> Inl (MCapnp e) | Inr rs \<Rightarrow> Inr (AddSnapshot (decoded cl rs))))"

datatype conn_end = Closed | Broken peer_error | Panicked

text \<open>
  One connection: the items of the read stream, each a message or a read error. The workers
  take turns, \<open>pos\<close> counting the messages; the first error ends the connection.
\<close>

fun peer_connection ::
    "('w, 'r, 'm) capnp_lib \<Rightarrow> nat \<Rightarrow> nat \<Rightarrow> (string + 'w) list \<Rightarrow> (nat \<times> 'm task) list \<times> conn_end" where
  "peer_connection cl n pos [] = ([], Closed)"
| "peer_connection cl n pos (Inl e # items) = ([], Broken (Capnp e))"
| "peer_connection cl n pos (Inr msg # items) =
    (case get_root cl msg of
       Inl e \<Rightarrow> ([], Broken (Capnp e))
     | Inr reader \<Rightarrow>
         if n = 0 then ([], Panicked)
         else
           (case parse_and_send cl reader of
              Inl e \<Rightarrow> ([], Broken (Metric e))
            | Inr t \<Rightarrow>
                (let (sent, res) = peer_connection cl n (pos + 1) items in ((pos mod n, t) # sent, res))))"

section \<open>The snapshot client\<close>

record snapshot_client_options =
  snap_address :: socket_addr
  snap_bind :: "socket_addr option"

record 'm snapshot_sender =
  snap_metrics :: "'m cache list"
  snap_options :: snapshot_client_options

definition peer_client_ret :: backoff_options where
  "peer_client_ret = \<lparr>delay = 500, delay_mul = Fin 2, delay_max = 5000, retries = 3\<rparr>"

text \<open>
  One round of \<open>NativeProtocolSnapshot\<close>: the answers of the workers to \<open>TakeSnapshot\<close>, in the
  order of the workers (\<open>None\<close>: the worker dropped its end), and the senders that are spawned
  under \<open>peer_client_ret\<close>, one for each node.
\<close>

definition take_snapshots :: "chan_id list \<Rightarrow> (nat \<times> 'm task) list" where
  "take_snapshots replies = enumerate 0 (map TakeSnapshot replies)"

definition join_snapshots :: "'m cache option list \<Rightarrow> counters \<Rightarrow> (peer_error + 'm cache list) \<times> counters" where
  "join_snapshots replies c =
    (if None \<in> set replies then (Inl TaskSend, add_peer_errors 1 c)
     else (Inr (filter (\<lambda>m. 0 < length m) (map the replies)), c))"

definition snapshot_round ::
    "socket_addr list \<Rightarrow> socket_addr option \<Rightarrow> 'm cache option list \<Rightarrow> counters
      \<Rightarrow> (peer_error + 'm snapshot_sender list) \<times> counters" where
  "snapshot_round nodes bind_to replies c =
    (let (res, c') = join_snapshots replies c in
     (map_sum id (\<lambda>caches. map (\<lambda>address.
        \<lparr>snap_metrics = caches, snap_options = \<lparr>snap_address = address, snap_bind = bind_to\<rparr>\<rparr>) nodes) res, c'))"

text \<open>
  The whole client: a tick of the timer is its error or the answers of that round. The
  future ends at the first error, which \<open>main\<close> counts once more.
\<close>

fun snapshot_client ::
    "socket_addr list \<Rightarrow> socket_addr option \<Rightarrow> (string + 'm cache option list) list \<Rightarrow> counters
      \<Rightarrow> 'm snapshot_sender list list \<times> peer_error option \<times> counters" where
  "snapshot_client nodes bind_to [] c = ([], None, c)"
| "snapshot_client nodes bind_to (Inl e # ticks) c = ([], Some (Timer e), add_peer_errors 1 c)"
| "snapshot_client nodes bind_to (Inr replies # ticks) c =
    (case snapshot_round nodes bind_to replies c of
       (Inl e, c') \<Rightarrow> ([], Some e, add_peer_errors 1 c')
     | (Inr senders, c') \<Rightarrow>
         (let (rest, res) = snapshot_client nodes bind_to ticks c' in (senders # rest, res)))"

text \<open>
  The message of a sender. The number of metrics is passed as a \<open>u32\<close>, and so is every index,
  which the list builder checks.
\<close>

definition snapshot_message :: "('w, 'r, 'm) capnp_lib \<Rightarrow> 'm cache list \<Rightarrow> panic + 'w" where
  "snapshot_message cl caches =
    (let flat = concat caches;
         flat_len = unat (of_nat (length flat) :: u32)
     in if list_all (\<lambda>idx. unat (of_nat idx :: u32) < flat_len) [0..<length flat]
        then Inr (build_snapshot cl (map (fill_capnp cl) flat))
        else Inl (Panic ''index out of bounds''))"

text \<open>
  One attempt of a sender: binding (where configured), connecting and sending may fail, and
  every failure is counted. The result is the message that went out.
\<close>

definition snapshot_send ::
    "('w, 'r, 'm) capnp_lib \<Rightarrow> (socket_addr \<Rightarrow> string option) \<Rightarrow> (socket_addr \<Rightarrow> string option)
      \<Rightarrow> ('w \<Rightarrow> string option) \<Rightarrow> 'm snapshot_sender \<Rightarrow> counters \<Rightarrow> (panic + peer_error + 'w) \<times> counters" where
  "snapshot_send cl bind_err connect_err send_err s c =
    (let opened = (case snap_bind (snap_options s) of
           Some addr \<Rightarrow> (case bind_err addr of Some e \<Rightarrow> Some e | None \<Rightarrow> connect_err (snap_address (snap_options s)))
         | None \<Rightarrow> connect_err (snap_address (snap_options s)))
     in case opened of
          Some e \<Rightarrow> (Inr (Inl (Io e)), add_peer_errors 1 c)
        | None \<Rightarrow>
            (case snapshot_message cl (snap_metrics s) of
               Inl p \<Rightarrow> (Inl p, c)
             | Inr msg \<Rightarrow>
                 (case send_err msg of
                    Some e \<Rightarrow> (Inr (Inl (Capnp e)), add_peer_errors 1 c)
                  | None \<Rightarrow> (Inr (Inr msg), c))))"

section \<open>What the library promises\<close>

text \<open>
  Reading back what was written: the snapshot message has the elements it was built from, and
  a metric that the encoding can represent (\<open>ok\<close>) decodes to its name and value.
\<close>

definition capnp_law :: "('w, 'r, 'm) capnp_lib \<Rightarrow> (bytes \<Rightarrow> 'm \<Rightarrow> bool) \<Rightarrow> bool" where
  "capnp_law cl ok \<longleftrightarrow>
    (\<forall>name m. ok name m \<longrightarrow> from_capnp cl (fill_capnp cl (name, m)) = Inr (name, m)) \<and>
    (\<forall>rs. \<exists>reader. get_root cl (build_snapshot cl rs) = Inr reader \<and>
      which_of cl reader = Inr (MSnapshot (Inr rs)))"

lemma decoded_fill:
  "capnp_law cl ok \<Longrightarrow> \<forall>(name, m) \<in> set kvs. ok name m \<Longrightarrow> decoded cl (map (fill_capnp cl) kvs) = kvs"
  by (induction kvs) (auto simp: decoded_def capnp_law_def)

lemma snapshot_message_fits:
  assumes "length (concat caches) < 2 ^ 32"
  shows "snapshot_message cl caches = Inr (build_snapshot cl (map (fill_capnp cl) (concat caches)))"
proof -
  have "unat (of_nat k :: u32) = k" if "k \<le> length (concat caches)" for k
    using that assms by (simp add: unsigned_of_nat take_bit_nat_eq_self)
  then show ?thesis by (simp add: snapshot_message_def list_all_iff Let_def del: length_concat)
qed

lemma peer_connection_snapshot:
  assumes "capnp_law cl ok" and "\<forall>(name, m) \<in> set (concat caches). ok name m"
    and "length (concat caches) < 2 ^ 32" and "0 < n"
  shows "\<exists>msg. snapshot_message cl caches = Inr msg \<and>
    peer_connection cl n pos [Inr msg] = ([(pos mod n, AddSnapshot (concat caches))], Closed)"
proof -
  obtain reader where "get_root cl (build_snapshot cl (map (fill_capnp cl) (concat caches))) = Inr reader"
      "which_of cl reader = Inr (MSnapshot (Inr (map (fill_capnp cl) (concat caches))))"
    using assms(1) unfolding capnp_law_def by blast
  with assms(4) show ?thesis
    by (simp add: snapshot_message_fits [OF assms(3)] parse_and_send_def decoded_fill [OF assms(1,2)]
        del: map_concat)
qed

lemma entries_total_concat: "entries_total \<mu> (concat kvss) = (\<Sum>kvs\<leftarrow>kvss. entries_total \<mu> kvs)"
  by (induction kvss) simp_all

lemma concat_nonempty: "concat (filter (\<lambda>m. 0 < length m) ms) = concat ms"
  by (induction ms) auto

lemma join_snapshots_ok:
  "None \<notin> set replies \<Longrightarrow> join_snapshots replies c = (Inr (filter (\<lambda>m. 0 < length m) (map the replies)), c)"
  by (simp add: join_snapshots_def)

text \<open>What an item of the read stream comes to.\<close>

definition decode_item :: "('w, 'r, 'm) capnp_lib \<Rightarrow> string + 'w \<Rightarrow> peer_error + 'm task" where
  "decode_item cl item =
    (case item of
       Inl e \<Rightarrow> Inl (Capnp e)
     | Inr msg \<Rightarrow>
         (case get_root cl msg of
            Inl e \<Rightarrow> Inl (Capnp e)
          | Inr reader \<Rightarrow> map_sum Metric id (parse_and_send cl reader)))"

lemma peer_connection_Cons:
  "0 < n \<Longrightarrow> peer_connection cl n pos (item # items) =
    (case decode_item cl item of
       Inl e \<Rightarrow> ([], Broken e)
     | Inr t \<Rightarrow> (let (sent, res) = peer_connection cl n (pos + 1) items in ((pos mod n, t) # sent, res)))"
  by (cases item) (auto simp: decode_item_def split: sum.splits)

section \<open>Examples\<close>

text \<open>An encoding in which a message is its union and a metric with a blank name is broken.\<close>

definition sample_capnp :: "((bytes \<times> nat) which, bytes \<times> nat, nat) capnp_lib" where
  "sample_capnp = \<lparr>get_root = Inr, which_of = Inr,
     from_capnp = (\<lambda>(name, m). if name = [] then Inl (MOther ''name'') else Inr (name, m)),
     fill_capnp = id, build_snapshot = MSnapshot \<circ> Inr\<rparr>"

lemma sample_capnp_law: "capnp_law sample_capnp (\<lambda>name m. name \<noteq> [])"
  by (simp add: capnp_law_def sample_capnp_def)

definition sample_replies :: "nat cache option list" where
  "sample_replies = [Some [(''a'', 2), (''b'', 1)], Some [], Some [(''a'', 3)]]"

section \<open>Properties\<close>

text \<open>
  C13. Replication delivers. In a round in which every worker answers, one sender is made
  for every node, all with the same caches; the message of each, read by the server of
  another node, becomes one \<open>AddSnapshot\<close> task with exactly the metrics of all workers; and
  running it adds them to the long cache of a worker there, by every measure that \<open>aggregate\<close>
  adds up, and leaves the short cache (what that node will itself replicate) alone. The
  encoding is assumed to read back what it wrote.
\<close>

theorem snapshot_replicated:
  fixes \<mu> :: "bytes \<Rightarrow> 'm \<Rightarrow> 'c::comm_monoid_add"
  assumes "capnp_law cl ok" and "additive lib \<mu>"
    and "None \<notin> set replies" and "\<forall>m \<in> set replies. \<forall>(name, v) \<in> set (the m). ok name v"
    and "length (concat (map the replies)) < 2 ^ 32" and "0 < n"
  shows "\<exists>senders. snapshot_round nodes bind_to replies c = (Inr senders, c) \<and>
    map (snap_address \<circ> snap_options) senders = nodes \<and>
    (\<forall>s \<in> set senders. \<exists>msg t.
      snapshot_message cl (snap_metrics s) = Inr msg \<and>
      peer_connection cl n pos [Inr msg] = ([(pos mod n, t)], Closed) \<and>
      (\<forall>w. entries_total \<mu> (long (runner (run lib alive t w))) =
             entries_total \<mu> (long (runner w)) + (\<Sum>m\<leftarrow>replies. entries_total \<mu> (the m)) \<and>
           short (runner (run lib alive t w)) = short (runner w)))"
proof -
  let ?caches = "filter (\<lambda>m. 0 < length m) (map the replies)"
  let ?senders = "map (\<lambda>address. \<lparr>snap_metrics = ?caches,
    snap_options = \<lparr>snap_address = address, snap_bind = bind_to\<rparr>\<rparr>) nodes"
  have "\<forall>(name, m) \<in> set (concat ?caches). ok name m" and "length (concat ?caches) < 2 ^ 32"
    using assms(4,5) unfolding concat_nonempty by auto
  from peer_connection_snapshot [OF assms(1) this assms(6), of pos]
  obtain msg where msg: "snapshot_message cl ?caches = Inr msg"
      "peer_connection cl n pos [Inr msg] = ([(pos mod n, AddSnapshot (concat (map the replies)))], Closed)"
    unfolding concat_nonempty by blast
  have "entries_total \<mu> (long (runner (run lib alive (AddSnapshot (concat (map the replies))) w))) =
      entries_total \<mu> (long (runner w)) + (\<Sum>m\<leftarrow>replies. entries_total \<mu> (the m)) \<and>
      short (runner (run lib alive (AddSnapshot (concat (map the replies))) w)) = short (runner w)" for w
    by (simp add: run_effects entries_total_put_metrics [OF assms(2)] entries_total_concat comp_def)
  with msg have "\<forall>s \<in> set ?senders. \<exists>msg t.
      snapshot_message cl (snap_metrics s) = Inr msg \<and> peer_connection cl n pos [Inr msg] = ([(pos mod n, t)], Closed) \<and>
      (\<forall>w. entries_total \<mu> (long (runner (run lib alive t w))) =
             entries_total \<mu> (long (runner w)) + (\<Sum>m\<leftarrow>replies. entries_total \<mu> (the m)) \<and>
           short (runner (run lib alive t w)) = short (runner w))"
    by (simp del: peer_connection.simps)
  moreover have "snapshot_round nodes bind_to replies c = (Inr ?senders, c)"
    by (simp add: snapshot_round_def join_snapshots_ok [OF assms(3)])
  moreover have "map (snap_address \<circ> snap_options) ?senders = nodes" by (simp add: comp_def)
  ultimately show ?thesis by blast
qed

theorem snapshot_replicated_witness:
  "\<exists>senders. snapshot_round [localhost 1, localhost 2] None sample_replies counters_init = (Inr senders, counters_init) \<and>
    map (snap_address \<circ> snap_options) senders = [localhost 1, localhost 2] \<and>
    (\<forall>s \<in> set senders. \<exists>msg t.
      snapshot_message sample_capnp (snap_metrics s) = Inr msg \<and>
      peer_connection sample_capnp 4 0 [Inr msg] = ([(0, t)], Closed) \<and>
      entries_total (\<lambda>k v. v) (long (runner (run sample_lib (\<lambda>ch. True) t (worker_new system_default)))) = 6)"
proof -
  have "None \<notin> set sample_replies" and "\<forall>m \<in> set sample_replies. \<forall>(name, v) \<in> set (the m). name \<noteq> []"
    and "length (concat (map the sample_replies)) < 2 ^ 32" and "0 < (4::nat)"
    by (simp_all add: sample_replies_def)
  from snapshot_replicated [OF sample_capnp_law sample_lib_additive this, of "[localhost 1, localhost 2]" None counters_init 0
      "\<lambda>ch. True"]
  obtain senders where *: "snapshot_round [localhost 1, localhost 2] None sample_replies counters_init = (Inr senders, counters_init)"
      "map (snap_address \<circ> snap_options) senders = [localhost 1, localhost 2]"
    and each: "\<forall>s \<in> set senders. \<exists>msg t. snapshot_message sample_capnp (snap_metrics s) = Inr msg \<and>
      peer_connection sample_capnp 4 0 [Inr msg] = ([(0 mod 4, t)], Closed) \<and>
      (\<forall>w. entries_total (\<lambda>k v. v) (long (runner (run sample_lib (\<lambda>ch. True) t w))) =
         entries_total (\<lambda>k v. v) (long (runner w)) + (\<Sum>m\<leftarrow>sample_replies. entries_total (\<lambda>k v. v) (the m)) \<and>
       short (runner (run sample_lib (\<lambda>ch. True) t w)) = short (runner w))"
    by (elim exE conjE) (rule that)
  have "(\<Sum>m\<leftarrow>sample_replies. entries_total (\<lambda>k v. v) (the m)) = 6"
    and "entries_total (\<lambda>k v. v) (long (runner (worker_new system_default :: nat worker))) = 0"
    by (simp_all add: sample_replies_def worker_new_def task_runner_new_def)
  with * each show ?thesis by (intro exI [of _ senders] conjI) (assumption | fastforce)+
qed

text \<open>
  A connection of the peer server delivers its messages in order, the \<open>k\<close>-th one to worker
  \<open>k\<close> modulo the number of workers, up to the first item that does not decode. That item
  closes the connection with its error, and nothing after it is looked at.
\<close>

lemma peer_connection_prefix:
  assumes "0 < n"
  shows "peer_connection cl n pos items =
    (map (\<lambda>(k, t). (k mod n, t)) (enumerate pos (map projr (takeWhile (Not \<circ> isl) (map (decode_item cl) items)))),
     case dropWhile (Not \<circ> isl) (map (decode_item cl) items) of
       [] \<Rightarrow> Closed
     | r # _ \<Rightarrow> Broken (projl r))"
proof (induction items arbitrary: pos)
  case Nil
  show ?case by simp
next
  case (Cons item items)
  then show ?case
    by (cases "decode_item cl item") (simp_all add: peer_connection_Cons [OF assms] del: peer_connection.simps)
qed

text \<open>
  C35. Replication ends with the first round in which a worker does not answer: whatever the
  timer does afterwards, no snapshot is sent any more, and the single failure is counted
  twice as a peer error.
\<close>

theorem snapshot_client_stops:
  assumes "\<forall>replies \<in> set good. None \<notin> set replies" and "None \<in> set bad"
  shows "snapshot_client nodes bind_to (map Inr good @ Inr bad # later) c =
    (map (\<lambda>replies. map (\<lambda>address. \<lparr>snap_metrics = filter (\<lambda>m. 0 < length m) (map the replies),
        snap_options = \<lparr>snap_address = address, snap_bind = bind_to\<rparr>\<rparr>) nodes) good,
     Some TaskSend, add_peer_errors 2 c)"
  using assms
proof (induction good)
  case Nil
  then show ?case by (simp add: snapshot_round_def join_snapshots_def)
next
  case (Cons replies good)
  then show ?case by (simp add: snapshot_round_def join_snapshots_def)
qed

theorem snapshot_client_stops_witness:
  "snapshot_client [localhost 1] None ([Inr sample_replies] @ [Inr [None], Inr sample_replies]) counters_init =
    ([[\<lparr>snap_metrics = [[(''a'', 2), (''b'', 1)], [(''a'', 3)]],
        snap_options = \<lparr>snap_address = localhost 1, snap_bind = None\<rparr>\<rparr>]],
     Some TaskSend, add_peer_errors 2 counters_init)"
  using snapshot_client_stops [of "[sample_replies]" "[None]" "[localhost 1]" None "[Inr sample_replies]" counters_init]
  by (simp add: sample_replies_def)

end
