(* ===== verification/Ingress.thy ===== *)
theory Ingress
  imports Config
begin

text \<open>
  What the two UDP front ends (\<^verbatim>\<open>src/server.rs\<close> and \<^verbatim>\<open>src/udp.rs\<close>) have in common: the flush
  flags, the counters and the parse tasks they send, and the contract that both satisfy. The
  contract says that a front end neither loses nor reorders the bytes of a sender: what it
  has flushed and what it still buffers, put together, is what it has received. What it has
  flushed went to workers, but for the sends that were refused.
\<close>

section \<open>Surroundings\<close>

text \<open>
  One attempt to send a \<open>Task::Parse\<close>: the worker it went to, its hash and payload, and
  whether the queue took it. The source address is history; the task does not carry it.
\<close>

record 'a parse_send =
  ps_chan :: nat
  ps_source :: 'a
  ps_hash :: u64
  ps_payload :: bytes
  ps_accepted :: bool

text \<open>The flush flag of every network thread, the counters, and the sends so far.\<close>

record 'a net =
  flush_flags :: "bool list"
  net_stats :: counters
  net_log :: "'a parse_send list"

text \<open>
  Of the bytes of a sender: those in sends, those that workers took, and those in sends that
  were refused. The code drops the latter and counts them in \<open>DROPS\<close>.
\<close>

definition flushed :: "'a net \<Rightarrow> 'a \<Rightarrow> bytes" where
  "flushed n a = concat (map ps_payload (filter (\<lambda>p. ps_source p = a) (net_log n)))"

definition passed_on :: "'a net \<Rightarrow> 'a \<Rightarrow> bytes" where
  "passed_on n a = concat (map ps_payload (filter (\<lambda>p. ps_source p = a \<and> ps_accepted p) (net_log n)))"

definition refused :: "'a net \<Rightarrow> 'a \<Rightarrow> bytes" where
  "refused n a = concat (map ps_payload (filter (\<lambda>p. ps_source p = a \<and> \<not> ps_accepted p) (net_log n)))"

lemma flushed_split: "mset (flushed n a) = mset (passed_on n a) + mset (refused n a)"
proof -
  have "mset (concat (map ps_payload (filter (\<lambda>p. ps_source p = a) ps))) =
      mset (concat (map ps_payload (filter (\<lambda>p. ps_source p = a \<and> ps_accepted p) ps))) +
      mset (concat (map ps_payload (filter (\<lambda>p. ps_source p = a \<and> \<not> ps_accepted p) ps)))" for ps
    by (induction ps) (auto simp: ac_simps)
  then show ?thesis by (simp add: flushed_def passed_on_def refused_def)
qed

definition all_accepted :: "'a net \<Rightarrow> bool" where
  "all_accepted n \<longleftrightarrow> (\<forall>p \<in> set (net_log n). ps_accepted p)"

lemma passed_on_all: "all_accepted n \<Longrightarrow> passed_on n a = flushed n a"
  by (auto simp: all_accepted_def passed_on_def flushed_def intro!: arg_cong [where f = "\<lambda>ps. concat (map ps_payload ps)"] filter_cong)

definition pending :: "('a, bytes) hash_map \<Rightarrow> 'a \<Rightarrow> bytes" where
  "pending m a = (case hm_get m a of Some b \<Rightarrow> b | None \<Rightarrow> [])"

definition payload_from :: "('a \<times> bytes) list \<Rightarrow> 'a \<Rightarrow> bytes" where
  "payload_from batch a = concat (map snd (filter (\<lambda>p. fst p = a) batch))"

lemma payload_from_simps [simp]:
  "payload_from [] a = []"
  "payload_from ((a', p) # batch) a = (if a' = a then p else []) @ payload_from batch a"
  "payload_from (xs @ ys) a = payload_from xs a @ payload_from ys a"
  by (simp_all add: payload_from_def)

lemma pending_Nil [simp]: "pending [] a = []"
  by (simp add: pending_def)

text \<open>\<open>bufmap.entry(addr).or_insert(..).put(bytes)\<close>.\<close>

definition append_buffer :: "'a \<Rightarrow> bytes \<Rightarrow> ('a, bytes) hash_map \<Rightarrow> ('a, bytes) hash_map" where
  "append_buffer a p m = hm_insert a (pending m a @ p) m"

lemma pending_append_buffer [simp]:
  "pending (append_buffer a p m) a' = pending m a' @ (if a' = a then p else [])"
  by (simp add: append_buffer_def pending_def update_conv)

lemma hm_wf_append_buffer [simp]: "hm_wf m \<Longrightarrow> hm_wf (append_buffer a p m)"
  by (simp add: append_buffer_def)

lemma append_buffer_not_Nil [simp]: "append_buffer a p m \<noteq> []"
  unfolding append_buffer_def by (cases m) auto

lemma payload_from_map:
  assumes "hm_wf m"
  shows "payload_from m a = pending m a"
  using assms unfolding payload_from_def pending_def hm_wf_def hm_keys_def
  by (simp add: filter_fst_map_of split: option.split)

section \<open>The contract\<close>

locale front_end =
  fixes receive :: "('a \<times> bytes) list \<Rightarrow> 's \<Rightarrow> 's"
    and sent :: "'s \<Rightarrow> 'a \<Rightarrow> bytes"
    and buffered :: "'s \<Rightarrow> 'a \<Rightarrow> bytes"
    and ok :: "'s \<Rightarrow> bool"
    and valid :: "('a \<times> bytes) list \<Rightarrow> bool"
  assumes receive_ok: "ok s \<Longrightarrow> valid batch \<Longrightarrow> ok (receive batch s)"
    and receive_bytes: "ok s \<Longrightarrow> valid batch \<Longrightarrow>
      sent (receive batch s) a @ buffered (receive batch s) a = sent s a @ buffered s a @ payload_from batch a"
begin

lemma run_ok: "ok s \<Longrightarrow> (\<And>b. b \<in> set batches \<Longrightarrow> valid b) \<Longrightarrow> ok (fold receive batches s)"
  by (induction batches arbitrary: s) (simp_all add: receive_ok)

lemma run_bytes:
  "ok s \<Longrightarrow> (\<And>b. b \<in> set batches \<Longrightarrow> valid b) \<Longrightarrow>
    sent (fold receive batches s) a @ buffered (fold receive batches s) a
      = sent s a @ buffered s a @ payload_from (concat batches) a"
proof (induction batches arbitrary: s)
  case Nil
  show ?case by simp
next
  case (Cons b batches)
  then show ?case
    using receive_ok [of s b] receive_bytes [of s b a] Cons.IH [of "receive b s"] by simp
qed

end

end
