(* ===== verification/Server.thy ===== *)
theory Server
  imports Ingress
begin

text \<open>
  \<^verbatim>\<open>src/server.rs\<close>: the asynchronous UDP server. One run of its future receives one datagram,
  appends it to the buffer of its sender, flushes all buffers to the workers when enough
  bytes have gathered or a flush was requested, and spawns itself again. The hash of an
  address (the standard library's \<open>DefaultHasher\<close>, whose algorithm is unspecified) is a
  parameter, as is whether a worker still accepts tasks: the send waits while a queue is
  full and fails only when the receiver is gone. The socket and the read buffer, which the
  record of the code also holds, are the received datagrams here: a datagram is what the socket
  put into the read buffer, without the bytes that did not fit. The log has the sends in the
  order in which they are spawned.
\<close>

section \<open>Operations\<close>

record statsd_server =
  bufmap :: "(socket_addr, bytes) hash_map"
  server_config :: system_config
  server_bufsize :: nat
  recv_counter :: usize
  next_chan :: nat
  thread_idx :: nat

definition statsd_server_new ::
    "(socket_addr, bytes) hash_map \<Rightarrow> system_config \<Rightarrow> nat \<Rightarrow> usize \<Rightarrow> nat \<Rightarrow> nat \<Rightarrow> statsd_server" where
  "statsd_server_new m cfg bsize counter nxt idx =
    \<lparr>bufmap = m, server_config = cfg, server_bufsize = bsize, recv_counter = counter, next_chan = nxt, thread_idx = idx\<rparr>"

datatype received = RecvError string | Datagram bytes socket_addr

text \<open>\<open>n\<close> workers; the index of the one that gets a buffer, and the next round-robin position.\<close>

definition choose_chan :: "system_config \<Rightarrow> nat \<Rightarrow> u64 \<Rightarrow> nat \<Rightarrow> nat \<times> nat" where
  "choose_chan cfg n ahash nxt =
    (if consistent_parsing (metrics cfg) then (unat ahash mod n, nxt)
     else let nxt' = (if n \<le> nxt then 0 else nxt) in (nxt', nxt' + 1))"

definition server_flush ::
    "(socket_addr \<Rightarrow> u64) \<Rightarrow> (nat \<Rightarrow> bool) \<Rightarrow> system_config \<Rightarrow> nat \<Rightarrow> socket_addr \<times> bytes
      \<Rightarrow> nat \<times> socket_addr net \<Rightarrow> nat \<times> socket_addr net" where
  "server_flush hash accepts cfg n = (\<lambda>(addr, buf) (nxt, net).
    let ahash = hash addr;
        (chan, nxt') = choose_chan cfg n ahash nxt;
        ok = accepts chan;
        entry = \<lparr>ps_chan = chan, ps_source = addr, ps_hash = ahash, ps_payload = buf, ps_accepted = ok\<rparr>
    in (nxt', net\<lparr>net_log := net_log net @ [entry],
           net_stats := (if ok then net_stats net else add_drops 1 (net_stats net))\<rparr>))"

text \<open>
  \<open>StatsdServer::into_future\<close>. The server in the result is the one that is spawned next;
  \<open>None\<close> means that the future ends without spawning another. Indexing the workers when
  there are none, and a thread index without a flush flag, panic.
\<close>

definition server_receive ::
    "(socket_addr \<Rightarrow> u64) \<Rightarrow> (nat \<Rightarrow> bool) \<Rightarrow> nat \<Rightarrow> received \<Rightarrow> statsd_server \<Rightarrow> socket_addr net
      \<Rightarrow> panic + statsd_server option \<times> socket_addr net" where
  "server_receive hash accepts n r srv net =
    (case r of
       RecvError e \<Rightarrow> Inr (None, net)
     | Datagram payload addr \<Rightarrow>
         (let net1 = net\<lparr>net_stats := add_ingress 1 (net_stats net)\<rparr>; cfg = server_config srv in
          if length payload = 0 then Inr (None, net1)
          else
            let bufmap1 = append_buffer addr payload (bufmap srv);
                counter1 = recv_counter srv + of_nat (length payload)
            in if length (flush_flags net1) \<le> thread_idx srv then Inl (Panic ''no flush flag'')
               else
                 let flush = flush_flags net1 ! thread_idx srv;
                     net2 = net1\<lparr>flush_flags := (flush_flags net1)[thread_idx srv := False]\<rparr>
                 in if buffer_flush_length (network cfg) \<le> counter1 \<or> flush then
                      (if n = 0 then Inl (Panic ''no workers'')
                       else
                         let (nxt', net3) = fold (server_flush hash accepts cfg n) bufmap1 (next_chan srv, net2)
                         in Inr (Some (statsd_server_new [] cfg (server_bufsize srv) 0 nxt' (thread_idx srv)), net3))
                    else
                      Inr (Some (statsd_server_new bufmap1 cfg (server_bufsize srv) counter1 (next_chan srv)
                        (thread_idx srv)), net2)))"

text \<open>A listener over a sequence of datagrams, until it stops.\<close>

fun server_run ::
    "(socket_addr \<Rightarrow> u64) \<Rightarrow> (nat \<Rightarrow> bool) \<Rightarrow> nat \<Rightarrow> received list \<Rightarrow> statsd_server option \<Rightarrow> socket_addr net
      \<Rightarrow> panic + statsd_server option \<times> socket_addr net" where
  "server_run hash accepts n [] srv net = Inr (srv, net)"
| "server_run hash accepts n (r # rs) None net = Inr (None, net)"
| "server_run hash accepts n (r # rs) (Some srv) net =
    (case server_receive hash accepts n r srv net of
       Inl p \<Rightarrow> Inl p
     | Inr (srv', net') \<Rightarrow> server_run hash accepts n rs srv' net')"

section \<open>Flushing\<close>

lemma fold_server_flush_log:
  "map (\<lambda>p. (ps_source p, ps_payload p)) (net_log (snd (fold (server_flush hash accepts cfg n) m (nxt, net))))
    = map (\<lambda>p. (ps_source p, ps_payload p)) (net_log net) @ m"
proof (induction m arbitrary: nxt net)
  case Nil
  show ?case by simp
next
  case (Cons e m)
  obtain nxt' net' where step: "server_flush hash accepts cfg n e (nxt, net) = (nxt', net')"
    by (cases "server_flush hash accepts cfg n e (nxt, net)")
  then have "map (\<lambda>p. (ps_source p, ps_payload p)) (net_log net') =
      map (\<lambda>p. (ps_source p, ps_payload p)) (net_log net) @ [e]"
    by (cases e) (auto simp: server_flush_def Let_def split: prod.splits)
  with Cons.IH [of nxt' net'] step show ?case by simp
qed

lemma flushed_log:
  "flushed net a = payload_from (map (\<lambda>p. (ps_source p, ps_payload p)) (net_log net)) a"
  by (simp add: flushed_def payload_from_def filter_map comp_def)

lemma fold_server_flush_flushed:
  "hm_wf m \<Longrightarrow> flushed (snd (fold (server_flush hash accepts cfg n) m (nxt, net))) a =
    flushed net a @ pending m a"
  by (simp add: flushed_log fold_server_flush_log payload_from_map)

lemma fold_server_flush_flags:
  "flush_flags (snd (fold (server_flush hash accepts cfg n) m (nxt, net))) = flush_flags net"
proof (induction m arbitrary: nxt net)
  case Nil
  show ?case by simp
next
  case (Cons e m)
  then show ?case
    by (cases "server_flush hash accepts cfg n e (nxt, net)")
      (auto simp: server_flush_def Let_def split: prod.splits)
qed

text \<open>
  A property of every attempted send, kept by the flush if it holds of the entry that the
  flush makes for each buffer.
\<close>

lemma fold_server_flush_all:
  assumes "\<And>addr buf nxt. Q \<lparr>ps_chan = fst (choose_chan cfg n (hash addr) nxt), ps_source = addr,
      ps_hash = hash addr, ps_payload = buf, ps_accepted = accepts (fst (choose_chan cfg n (hash addr) nxt))\<rparr>"
    and "\<forall>p \<in> set (net_log net). Q p"
  shows "\<forall>p \<in> set (net_log (snd (fold (server_flush hash accepts cfg n) m (nxt, net)))). Q p"
  using assms(2)
proof (induction m arbitrary: nxt net)
  case Nil
  then show ?case by simp
next
  case (Cons e m)
  obtain nxt' net' where step: "server_flush hash accepts cfg n e (nxt, net) = (nxt', net')"
    by (cases "server_flush hash accepts cfg n e (nxt, net)")
  then have "\<forall>p \<in> set (net_log net'). Q p"
    using Cons.prems assms(1) by (cases e) (auto simp: server_flush_def Let_def case_prod_unfold)
  with Cons.IH [of net' nxt'] step show ?case by simp
qed

section \<open>The contract\<close>

text \<open>One datagram after the other; a state is the server and its surroundings.\<close>

definition server_feed ::
    "(socket_addr \<Rightarrow> u64) \<Rightarrow> (nat \<Rightarrow> bool) \<Rightarrow> nat \<Rightarrow> socket_addr \<times> bytes
      \<Rightarrow> statsd_server \<times> socket_addr net \<Rightarrow> statsd_server \<times> socket_addr net" where
  "server_feed hash accepts n d s =
    (case server_receive hash accepts n (Datagram (snd d) (fst d)) (fst s) (snd s) of
       Inr (Some srv, net) \<Rightarrow> (srv, net)
     | _ \<Rightarrow> s)"

definition server_ok :: "nat \<Rightarrow> statsd_server \<times> socket_addr net \<Rightarrow> bool" where
  "server_ok n s \<longleftrightarrow> 0 < n \<and> thread_idx (fst s) < length (flush_flags (snd s)) \<and> hm_wf (bufmap (fst s))"

lemma flushed_update [simp]:
  "flushed (net\<lparr>net_stats := c\<rparr>) a = flushed net a"
  "flushed (net\<lparr>flush_flags := f\<rparr>) a = flushed net a"
  by (simp_all add: flushed_def)

lemma server_receive_datagram:
  assumes "server_ok n (srv, net)" and "payload \<noteq> []"
  shows "\<exists>srv' net'. server_receive hash accepts n (Datagram payload addr) srv net = Inr (Some srv', net') \<and>
    server_ok n (srv', net') \<and>
    flushed net' a @ pending (bufmap srv') a =
      flushed net a @ pending (bufmap srv) a @ (if a = addr then payload else [])"
proof -
  let ?m = "append_buffer addr payload (bufmap srv)"
  let ?cfg = "server_config srv"
  let ?net = "net\<lparr>net_stats := add_ingress 1 (net_stats net),
    flush_flags := (flush_flags net)[thread_idx srv := False]\<rparr>"
  obtain nxt' net' where fl: "fold (server_flush hash accepts ?cfg n) ?m (next_chan srv, ?net) = (nxt', net')"
    by (cases "fold (server_flush hash accepts ?cfg n) ?m (next_chan srv, ?net)")
  have wf: "hm_wf ?m" using assms(1) by (simp add: server_ok_def)
  have "flushed net' a = flushed ?net a @ pending ?m a" and "flush_flags net' = flush_flags ?net"
    using fold_server_flush_flushed [OF wf, of hash accepts ?cfg n "next_chan srv" ?net a]
      fold_server_flush_flags [of hash accepts ?cfg n ?m "next_chan srv" ?net] fl
    by simp_all
  with assms fl wf show ?thesis
    by (auto simp: server_receive_def server_ok_def Let_def statsd_server_new_def)
qed

lemma server_feed_spec:
  assumes "server_ok n s" and "snd d \<noteq> []"
  shows "server_ok n (server_feed hash accepts n d s) \<and>
    flushed (snd (server_feed hash accepts n d s)) a
      @ pending (bufmap (fst (server_feed hash accepts n d s))) a =
    flushed (snd s) a @ pending (bufmap (fst s)) a @ (if fst d = a then snd d else [])"
  using server_receive_datagram [of n "fst s" "snd s" "snd d" hash accepts "fst d" a] assms
  by (auto simp: server_feed_def)

interpretation async: front_end "fold (server_feed hash accepts n)" "\<lambda>s. flushed (snd s)"
    "\<lambda>s. pending (bufmap (fst s))" "server_ok n" "\<lambda>batch. \<forall>d \<in> set batch. snd d \<noteq> []"
  for hash accepts n
proof unfold_locales
  fix s :: "statsd_server \<times> socket_addr net" and batch :: "(socket_addr \<times> bytes) list" and a
  assume "server_ok n s" and "\<forall>d \<in> set batch. snd d \<noteq> []"
  then show "server_ok n (fold (server_feed hash accepts n) batch s)"
    by (induction batch arbitrary: s) (use server_feed_spec in auto)
next
  fix s :: "statsd_server \<times> socket_addr net" and batch :: "(socket_addr \<times> bytes) list" and a
  assume "server_ok n s" and "\<forall>d \<in> set batch. snd d \<noteq> []"
  then show "flushed (snd (fold (server_feed hash accepts n) batch s)) a
      @ pending (bufmap (fst (fold (server_feed hash accepts n) batch s))) a
    = flushed (snd s) a @ pending (bufmap (fst s)) a @ payload_from batch a"
  proof (induction batch arbitrary: s)
    case Nil
    show ?case by simp
  next
    case (Cons d batch)
    from Cons.prems have d: "server_ok n s" "snd d \<noteq> []" by auto
    from server_feed_spec [OF d] Cons.prems have "server_ok n (server_feed hash accepts n d s)" by blast
    with Cons.IH Cons.prems server_feed_spec [OF d, of hash accepts a] show ?case
      by (cases d) simp
  qed
qed

text \<open>The listener itself is the feed, as long as no empty datagram and no error arrives.\<close>

lemma server_run_feed:
  assumes "server_ok n (srv, net)" and "\<forall>d \<in> set ds. snd d \<noteq> []"
  shows "server_run hash accepts n (map (\<lambda>d. Datagram (snd d) (fst d)) ds) (Some srv) net =
    Inr (map_prod Some id (fold (server_feed hash accepts n) ds (srv, net)))"
  using assms
proof (induction ds arbitrary: srv net)
  case Nil
  show ?case by simp
next
  case (Cons d ds)
  obtain srv' net' where step:
      "server_receive hash accepts n (Datagram (snd d) (fst d)) srv net = Inr (Some srv', net')"
      "server_ok n (srv', net')"
    using server_receive_datagram [of n srv net "snd d" hash accepts "fst d"] Cons.prems by force
  then have "server_feed hash accepts n d (srv, net) = (srv', net')"
    by (simp add: server_feed_def)
  with step Cons show ?case by simp
qed

section \<open>Buffered bytes, channels and counters\<close>

definition held :: "('a, bytes) hash_map \<Rightarrow> nat" where
  "held m = sum_list (map (length \<circ> snd) m)"

lemma held_append_buffer [simp]: "held (append_buffer a p m) = held m + length p"
proof -
  have "held (hm_insert a (pending m a @ p) m) = held m + length p"
    by (induction m) (auto simp: held_def pending_def)
  then show ?thesis by (simp add: append_buffer_def)
qed

definition server_held_ok :: "statsd_server \<Rightarrow> bool" where
  "server_held_ok srv \<longleftrightarrow> recv_counter srv = of_nat (held (bufmap srv)) \<and>
    (bufmap srv = [] \<or> held (bufmap srv) < unat (buffer_flush_length (network (server_config srv))))"

lemma server_receive_held:
  assumes "server_receive hash accepts n (Datagram payload addr) srv net = Inr (Some srv', net')"
    and "server_held_ok srv" and "length payload < 2 ^ 16"
    and "unat (buffer_flush_length (network (server_config srv))) < 2 ^ 63"
  shows "server_held_ok srv' \<and> server_config srv' = server_config srv"
proof -
  let ?k = "held (bufmap srv) + length payload"
  have "held (bufmap srv) < 2 ^ 63"
    using assms(2,4) by (auto simp: server_held_ok_def held_def)
  with assms(3) have "unat (of_nat ?k :: usize) = ?k"
    by (simp add: unsigned_of_nat take_bit_nat_eq_self del: of_nat_add)
  then have "\<not> buffer_flush_length (network (server_config srv)) \<le> (of_nat ?k :: usize) \<Longrightarrow>
      ?k < unat (buffer_flush_length (network (server_config srv)))"
    by (simp add: word_le_nat_alt)
  with assms(1,2) show ?thesis
    by (auto simp: server_receive_def server_held_ok_def statsd_server_new_def Let_def held_def [of "[]"]
        case_prod_unfold split: if_splits)
qed

text \<open>
  The round-robin choice: the \<open>i\<close>-th send goes \<open>i\<close> workers further than the first one. A
  position out of range, which a listener may start with, counts as 0.
\<close>

definition wrap :: "nat \<Rightarrow> nat \<Rightarrow> nat" where
  "wrap n nxt = (if n \<le> nxt then 0 else nxt)"

definition rr_aligned :: "nat \<Rightarrow> nat \<Rightarrow> nat \<Rightarrow> socket_addr net \<Rightarrow> bool" where
  "rr_aligned n start nxt net \<longleftrightarrow>
    wrap n nxt = (start + length (net_log net)) mod n \<and>
    map ps_chan (net_log net) = map (\<lambda>i. (start + i) mod n) [0..<length (net_log net)]"

lemma wrap_less: "0 < n \<Longrightarrow> wrap n k < n"
  by (simp add: wrap_def)

lemma wrap_Suc: "k < n \<Longrightarrow> wrap n (Suc k) = Suc k mod n"
  by (auto simp: wrap_def le_less_Suc_eq le_Suc_eq Suc_le_eq not_le)

lemma rr_aligned_flush:
  assumes "\<not> consistent_parsing (metrics cfg)" and "0 < n" and "rr_aligned n start (fst s) (snd s)"
  shows "rr_aligned n start (fst (server_flush hash accepts cfg n e s)) (snd (server_flush hash accepts cfg n e s))"
proof -
  obtain nxt net where s: "s = (nxt, net)" by (cases s)
  have "wrap n (Suc (wrap n nxt)) = Suc (start + length (net_log net)) mod n"
    using assms by (simp add: rr_aligned_def s wrap_Suc mod_Suc_eq)
  with assms show ?thesis
    by (cases e) (simp add: server_flush_def choose_chan_def rr_aligned_def Let_def s flip: wrap_def)
qed

lemma rr_aligned_fold:
  assumes "\<not> consistent_parsing (metrics cfg)" and "0 < n" and "rr_aligned n start (fst s) (snd s)"
  shows "rr_aligned n start (fst (fold (server_flush hash accepts cfg n) m s))
    (snd (fold (server_flush hash accepts cfg n) m s))"
  using assms(3) by (induction m arbitrary: s) (simp_all add: rr_aligned_flush [OF assms(1,2)])

lemma rr_aligned_update [simp]:
  "rr_aligned n start k (net\<lparr>net_stats := c, flush_flags := f\<rparr>) = rr_aligned n start k net"
  "rr_aligned n start k (net\<lparr>net_stats := c\<rparr>) = rr_aligned n start k net"
  by (simp_all add: rr_aligned_def)

lemma server_receive_rr:
  assumes "server_receive hash accepts n r srv net = Inr (srv', net')"
    and "\<not> consistent_parsing (metrics (server_config srv))" and "rr_aligned n start (next_chan srv) net"
  shows "case srv' of
      Some srv' \<Rightarrow> rr_aligned n start (next_chan srv') net' \<and> server_config srv' = server_config srv
    | None \<Rightarrow> \<exists>k. rr_aligned n start k net'"
  using assms rr_aligned_fold [OF assms(2), of n start "(next_chan srv, net\<lparr>net_stats := c, flush_flags := f\<rparr>)" for c f]
  by (auto simp: server_receive_def statsd_server_new_def Let_def case_prod_unfold
      split: if_splits received.splits)

text \<open>Every attempted send goes to an existing worker, the one the hash selects in consistent mode.\<close>

definition well_routed :: "(socket_addr \<Rightarrow> u64) \<Rightarrow> system_config \<Rightarrow> nat \<Rightarrow> socket_addr parse_send \<Rightarrow> bool" where
  "well_routed hash cfg n p \<longleftrightarrow> ps_chan p < n \<and> ps_hash p = hash (ps_source p) \<and>
    (consistent_parsing (metrics cfg) \<longrightarrow> ps_chan p = unat (hash (ps_source p)) mod n)"

lemma server_receive_routed:
  assumes "server_receive hash accepts n r srv net = Inr (srv', net')"
    and "\<forall>p \<in> set (net_log net). well_routed hash (server_config srv) n p"
  shows "(\<forall>p \<in> set (net_log net'). well_routed hash (server_config srv) n p) \<and>
    (case srv' of Some srv' \<Rightarrow> server_config srv' = server_config srv | None \<Rightarrow> True)"
proof -
  have "0 < n \<Longrightarrow> \<forall>p \<in> set (net_log (snd (fold (server_flush hash accepts (server_config srv) n) m
      (nxt, net\<lparr>net_stats := c, flush_flags := f\<rparr>)))). well_routed hash (server_config srv) n p" for m nxt c f
    by (rule fold_server_flush_all) (use assms(2) in \<open>auto simp: well_routed_def choose_chan_def Let_def\<close>)
  with assms show ?thesis
    by (auto simp: server_receive_def statsd_server_new_def Let_def case_prod_unfold
        split: if_splits received.splits)
qed

text \<open>Rejected sends are what \<open>DROPS\<close> counts, datagrams are what \<open>INGRESS\<close> counts.\<close>

definition rejected :: "'a net \<Rightarrow> nat" where
  "rejected net = length (filter (\<lambda>p. \<not> ps_accepted p) (net_log net))"

lemma server_flush_stats:
  "INGRESS (net_stats (snd (server_flush hash accepts cfg n e s))) = INGRESS (net_stats (snd s)) \<and>
   DROPS (net_stats (snd (server_flush hash accepts cfg n e s))) - of_nat (rejected (snd (server_flush hash accepts cfg n e s)))
     = DROPS (net_stats (snd s)) - of_nat (rejected (snd s))"
  by (cases e; cases s) (simp add: server_flush_def rejected_def Let_def case_prod_unfold)

lemma fold_server_flush_stats:
  "INGRESS (net_stats (snd (fold (server_flush hash accepts cfg n) m s))) = INGRESS (net_stats (snd s)) \<and>
   DROPS (net_stats (snd (fold (server_flush hash accepts cfg n) m s)))
       - of_nat (rejected (snd (fold (server_flush hash accepts cfg n) m s)))
     = DROPS (net_stats (snd s)) - of_nat (rejected (snd s))"
  by (induction m arbitrary: s) (simp_all add: server_flush_stats)

lemma server_receive_stats:
  assumes "server_receive hash accepts n (Datagram payload addr) srv net = Inr (srv', net')"
  shows "INGRESS (net_stats net') = INGRESS (net_stats net) + 1 \<and>
    DROPS (net_stats net') - of_nat (rejected net') = DROPS (net_stats net) - of_nat (rejected net)"
  using assms fold_server_flush_stats [of hash accepts "server_config srv" n _ "(next_chan srv, _)"]
  by (auto simp: server_receive_def Let_def case_prod_unfold rejected_def split: if_splits)

section \<open>Runs of a listener\<close>

lemma server_run_None [simp]: "server_run hash accepts n rs None net = Inr (None, net)"
  by (cases rs) simp_all

lemma server_run_invariant:
  assumes "server_run hash accepts n rs srv net = Inr (srv', net')" and "I srv net"
    and "\<And>r srv net srv' net'. r \<in> set rs \<Longrightarrow> I (Some srv) net \<Longrightarrow>
      server_receive hash accepts n r srv net = Inr (srv', net') \<Longrightarrow> I srv' net'"
  shows "I srv' net'"
  using assms
proof (induction rs arbitrary: srv net)
  case Nil
  then show ?case by simp
next
  case (Cons r rs)
  show ?case
  proof (cases srv)
    case None
    with Cons.prems show ?thesis by simp
  next
    case (Some s)
    with Cons.prems(1) obtain s1 net1 where
      step: "server_receive hash accepts n r s net = Inr (s1, net1)"
        "server_run hash accepts n rs s1 net1 = Inr (srv', net')"
      by (auto split: sum.splits)
    then have "I s1 net1" using Cons.prems(2) Cons.prems(3) [of r s net s1 net1] Some by simp
    then show ?thesis by (rule Cons.IH [OF step(2)]) (rule Cons.prems(3), simp_all)
  qed
qed

lemma server_run_append:
  "server_run hash accepts n (rs @ rs') srv net =
    (case server_run hash accepts n rs srv net of
       Inl p \<Rightarrow> Inl p
     | Inr (srv', net') \<Rightarrow> server_run hash accepts n rs' srv' net')"
proof (induction rs arbitrary: srv net)
  case Nil
  show ?case by simp
next
  case (Cons r rs)
  then show ?case by (cases srv) (auto split: sum.splits)
qed

abbreviation datagrams :: "(socket_addr \<times> bytes) list \<Rightarrow> received list" where
  "datagrams ds \<equiv> map (\<lambda>d. Datagram (snd d) (fst d)) ds"

abbreviation server_start :: "system_config \<Rightarrow> nat \<Rightarrow> nat \<Rightarrow> statsd_server option" where
  "server_start cfg bsize i \<equiv> Some (statsd_server_new [] cfg bsize 0 i i)"

abbreviation fresh_net :: "bool list \<Rightarrow> counters \<Rightarrow> 'a net" where
  "fresh_net flags c \<equiv> \<lparr>flush_flags = flags, net_stats = c, net_log = []\<rparr>"

lemma server_start_ok: "0 < n \<Longrightarrow> i < length flags \<Longrightarrow>
    server_ok n (statsd_server_new [] cfg bsize 0 i i, fresh_net flags c)"
  by (simp add: server_ok_def statsd_server_new_def hm_wf_def hm_keys_def)

lemma async_run_bytes:
  assumes "0 < n" and "i < length flags" and "\<forall>d \<in> set ds. snd d \<noteq> []"
  shows "\<exists>srv net. server_run hash accepts n (datagrams ds) (server_start cfg bsize i) (fresh_net flags c)
      = Inr (Some srv, net) \<and>
    (\<forall>a. flushed net a @ pending (bufmap srv) a = payload_from ds a)"
proof -
  let ?s = "(statsd_server_new [] cfg bsize 0 i i, fresh_net flags c)"
  have ok: "server_ok n ?s" using assms by (simp add: server_start_ok)
  have "flushed (snd (fold (server_feed hash accepts n) ds ?s)) a
      @ pending (bufmap (fst (fold (server_feed hash accepts n) ds ?s))) a = payload_from ds a" for a
    using async.receive_bytes [OF ok assms(3), of hash accepts a]
    by (simp add: flushed_def statsd_server_new_def)
  with server_run_feed [OF ok assms(3), of hash accepts] show ?thesis
    by (cases "fold (server_feed hash accepts n) ds ?s") simp
qed

lemma server_run_routed:
  assumes "server_run hash accepts n rs (server_start cfg bsize i) (fresh_net flags c) = Inr (srv, net)"
  shows "\<forall>p \<in> set (net_log net). well_routed hash cfg n p"
proof -
  have "(\<forall>p \<in> set (net_log net). well_routed hash cfg n p) \<and>
      (case srv of Some srv \<Rightarrow> server_config srv = cfg | None \<Rightarrow> True)"
    by (rule server_run_invariant [OF assms])
      (auto simp: statsd_server_new_def dest!: server_receive_routed)
  then show ?thesis by simp
qed

lemma server_held_start:
  "server_held_ok (statsd_server_new [] cfg bsize 0 i i) \<and>
    server_config (statsd_server_new [] cfg bsize 0 i i) = cfg"
  by (simp add: server_held_ok_def statsd_server_new_def held_def)

text \<open>
  Accounting of the asynchronous server: \<open>INGRESS\<close> grows by one per datagram and \<open>DROPS\<close>
  by one per buffer that no worker took, modulo the width of the counters.
\<close>

lemma async_server_accounts:
  assumes "server_run hash accepts n (datagrams ds) (server_start cfg bsize i) (fresh_net flags c) = Inr (Some srv, net)"
  shows "INGRESS (net_stats net) = INGRESS c + of_nat (length ds) \<and>
    DROPS (net_stats net) = DROPS c + of_nat (rejected net)"
  using assms
proof (induction ds arbitrary: srv net rule: rev_induct)
  case Nil
  then show ?case by (auto simp: rejected_def)
next
  case (snoc d ds)
  from snoc.prems obtain srv1 net1 where
    step: "server_run hash accepts n (datagrams ds) (server_start cfg bsize i) (fresh_net flags c) = Inr (Some srv1, net1)"
      "server_receive hash accepts n (Datagram (snd d) (fst d)) srv1 net1 = Inr (Some srv, net)"
    by (cases "server_run hash accepts n (datagrams ds) (server_start cfg bsize i) (fresh_net flags c)")
      (auto simp: server_run_append split: sum.splits option.splits prod.splits elim: server_run.elims)
  from snoc.IH [OF step(1)] server_receive_stats [OF step(2)] show ?case
    by (simp add: algebra_simps)
qed

text \<open>If every worker takes tasks, every send is accepted.\<close>

lemma server_receive_accepted:
  assumes "server_receive hash accepts n r srv net = Inr (srv', net')" and "\<forall>k < n. accepts k" and "all_accepted net"
  shows "all_accepted net'"
proof -
  have "0 < n \<Longrightarrow> all_accepted (snd (fold (server_flush hash accepts (server_config srv) n) m
      (nxt, net\<lparr>net_stats := c, flush_flags := f\<rparr>)))" for m nxt c f
    unfolding all_accepted_def
    by (rule fold_server_flush_all) (use assms(2,3) in \<open>auto simp: all_accepted_def choose_chan_def Let_def\<close>)
  with assms(1,3) show ?thesis
    by (auto simp: server_receive_def all_accepted_def Let_def case_prod_unfold split: if_splits received.splits)
qed

lemma server_run_accepted:
  assumes "server_run hash accepts n rs srv (fresh_net flags c) = Inr (srv', net')" and "\<forall>k < n. accepts k"
  shows "all_accepted net'"
  by (rule server_run_invariant [where I = "\<lambda>srv. all_accepted", OF assms(1)])
    (use assms(2) server_receive_accepted in \<open>auto simp: all_accepted_def [of "fresh_net flags c"]\<close>)

text \<open>Two senders and a configuration that flushes at four bytes.\<close>

definition sample_hash :: "socket_addr \<Rightarrow> u64" where
  "sample_hash a = (case a of SocketAddrV4 _ _ _ _ p \<Rightarrow> ucast p | SocketAddrV6 _ p _ _ \<Rightarrow> ucast p)"

definition sample_datagrams :: "(socket_addr \<times> bytes) list" where
  "sample_datagrams =
    [(SocketAddrV4 10 0 0 1 5, ''x:''), (SocketAddrV4 10 0 0 2 8, ''y''), (SocketAddrV4 10 0 0 1 5, ''1|c''),
     (SocketAddrV4 10 0 0 2 8, ''z'')]"

definition sample_config :: "bool \<Rightarrow> system_config" where
  "sample_config b = system_default\<lparr>network := network_default\<lparr>buffer_flush_length := 4\<rparr>,
    metrics := metrics_default\<lparr>consistent_parsing := b\<rparr>\<rparr>"

section \<open>Properties\<close>

text \<open>
  C17. A listener of the asynchronous server neither loses, duplicates nor reorders the bytes
  of a sender: over every sequence of non-empty datagrams it keeps running, and for every
  address what it has flushed followed by what it still buffers is the concatenation of the
  datagrams of that address, whatever the flush flags, the flush length and the iteration order
  of the hash map are. What it has flushed was taken by workers or refused by them; \<open>DROPS\<close>
  counts the refused buffers. If all workers take tasks, all that was flushed is passed on, in
  order.
\<close>

theorem async_server_keeps_bytes:
  assumes "0 < n" and "i < length flags" and "\<forall>d \<in> set ds. snd d \<noteq> []"
  shows "\<exists>srv net. server_run hash accepts n (datagrams ds) (server_start cfg bsize i) (fresh_net flags c)
      = Inr (Some srv, net) \<and>
    (\<forall>a. flushed net a @ pending (bufmap srv) a = payload_from ds a \<and>
      mset (flushed net a) = mset (passed_on net a) + mset (refused net a)) \<and>
    DROPS (net_stats net) = DROPS c + of_nat (rejected net) \<and>
    ((\<forall>k < n. accepts k) \<longrightarrow> (\<forall>a. passed_on net a @ pending (bufmap srv) a = payload_from ds a))"
proof -
  obtain srv net where run: "server_run hash accepts n (datagrams ds) (server_start cfg bsize i) (fresh_net flags c)
      = Inr (Some srv, net)" and bytes: "\<forall>a. flushed net a @ pending (bufmap srv) a = payload_from ds a"
    using async_run_bytes [OF assms] by blast
  have "passed_on net a = flushed net a" if "\<forall>k < n. accepts k" for a
    by (rule passed_on_all [OF server_run_accepted [OF run that]])
  with run bytes async_server_accounts [OF run] show ?thesis by (auto simp: flushed_split)
qed

theorem async_server_keeps_bytes_witness:
  "\<exists>srv net. server_run sample_hash (\<lambda>k. True) 3 (datagrams sample_datagrams)
    (server_start (sample_config True) 1500 0) (fresh_net [False] counters_init) = Inr (Some srv, net) \<and>
    passed_on net (SocketAddrV4 10 0 0 2 8) @ pending (bufmap srv) (SocketAddrV4 10 0 0 2 8) = ''yz''"
proof -
  have "\<forall>d \<in> set sample_datagrams. snd d \<noteq> []" by (simp add: sample_datagrams_def)
  moreover have "0 < (3::nat)" and "0 < length [False]" by simp_all
  ultimately obtain srv net where
    "server_run sample_hash (\<lambda>k. True) 3 (datagrams sample_datagrams)
      (server_start (sample_config True) 1500 0) (fresh_net [False] counters_init) = Inr (Some srv, net)"
    and "\<forall>a. passed_on net a @ pending (bufmap srv) a = payload_from sample_datagrams a"
    using async_server_keeps_bytes [of 3 0 "[False]" sample_datagrams sample_hash "\<lambda>k. True"] by blast
  moreover have "payload_from sample_datagrams (SocketAddrV4 10 0 0 2 8) = ''yz''"
    by (simp add: sample_datagrams_def)
  ultimately show ?thesis by (intro exI conjI) (assumption, simp)
qed

text \<open>
  Routing of the asynchronous server: every buffer goes to an existing worker together
  with the hash of its sender. With consistent parsing the worker is a function of the
  sender alone, so one worker parses all of a sender's bytes; otherwise the buffers go round
  the workers one by one, whatever is received.
\<close>

lemma async_server_routing:
  assumes "server_run hash accepts n rs (server_start cfg bsize i) (fresh_net flags c) = Inr (srv, net)"
  shows "(\<forall>p \<in> set (net_log net). ps_chan p < n \<and> ps_hash p = hash (ps_source p)) \<and>
    (if consistent_parsing (metrics cfg) then
       \<forall>p \<in> set (net_log net). ps_chan p = unat (hash (ps_source p)) mod n
     else map ps_chan (net_log net) =
       map (\<lambda>k. ((if n \<le> i then 0 else i) + k) mod n) [0..<length (net_log net)])"
proof -
  have "\<forall>p \<in> set (net_log net). well_routed hash cfg n p" by (rule server_run_routed [OF assms])
  moreover have "\<exists>k. rr_aligned n (wrap n i) k net" if "\<not> consistent_parsing (metrics cfg)"
  proof -
    have "case srv of Some srv \<Rightarrow> rr_aligned n (wrap n i) (next_chan srv) net \<and> server_config srv = cfg
        | None \<Rightarrow> \<exists>k. rr_aligned n (wrap n i) k net"
      by (rule server_run_invariant [OF assms])
        (use that in \<open>auto simp: statsd_server_new_def rr_aligned_def wrap_def dest!: server_receive_rr\<close>)
    then show ?thesis by (auto split: option.splits)
  qed
  ultimately show ?thesis
    by (auto simp: well_routed_def rr_aligned_def wrap_def)
qed

text \<open>
  C33. A listener's receive counter is the number of bytes it buffers, and that number stays
  below the flush length (none at all if the flush length is 0), for datagrams of fewer than
  \<open>2 ^ 16\<close> bytes and a flush length below \<open>2 ^ 63\<close>.
\<close>

theorem async_server_buffer_bound:
  assumes "server_run hash accepts n (datagrams ds) (server_start cfg bsize i) (fresh_net flags c) = Inr (Some srv, net)"
    and "\<forall>d \<in> set ds. length (snd d) < 2 ^ 16"
    and "unat (buffer_flush_length (network cfg)) < 2 ^ 63"
  shows "unat (recv_counter srv) = held (bufmap srv) \<and>
    held (bufmap srv) < max 1 (unat (buffer_flush_length (network cfg)))"
proof -
  have "case Some srv of Some srv \<Rightarrow> server_held_ok srv \<and> server_config srv = cfg | None \<Rightarrow> True"
    by (rule server_run_invariant [OF assms(1)])
      (use assms(2,3) in \<open>auto simp: server_held_start split: option.splits dest!: server_receive_held\<close>)
  then have "recv_counter srv = of_nat (held (bufmap srv))"
    and "held (bufmap srv) < max 1 (unat (buffer_flush_length (network cfg)))"
    by (auto simp: server_held_ok_def held_def less_max_iff_disj)
  with assms(3) show ?thesis by (simp add: unsigned_of_nat take_bit_nat_eq_self)
qed

theorem async_server_buffer_bound_witness:
  "\<exists>srv net. server_run sample_hash (\<lambda>k. k < 2) 3 (datagrams sample_datagrams)
    (server_start (sample_config True) 1500 0) (fresh_net [False] counters_init) = Inr (Some srv, net) \<and> unat (recv_counter srv) = held (bufmap srv) \<and> held (bufmap srv) < 4"
proof -
  have "map_sum id (\<lambda>(srv, net). srv \<noteq> None) (server_run sample_hash (\<lambda>k. k < 2) 3 (datagrams sample_datagrams)
    (server_start (sample_config True) 1500 0) (fresh_net [False] counters_init)) = Inr True" by code_simp
  then obtain srv net where run: "server_run sample_hash (\<lambda>k. k < 2) 3 (datagrams sample_datagrams)
    (server_start (sample_config True) 1500 0) (fresh_net [False] counters_init) = Inr (Some srv, net)"
    by (cases "server_run sample_hash (\<lambda>k. k < 2) 3 (datagrams sample_datagrams)
    (server_start (sample_config True) 1500 0) (fresh_net [False] counters_init)") auto
  have len: "\<forall>d \<in> set sample_datagrams. length (snd d) < 2 ^ 16" by (simp add: sample_datagrams_def)
  have fl: "unat (buffer_flush_length (network (sample_config True))) = 4" by code_simp
  from async_server_buffer_bound [OF run len] fl run show ?thesis by auto
qed

text \<open>
  C36. An empty datagram ends a listener of the asynchronous server for good: nothing that
  arrives afterwards is received, and the bytes buffered at that moment are never sent.
\<close>

theorem empty_datagram_stops_listener:
  assumes "0 < n" and "i < length flags" and "\<forall>d \<in> set ds. snd d \<noteq> []"
  shows "\<exists>srv net. server_run hash accepts n (datagrams ds) (server_start cfg bsize i) (fresh_net flags c)
      = Inr (Some srv, net) \<and>
    server_run hash accepts n (datagrams ds @ Datagram [] addr # rs) (server_start cfg bsize i) (fresh_net flags c)
      = Inr (None, net\<lparr>net_stats := add_ingress 1 (net_stats net)\<rparr>)"
  using server_run_feed [OF server_start_ok [OF assms(1,2)] assms(3)]
  by (cases "fold (server_feed hash accepts n) ds (statsd_server_new [] cfg bsize 0 i i, fresh_net flags c)")
    (simp add: server_run_append server_receive_def)

theorem empty_datagram_stops_listener_witness:
  "\<exists>net. server_run sample_hash (\<lambda>k. k < 2) 3
      (datagrams sample_datagrams @ Datagram [] (SocketAddrV4 10 0 0 2 8) # datagrams sample_datagrams)
      (server_start (sample_config True) 1500 0) (fresh_net [False] counters_init) = Inr (None, net)"
proof -
  have "\<forall>d \<in> set sample_datagrams. snd d \<noteq> []" by (simp add: sample_datagrams_def)
  from empty_datagram_stops_listener [OF _ _ this, of 3 0 "[False]" sample_hash "\<lambda>k. k < 2" "sample_config True" 1500 counters_init
      "SocketAddrV4 10 0 0 2 8" "datagrams sample_datagrams"]
  show ?thesis by auto
qed

end
