(* ===== verification/Udp.thy ===== *)
theory Udp
  imports Server
begin

text \<open>
  \<^verbatim>\<open>src/udp.rs\<close>: the receiving threads of the synchronous (multimessage) mode, with the
  buffers they share with the \<open>recvmmsg\<close> system call at their addresses, and the listeners
  that the asynchronous mode starts. The system call is a parameter: it gets the datagrams
  it delivers and the memory that the headers describe, and returns its result and the new
  memory. The source of a datagram is the socket address the kernel writes, sixteen bytes
  for the IPv4 sockets that the code opens.
\<close>

section \<open>Memory shared with the kernel\<close>

text \<open>
  Pointers are positions: \<open>iov_base\<close> in the receive buffer, \<open>msg_name\<close> in the vector of
  addresses. The control fields of a header are null throughout.
\<close>

record iovec =
  iov_base :: usize
  iov_len :: usize

record mmsghdr =
  msg_name :: nat
  msg_namelen :: u32
  msg_iov :: "iovec option"
  msg_iovlen :: nat
  msg_len :: u32

record mm_mem =
  mheaders :: "mmsghdr list"
  addrs :: "bytes list"
  recv_buffer :: bytes

record mm_state =
  mem :: mm_mem
  mm_bufmap :: "(bytes, bytes) hash_map"
  total_received :: usize
  ichans :: nat

definition no_addr :: bytes where
  "no_addr = replicate 20 (CHR 0x00)"

text \<open>Slicing \<open>v[a..b]\<close>, which panics when \<open>slice_ok\<close> fails.\<close>

definition slice_ok :: "usize \<Rightarrow> usize \<Rightarrow> bytes \<Rightarrow> bool" where
  "slice_ok a b v \<longleftrightarrow> a \<le> b \<and> unat b \<le> length v"

definition slice_of :: "usize \<Rightarrow> usize \<Rightarrow> bytes \<Rightarrow> bytes" where
  "slice_of a b v = take (unat b - unat a) (drop (unat a) v)"

definition mheader_init :: "nat \<Rightarrow> mmsghdr" where
  "mheader_init i = \<lparr>msg_name = i, msg_namelen = 20, msg_iov = None, msg_iovlen = 0, msg_len = 0\<rparr>"

definition mm_min_bytes :: "usize \<Rightarrow> usize \<Rightarrow> usize" where
  "mm_min_bytes packets bsize = packets * packets * bsize"

definition mm_rowsize :: "usize \<Rightarrow> usize \<Rightarrow> usize" where
  "mm_rowsize packets bsize = bsize * packets"

text \<open>What a thread prepares before its loop: headers, one row of the buffer for each of them.\<close>

definition mm_chunk :: "usize \<Rightarrow> nat \<Rightarrow> iovec" where
  "mm_chunk rowsize i = \<lparr>iov_base = of_nat i * rowsize, iov_len = rowsize\<rparr>"

definition mm_setup :: "usize \<Rightarrow> usize \<Rightarrow> panic + mm_state" where
  "mm_setup packets bsize =
    (let buf = replicate (unat (mm_min_bytes packets bsize)) (CHR 0x00);
         rowsize = mm_rowsize packets bsize in
     if list_all (\<lambda>i. slice_ok (of_nat i * rowsize) (of_nat i * rowsize + rowsize) buf) [0..<unat packets]
     then Inr
       \<lparr>mem = \<lparr>mheaders = map (\<lambda>i. (mheader_init i)\<lparr>msg_iov := Some (mm_chunk rowsize i), msg_iovlen := 1\<rparr>) [0..<unat packets],
          addrs = replicate (unat packets) no_addr, recv_buffer = buf\<rparr>,
        mm_bufmap = [], total_received = 0, ichans = 0\<rparr>
     else Inl (Panic ''slice index out of range''))"

section \<open>The receiving loop\<close>

text \<open>Timeout and flags of the system call; \<open>None\<close> is the null pointer.\<close>

record timespec =
  tv_sec :: "64 word"
  tv_nsec :: "64 word"

definition mm_effective_timeout :: "u64 \<Rightarrow> system_config \<Rightarrow> u64" where
  "mm_effective_timeout timeout cfg = (if timeout = 0 then buffer_flush_time (network cfg) else timeout)"

definition mm_timespec :: "u64 \<Rightarrow> timespec option" where
  "mm_timespec timeout =
    (if 0 < timeout
     then Some \<lparr>tv_sec = timeout div 1000, tv_nsec = (timeout mod 1000) * 1000000\<rparr>
     else None)"

text \<open>One received message: its bytes go to the buffer of its address, which is then cleared.\<close>

definition mm_message :: "usize \<Rightarrow> nat \<Rightarrow> mm_state \<times> counters \<Rightarrow> panic + mm_state \<times> counters" where
  "mm_message rowsize i = (\<lambda>(st, c).
    let m = mem st in
    if i < length (mheaders m) \<and> i < length (addrs m) then
      let mlen = ucast (msg_len (mheaders m ! i));
          a = of_nat i * rowsize
      in if slice_ok a (a + mlen) (recv_buffer m) then
           Inr (st\<lparr>total_received := total_received st + mlen,
                   mm_bufmap := append_buffer (addrs m ! i) (slice_of a (a + mlen) (recv_buffer m)) (mm_bufmap st),
                   mem := m\<lparr>addrs := (addrs m)[i := no_addr],
                            mheaders := (mheaders m)[i := (mheaders m ! i)\<lparr>msg_namelen := 20\<rparr>]\<rparr>\<rparr>,
                add_ingress mlen c)
         else Inl (Panic ''slice index out of range'')
    else Inl (Panic ''index out of bounds''))"

fun mm_messages :: "usize \<Rightarrow> nat list \<Rightarrow> mm_state \<times> counters \<Rightarrow> panic + mm_state \<times> counters" where
  "mm_messages rowsize [] s = Inr s"
| "mm_messages rowsize (i # is) s =
    (case mm_message rowsize i s of Inl p \<Rightarrow> Inl p | Inr s' \<Rightarrow> mm_messages rowsize is s')"

text \<open>
  A flushed buffer. \<open>ichans\<close> counts the calls of \<open>next\<close> on the cycling iterator; a failed
  \<open>try_send\<close> adds the number of messages of the whole batch to \<open>DROPS\<close>.
\<close>

definition mm_flush ::
    "(bytes \<Rightarrow> u64) \<Rightarrow> (nat \<Rightarrow> bool) \<Rightarrow> system_config \<Rightarrow> nat \<Rightarrow> nat \<Rightarrow> bytes \<times> bytes
      \<Rightarrow> nat \<times> bytes net \<Rightarrow> nat \<times> bytes net" where
  "mm_flush hash accepts cfg n messages = (\<lambda>(addr, buf) (pos, net).
    let ahash = hash addr;
        (chan, pos') = (if consistent_parsing (metrics cfg) then (unat ahash mod n, pos) else (pos mod n, pos + 1));
        ok = accepts chan;
        entry = \<lparr>ps_chan = chan, ps_source = addr, ps_hash = ahash, ps_payload = buf, ps_accepted = ok\<rparr>
    in (pos', net\<lparr>net_log := net_log net @ [entry],
           net_stats := (if ok then net_stats net else add_drops (of_nat messages) (net_stats net))\<rparr>))"

text \<open>
  One round of the loop, from the result of the system call on: thread \<open>i\<close>, \<open>n\<close> workers. A
  result of 0 and an error leave everything as it is.
\<close>

definition mm_round ::
    "(bytes \<Rightarrow> u64) \<Rightarrow> (nat \<Rightarrow> bool) \<Rightarrow> system_config \<Rightarrow> nat \<Rightarrow> nat \<Rightarrow> usize \<Rightarrow> int
      \<Rightarrow> mm_state \<times> bytes net \<Rightarrow> panic + mm_state \<times> bytes net" where
  "mm_round hash accepts cfg n i rowsize res = (\<lambda>(st, net).
    if res \<le> 0 then Inr (st, net)
    else
      let messages = nat res in
      case mm_messages rowsize [0..<messages] (st, net_stats net) of
        Inl p \<Rightarrow> Inl p
      | Inr (st1, c) \<Rightarrow>
          if length (flush_flags net) \<le> i then Inl (Panic ''no flush flag'')
          else
            let flush = flush_flags net ! i;
                net1 = net\<lparr>net_stats := c, flush_flags := (flush_flags net)[i := False]\<rparr>
            in if flush \<or> buffer_flush_length (network cfg) \<le> total_received st1 then
                 (if n = 0 \<and> mm_bufmap st1 \<noteq> [] then Inl (Panic ''no workers'')
                  else
                    let (pos, net2) = fold (mm_flush hash accepts cfg n messages) (mm_bufmap st1) (ichans st1, net1)
                    in Inr (st1\<lparr>total_received := 0, mm_bufmap := [], ichans := pos\<rparr>, net2))
               else Inr (st1, net1))"

text \<open>
  The loop over a sequence of system calls; the \<open>k\<close>-th call delivers the \<open>k\<close>-th batch of
  datagrams, each with the address of its sender.
\<close>

type_synonym kernel = "(bytes \<times> bytes) list \<Rightarrow> mm_mem \<Rightarrow> int \<times> mm_mem"

fun mm_loop ::
    "kernel \<Rightarrow> (bytes \<Rightarrow> u64) \<Rightarrow> (nat \<Rightarrow> bool) \<Rightarrow> system_config \<Rightarrow> nat \<Rightarrow> nat \<Rightarrow> usize
      \<Rightarrow> (bytes \<times> bytes) list list \<Rightarrow> mm_state \<times> bytes net \<Rightarrow> panic + mm_state \<times> bytes net" where
  "mm_loop recvmmsg hash accepts cfg n i rowsize [] s = Inr s"
| "mm_loop recvmmsg hash accepts cfg n i rowsize (batch # batches) s =
    (let (res, m) = recvmmsg batch (mem (fst s)) in
     case mm_round hash accepts cfg n i rowsize res ((fst s)\<lparr>mem := m\<rparr>, snd s) of
       Inl p \<Rightarrow> Inl p
     | Inr s' \<Rightarrow> mm_loop recvmmsg hash accepts cfg n i rowsize batches s')"

text \<open>
  A receiving thread: the preparation and the loop. The multimessage mode opens one socket
  and clones it for all threads.
\<close>

definition start_sync_udp_thread ::
    "kernel \<Rightarrow> (bytes \<Rightarrow> u64) \<Rightarrow> (nat \<Rightarrow> bool) \<Rightarrow> system_config \<Rightarrow> nat \<Rightarrow> nat \<Rightarrow> usize \<Rightarrow> usize
      \<Rightarrow> (bytes \<times> bytes) list list \<Rightarrow> bytes net \<Rightarrow> panic + mm_state \<times> bytes net" where
  "start_sync_udp_thread recvmmsg hash accepts cfg n i packets bsize batches net =
    (case mm_setup packets bsize of
       Inl p \<Rightarrow> Inl p
     | Inr st \<Rightarrow> mm_loop recvmmsg hash accepts cfg n i (mm_rowsize packets bsize) batches (st, net))"

section \<open>The asynchronous mode\<close>

text \<open>The listeners of every thread: one for each green thread and each socket of the pool.\<close>

definition start_async_udp :: "system_config \<Rightarrow> nat \<Rightarrow> nat \<Rightarrow> nat \<Rightarrow> nat \<Rightarrow> statsd_server list list" where
  "start_async_udp cfg threads n_greens sockets bsize =
    map (\<lambda>i. concat (replicate n_greens (replicate sockets (statsd_server_new [] cfg bsize 0 i i)))) [0..<threads]"

section \<open>What the code relies on from the kernel\<close>

text \<open>
  The memory as the thread prepares it: row \<open>i\<close> of the buffer and entry \<open>i\<close> of the address
  vector belong to header \<open>i\<close>, rows are within the buffer.
\<close>

definition mm_layout :: "usize \<Rightarrow> mm_mem \<Rightarrow> bool" where
  "mm_layout rowsize m \<longleftrightarrow>
    length (addrs m) = length (mheaders m) \<and>
    length (mheaders m) * unat rowsize \<le> length (recv_buffer m) \<and> length (recv_buffer m) < 2 ^ 64 \<and>
    (\<forall>i < length (mheaders m). msg_name (mheaders m ! i) = i \<and>
      msg_iov (mheaders m ! i) = Some (mm_chunk rowsize i) \<and> length (addrs m ! i) = 20)"

text \<open>
  The documented behaviour of \<open>recvmmsg\<close> on such a memory, for a batch of at most as many
  datagrams as there are headers: it returns their number, or, if there are none, possibly an
  error; every datagram gets a row of its own, whoever sent it: message \<open>i\<close> is in row \<open>i\<close>, cut at
  the length of the row, with its length in the header; at most \<open>msg_namelen\<close> bytes of the
  sender's address are written over the start of the name buffer, and \<open>msg_namelen\<close> becomes
  the length of that address; headers and names that are not used stay as they are.
\<close>

definition mm_delivered :: "usize \<Rightarrow> mm_mem \<Rightarrow> mm_mem \<Rightarrow> nat \<Rightarrow> bytes \<times> bytes \<Rightarrow> bool" where
  "mm_delivered rowsize m m' i = (\<lambda>(name, p).
    let h = mheaders m ! i; got = take (unat (msg_namelen h)) name; len = min (length p) (unat rowsize) in
    mheaders m' ! i = h\<lparr>msg_namelen := of_nat (length name), msg_len := of_nat len\<rparr> \<and>
    addrs m' ! i = got @ drop (length got) (addrs m ! i) \<and>
    take len (drop (i * unat rowsize) (recv_buffer m')) = take len p)"

definition recvmmsg_law :: "usize \<Rightarrow> kernel \<Rightarrow> bool" where
  "recvmmsg_law rowsize recvmmsg \<longleftrightarrow>
    (\<forall>batch m. mm_layout rowsize m \<longrightarrow> length batch \<le> length (mheaders m) \<longrightarrow>
      (case recvmmsg batch m of (res, m') \<Rightarrow>
        (if batch = [] then res \<le> 0 else res = int (length batch)) \<and> length (mheaders m') = length (mheaders m) \<and>
        length (addrs m') = length (addrs m) \<and> length (recv_buffer m') = length (recv_buffer m) \<and>
        (\<forall>i < length batch. mm_delivered rowsize m m' i (batch ! i)) \<and>
        (\<forall>i < length (mheaders m). length batch \<le> i \<longrightarrow>
          mheaders m' ! i = mheaders m ! i \<and> addrs m' ! i = addrs m ! i)))"

section \<open>A batch of messages\<close>

definition mm_row :: "usize \<Rightarrow> mm_mem \<Rightarrow> nat \<Rightarrow> bytes" where
  "mm_row rowsize m i =
    take (unat (msg_len (mheaders m ! i))) (drop (i * unat rowsize) (recv_buffer m))"

definition mm_reset :: "nat list \<Rightarrow> mm_mem \<Rightarrow> mm_mem" where
  "mm_reset is m = m\<lparr>addrs := fold (\<lambda>i as. as[i := no_addr]) is (addrs m),
    mheaders := fold (\<lambda>i hs. hs[i := (hs ! i)\<lparr>msg_namelen := 20\<rparr>]) is (mheaders m)\<rparr>"

definition mm_readable :: "usize \<Rightarrow> mm_mem \<Rightarrow> nat \<Rightarrow> bool" where
  "mm_readable rowsize m i \<longleftrightarrow> i < length (mheaders m) \<and> i < length (addrs m) \<and>
    i * unat rowsize + unat (msg_len (mheaders m ! i)) \<le> length (recv_buffer m)"

lemma unat_row:
  fixes rowsize :: usize and l :: u32
  assumes "i * unat rowsize + unat l < 2 ^ 64"
  shows "unat (of_nat i * rowsize) = i * unat rowsize"
    and "unat (of_nat i * rowsize + ucast l) = i * unat rowsize + unat l"
proof -
  have "of_nat i * rowsize = of_nat (i * unat rowsize)" by simp
  then show 1: "unat (of_nat i * rowsize) = i * unat rowsize"
    using assms by (simp add: unsigned_of_nat take_bit_nat_eq_self del: of_nat_mult)
  have "of_nat i * rowsize + ucast l = of_nat (i * unat rowsize + unat l)"
    by (simp add: unsigned_ucast_eq take_bit_word_eq_self)
  then show "unat (of_nat i * rowsize + ucast l) = i * unat rowsize + unat l"
    using assms by (simp add: unsigned_of_nat take_bit_nat_eq_self del: of_nat_mult of_nat_add)
qed

lemma mm_message_step:
  assumes "mm_readable rowsize (mem st) i" and "length (recv_buffer (mem st)) < 2 ^ 64"
  shows "mm_message rowsize i (st, c) =
    Inr (st\<lparr>total_received := total_received st + ucast (msg_len (mheaders (mem st) ! i)),
            mm_bufmap := append_buffer (addrs (mem st) ! i) (mm_row rowsize (mem st) i) (mm_bufmap st),
            mem := mm_reset [i] (mem st)\<rparr>,
         add_ingress (ucast (msg_len (mheaders (mem st) ! i))) c)"
proof -
  let ?l = "msg_len (mheaders (mem st) ! i)"
  have "i * unat rowsize + unat ?l < 2 ^ 64" using assms by (simp add: mm_readable_def)
  note u = unat_row [OF this]
  have "slice_ok (of_nat i * rowsize) (of_nat i * rowsize + ucast ?l) (recv_buffer (mem st))"
    using assms(1) by (simp add: slice_ok_def word_le_nat_alt u mm_readable_def)
  with assms(1) show ?thesis
    by (simp add: mm_message_def Let_def slice_of_def u mm_row_def mm_reset_def mm_readable_def)
qed

lemma mm_reset_other:
  assumes "j \<noteq> i"
  shows "mheaders (mm_reset [i] m) ! j = mheaders m ! j" "addrs (mm_reset [i] m) ! j = addrs m ! j"
    "mm_row rowsize (mm_reset [i] m) j = mm_row rowsize m j"
    "mm_readable rowsize (mm_reset [i] m) j = mm_readable rowsize m j"
  using assms by (simp_all add: mm_reset_def mm_row_def mm_readable_def)

lemma mm_reset_buffer [simp]: "recv_buffer (mm_reset is m) = recv_buffer m"
  by (simp add: mm_reset_def)

lemma mm_reset_Cons: "mm_reset is (mm_reset [i] m) = mm_reset (i # is) m"
  by (simp add: mm_reset_def)

definition mm_total :: "mm_mem \<Rightarrow> nat list \<Rightarrow> usize" where
  "mm_total m is = sum_list (map (\<lambda>i. ucast (msg_len (mheaders m ! i))) is)"

lemma mm_messages_spec:
  assumes "distinct is" and "\<forall>i \<in> set is. mm_readable rowsize (mem st) i"
    and "length (recv_buffer (mem st)) < 2 ^ 64"
  shows "mm_messages rowsize is (st, c) =
    Inr (st\<lparr>total_received := total_received st + mm_total (mem st) is,
            mm_bufmap := fold (\<lambda>i. append_buffer (addrs (mem st) ! i) (mm_row rowsize (mem st) i)) is (mm_bufmap st),
            mem := mm_reset is (mem st)\<rparr>,
         add_ingress (mm_total (mem st) is) c)"
  using assms
proof (induction "is" arbitrary: st c)
  case Nil
  show ?case by (simp add: mm_total_def mm_reset_def)
next
  case (Cons i "is")
  have other: "j \<in> set is \<Longrightarrow> j \<noteq> i" for j using Cons.prems(1) by auto
  have f: "fold (\<lambda>i. append_buffer (addrs (mm_reset [i'] m) ! i) (mm_row rowsize (mm_reset [i'] m) i)) is b =
      fold (\<lambda>i. append_buffer (addrs m ! i) (mm_row rowsize m i)) is b" if "i' = i" for i' m b
    by (rule fold_cong) (use that other in \<open>auto simp: mm_reset_other\<close>)
  have t: "mm_total (mm_reset [i] m) is = mm_total m is" for m
    unfolding mm_total_def by (rule arg_cong [where f = sum_list]) (use other in \<open>auto simp: mm_reset_other\<close>)
  from Cons.prems show ?case
    by (simp add: mm_message_step Cons.IH mm_reset_other other f t mm_reset_Cons)
      (simp add: mm_total_def algebra_simps)
qed

section \<open>The contract\<close>

text \<open>The key of a sender: its sixteen bytes of address, in a name buffer that was all zeros.\<close>

definition addr_key :: "bytes \<Rightarrow> bytes" where
  "addr_key name = name @ replicate 4 (CHR 0x00)"

lemma addr_key_inject [simp]: "addr_key a = addr_key b \<longleftrightarrow> a = b"
  by (simp add: addr_key_def)

definition mm_clean :: "mm_mem \<Rightarrow> bool" where
  "mm_clean m \<longleftrightarrow> (\<forall>i < length (mheaders m). addrs m ! i = no_addr \<and> msg_namelen (mheaders m ! i) = 20)"

definition mm_ok :: "nat \<Rightarrow> usize \<Rightarrow> nat \<Rightarrow> nat \<Rightarrow> mm_state \<times> bytes net \<Rightarrow> bool" where
  "mm_ok packets rowsize n i s \<longleftrightarrow>
    length (mheaders (mem (fst s))) = packets \<and> mm_layout rowsize (mem (fst s)) \<and> mm_clean (mem (fst s)) \<and>
    hm_wf (mm_bufmap (fst s)) \<and> 0 < n \<and> i < length (flush_flags (snd s))"

definition mm_valid :: "nat \<Rightarrow> usize \<Rightarrow> (bytes \<times> bytes) list \<Rightarrow> bool" where
  "mm_valid packets rowsize batch \<longleftrightarrow> length batch \<le> packets \<and>
    (\<forall>(name, p) \<in> set batch. length name = 16 \<and> length p \<le> unat rowsize \<and> length p < 2 ^ 32)"

lemma nth_fold_update:
  "j < length xs \<Longrightarrow> fold (\<lambda>i xs. xs[i := v]) is xs ! j = (if j \<in> set is then v else xs ! j)"
  by (induction "is" arbitrary: xs) (auto simp: nth_list_update)

lemma nth_fold_namelen:
  "j < length hs \<Longrightarrow> fold (\<lambda>i hs. hs[i := (hs ! i)\<lparr>msg_namelen := 20\<rparr>]) is hs ! j =
    (if j \<in> set is then (hs ! j)\<lparr>msg_namelen := 20\<rparr> else hs ! j)"
proof (induction "is" arbitrary: hs)
  case Nil
  show ?case by simp
next
  case (Cons i "is")
  then show ?case by (cases "i = j") simp_all
qed

lemma length_fold_update [simp]:
  "length (fold (\<lambda>i xs. xs[i := f xs i]) is xs) = length xs"
  by (induction "is" arbitrary: xs) simp_all

lemma length_mm_reset [simp]:
  "length (mheaders (mm_reset is m)) = length (mheaders m)"
  "length (addrs (mm_reset is m)) = length (addrs m)"
  by (simp_all add: mm_reset_def length_fold_update [where f = "\<lambda>xs i. no_addr"]
      length_fold_update [where f = "\<lambda>hs i. (hs ! i)\<lparr>msg_namelen := 20\<rparr>"])

text \<open>What the system call leaves: readable messages, and a clean memory after the reset.\<close>

lemma recvmmsg_lawD:
  assumes "recvmmsg_law rowsize recvmmsg" and "mm_layout rowsize m"
    and "length batch \<le> length (mheaders m)" and "recvmmsg batch m = (res, m')"
  shows "if batch = [] then res \<le> 0 else res = int (length batch)" "length (mheaders m') = length (mheaders m)"
    "length (addrs m') = length (addrs m)" "length (recv_buffer m') = length (recv_buffer m)"
    "i < length batch \<Longrightarrow> mm_delivered rowsize m m' i (batch ! i)"
    "i < length (mheaders m) \<Longrightarrow> length batch \<le> i \<Longrightarrow>
      mheaders m' ! i = mheaders m ! i \<and> addrs m' ! i = addrs m ! i"
  using assms(1) [unfolded recvmmsg_law_def, rule_format, OF assms(2,3)] assms(4) by simp_all

lemma recvmmsg_message:
  assumes "recvmmsg_law rowsize recvmmsg" and "mm_layout rowsize m" and "mm_clean m"
    and "mm_valid (length (mheaders m)) rowsize batch" and "recvmmsg batch m = (res, m')"
    and i: "i < length batch"
  shows "mm_readable rowsize m' i \<and> addrs m' ! i = addr_key (fst (batch ! i)) \<and>
    mm_row rowsize m' i = snd (batch ! i) \<and> unat (msg_len (mheaders m' ! i)) = length (snd (batch ! i))"
proof -
  have len: "length batch \<le> length (mheaders m)" using assms(4) by (simp add: mm_valid_def)
  note law = recvmmsg_lawD [OF assms(1,2) len assms(5)]
  obtain name p where b: "batch ! i = (name, p)" by (cases "batch ! i")
  then have "(name, p) \<in> set batch" using nth_mem [OF i] by simp
  with assms(4) have p: "length name = 16" "length p \<le> unat rowsize" "length p < 2 ^ 32"
    by (auto simp: mm_valid_def)
  have u: "unat (of_nat (length p) :: u32) = length p"
    using p by (simp add: unsigned_of_nat take_bit_nat_eq_self)
  have "(i + 1) * unat rowsize \<le> length (mheaders m) * unat rowsize"
    using i len by (intro mult_le_mono1) simp
  then have "i * unat rowsize + length p \<le> length (recv_buffer m)"
    using assms(2) p(2) by (simp add: mm_layout_def algebra_simps)
  with law(2-4) law(5) [OF i] i len p u assms(2,3) show ?thesis
    by (simp add: mm_delivered_def b mm_readable_def mm_row_def mm_clean_def mm_layout_def
        addr_key_def no_addr_def Let_def min_def)
qed

lemma recvmmsg_header:
  assumes "recvmmsg_law rowsize recvmmsg" and "mm_layout rowsize m" and "mm_clean m"
    and "mm_valid (length (mheaders m)) rowsize batch" and "recvmmsg batch m = (res, m')"
    and i: "i < length (mheaders m)"
  shows "msg_name (mheaders m' ! i) = i \<and> msg_iov (mheaders m' ! i) = Some (mm_chunk rowsize i) \<and>
    length (addrs m' ! i) = 20 \<and>
    (length batch \<le> i \<longrightarrow> addrs m' ! i = no_addr \<and> msg_namelen (mheaders m' ! i) = 20)"
proof -
  have len: "length batch \<le> length (mheaders m)" using assms(4) by (simp add: mm_valid_def)
  note law = recvmmsg_lawD [OF assms(1,2) len assms(5)]
  show ?thesis
  proof (cases "i < length batch")
    case True
    obtain name p where b: "batch ! i = (name, p)" by (cases "batch ! i")
    then have "length name = 16" using nth_mem [OF True] assms(4) by (auto simp: mm_valid_def)
    with law(5) [OF True] recvmmsg_message [OF assms(1-5) True] assms(2) i True show ?thesis
      by (simp add: mm_delivered_def mm_layout_def addr_key_def b Let_def)
  next
    case False
    with law(6) [OF i] assms(2,3) i show ?thesis by (simp add: mm_clean_def mm_layout_def)
  qed
qed

lemma recvmmsg_memory:
  assumes "recvmmsg_law rowsize recvmmsg" and "mm_layout rowsize m" and "mm_clean m"
    and "mm_valid (length (mheaders m)) rowsize batch" and "recvmmsg batch m = (res, m')"
  shows "if batch = [] then res \<le> 0 else res = int (length batch)" and "length (mheaders m') = length (mheaders m)"
    and "length (recv_buffer m') < 2 ^ 64"
    and "mm_layout rowsize (mm_reset [0..<length batch] m') \<and> mm_clean (mm_reset [0..<length batch] m')"
proof -
  have len: "length batch \<le> length (mheaders m)" using assms(4) by (simp add: mm_valid_def)
  note law = recvmmsg_lawD [OF assms(1,2) len assms(5)]
  show "if batch = [] then res \<le> 0 else res = int (length batch)" and "length (mheaders m') = length (mheaders m)" by (rule law)+
  show "length (recv_buffer m') < 2 ^ 64" using assms(2) law(4) by (simp add: mm_layout_def)
  let ?m = "mm_reset [0..<length batch] m'"
  have "msg_name (mheaders ?m ! i) = i \<and> msg_iov (mheaders ?m ! i) = Some (mm_chunk rowsize i) \<and>
      addrs ?m ! i = no_addr \<and> msg_namelen (mheaders ?m ! i) = 20" if "i < length (mheaders m)" for i
    using recvmmsg_header [OF assms that] that law(2,3) assms(2)
    by (simp add: mm_reset_def nth_fold_update nth_fold_namelen mm_layout_def not_less)
  with law(2-4) assms(2) show "mm_layout rowsize ?m \<and> mm_clean ?m"
    by (simp add: mm_layout_def mm_clean_def no_addr_def)
qed

lemma fold_append_buffer:
  "pending (fold (\<lambda>e. append_buffer (fst e) (snd e)) batch m) a = pending m a @ payload_from batch a"
  by (induction batch arbitrary: m) auto

lemma hm_wf_fold_append_buffer:
  "hm_wf m \<Longrightarrow> hm_wf (fold (\<lambda>e. append_buffer (fst e) (snd e)) batch m)"
  by (induction batch arbitrary: m) auto

abbreviation keyed :: "(bytes \<times> bytes) list \<Rightarrow> (bytes \<times> bytes) list" where
  "keyed batch \<equiv> map (map_prod addr_key id) batch"

definition batch_bytes :: "(bytes \<times> bytes) list \<Rightarrow> nat" where
  "batch_bytes batch = sum_list (map (length \<circ> snd) batch)"

lemma of_nat_batch_bytes: "of_nat (batch_bytes batch) = sum_list (map (of_nat \<circ> length \<circ> snd) batch)"
  by (induction batch) (simp_all add: batch_bytes_def)

lemma mm_messages_batch:
  assumes "recvmmsg_law rowsize recvmmsg" and "mm_ok packets rowsize n k (st, net)"
    and "mm_valid packets rowsize batch" and "recvmmsg batch (mem st) = (res, m)"
  shows "mm_messages rowsize [0..<length batch] (st\<lparr>mem := m\<rparr>, c) =
    Inr (st\<lparr>mem := mm_reset [0..<length batch] m,
            mm_bufmap := fold (\<lambda>e. append_buffer (fst e) (snd e)) (keyed batch) (mm_bufmap st),
            total_received := total_received st + of_nat (batch_bytes batch)\<rparr>,
         add_ingress (of_nat (batch_bytes batch)) c)"
proof -
  let ?is = "[0..<length batch]"
  have ok: "mm_layout rowsize (mem st)" "mm_clean (mem st)" "mm_valid (length (mheaders (mem st))) rowsize batch"
    using assms(2,3) by (auto simp: mm_ok_def)
  note msg = recvmmsg_message [OF assms(1) ok assms(4)]
  have "(ucast (msg_len (mheaders m ! i)) :: usize) = of_nat (length (snd (batch ! i)))" if "i < length batch" for i
    using msg [OF that] by (metis of_nat_unat)
  then have "mm_total m ?is = sum_list (map (\<lambda>i. of_nat (length (snd (batch ! i)))) ?is)"
    unfolding mm_total_def by (intro arg_cong [where f = sum_list] map_cong) simp_all
  also have "\<dots> = sum_list (map (of_nat \<circ> length \<circ> snd) (map (\<lambda>i. batch ! i) ?is))"
    by (simp only: map_map comp_def)
  also have "\<dots> = of_nat (batch_bytes batch)"
    by (simp only: map_nth of_nat_batch_bytes)
  finally have total: "mm_total m ?is = of_nat (batch_bytes batch)" .
  have bufs: "fold (\<lambda>i. append_buffer (addrs m ! i) (mm_row rowsize m i)) ?is b =
      fold (\<lambda>e. append_buffer (fst e) (snd e)) (keyed batch) b" for b
  proof -
    have "fold (\<lambda>i. append_buffer (addrs m ! i) (mm_row rowsize m i)) ?is b =
        fold (\<lambda>e. append_buffer (fst e) (snd e)) (keyed (map (\<lambda>i. batch ! i) ?is)) b"
      unfolding fold_map map_map comp_def by (rule fold_cong) (simp_all add: msg)
    then show ?thesis by (simp only: map_nth)
  qed
  show ?thesis
    by (subst mm_messages_spec) (use recvmmsg_memory [OF assms(1) ok assms(4)] in \<open>simp_all add: msg total bufs\<close>)
qed

subsection \<open>Flushing\<close>

lemma rejected_update [simp]:
  "rejected (net\<lparr>net_stats := c\<rparr>) = rejected net" "rejected (net\<lparr>flush_flags := f\<rparr>) = rejected net"
  by (simp_all add: rejected_def)

lemma fold_mm_flush_log:
  "map (\<lambda>p. (ps_source p, ps_payload p)) (net_log (snd (fold (mm_flush hash accepts cfg n k) m s)))
    = map (\<lambda>p. (ps_source p, ps_payload p)) (net_log (snd s)) @ m"
proof (induction m arbitrary: s)
  case Nil
  show ?case by simp
next
  case (Cons e m)
  have "map (\<lambda>p. (ps_source p, ps_payload p)) (net_log (snd (mm_flush hash accepts cfg n k e s))) =
      map (\<lambda>p. (ps_source p, ps_payload p)) (net_log (snd s)) @ [e]"
    by (cases e; cases s) (simp add: mm_flush_def Let_def case_prod_unfold)
  with Cons show ?case by simp
qed

lemma fold_mm_flush_flushed:
  "hm_wf m \<Longrightarrow> flushed (snd (fold (mm_flush hash accepts cfg n k) m s)) a = flushed (snd s) a @ pending m a"
  by (simp add: flushed_log fold_mm_flush_log payload_from_map)

lemma mm_flush_stats:
  "flush_flags (snd (mm_flush hash accepts cfg n k e s)) = flush_flags (snd s) \<and>
   INGRESS (net_stats (snd (mm_flush hash accepts cfg n k e s))) = INGRESS (net_stats (snd s)) \<and>
   DROPS (net_stats (snd (mm_flush hash accepts cfg n k e s)))
       - of_nat k * of_nat (rejected (snd (mm_flush hash accepts cfg n k e s)))
     = DROPS (net_stats (snd s)) - of_nat k * of_nat (rejected (snd s))"
  by (cases e; cases s) (simp add: mm_flush_def rejected_def Let_def case_prod_unfold algebra_simps)

lemma fold_mm_flush_stats:
  "flush_flags (snd (fold (mm_flush hash accepts cfg n k) m s)) = flush_flags (snd s) \<and>
   INGRESS (net_stats (snd (fold (mm_flush hash accepts cfg n k) m s))) = INGRESS (net_stats (snd s)) \<and>
   DROPS (net_stats (snd (fold (mm_flush hash accepts cfg n k) m s)))
       - of_nat k * of_nat (rejected (snd (fold (mm_flush hash accepts cfg n k) m s)))
     = DROPS (net_stats (snd s)) - of_nat k * of_nat (rejected (snd s))"
  by (induction m arbitrary: s) (simp_all add: mm_flush_stats)

text \<open>One system call and its round.\<close>

definition mm_call ::
    "kernel \<Rightarrow> (bytes \<Rightarrow> u64) \<Rightarrow> (nat \<Rightarrow> bool) \<Rightarrow> system_config \<Rightarrow> nat \<Rightarrow> nat \<Rightarrow> usize
      \<Rightarrow> (bytes \<times> bytes) list \<Rightarrow> mm_state \<times> bytes net \<Rightarrow> panic + mm_state \<times> bytes net" where
  "mm_call recvmmsg hash accepts cfg n i rowsize batch s =
    (let (res, m) = recvmmsg batch (mem (fst s)) in
     mm_round hash accepts cfg n i rowsize res ((fst s)\<lparr>mem := m\<rparr>, snd s))"

lemma mm_loop_call:
  "mm_loop recvmmsg hash accepts cfg n i rowsize (batch # batches) s =
    (case mm_call recvmmsg hash accepts cfg n i rowsize batch s of
       Inl p \<Rightarrow> Inl p
     | Inr s' \<Rightarrow> mm_loop recvmmsg hash accepts cfg n i rowsize batches s')"
  by (simp add: mm_call_def case_prod_unfold Let_def)

lemma mm_call_spec:
  assumes "recvmmsg_law rowsize recvmmsg" and "mm_ok packets rowsize n i s" and "mm_valid packets rowsize batch"
  shows "\<exists>st' net'. mm_call recvmmsg hash accepts cfg n i rowsize batch s = Inr (st', net') \<and>
    mm_ok packets rowsize n i (st', net') \<and>
    (\<forall>a. flushed net' a @ pending (mm_bufmap st') a =
      flushed (snd s) a @ pending (mm_bufmap (fst s)) a @ payload_from (keyed batch) a) \<and>
    INGRESS (net_stats net') = INGRESS (net_stats (snd s)) + of_nat (batch_bytes batch) \<and>
    DROPS (net_stats net') - of_nat (length batch) * of_nat (rejected net')
      = DROPS (net_stats (snd s)) - of_nat (length batch) * of_nat (rejected (snd s))"
proof -
  obtain st net where s: "s = (st, net)" by (cases s)
  obtain res m where call: "recvmmsg batch (mem st) = (res, m)" by (cases "recvmmsg batch (mem st)")
  have ok: "mm_layout rowsize (mem st)" "mm_clean (mem st)" "mm_valid (length (mheaders (mem st))) rowsize batch"
    using assms(2,3) by (auto simp: mm_ok_def s)
  note memory = recvmmsg_memory [OF assms(1) ok call]
  note msgs = mm_messages_batch [OF assms(1) assms(2) [unfolded s] assms(3) call]
  let ?m = "fold (\<lambda>e. append_buffer (fst e) (snd e)) (keyed batch) (mm_bufmap st)"
  have wf: "hm_wf ?m" using assms(2) by (intro hm_wf_fold_append_buffer) (simp add: s mm_ok_def)
  show ?thesis
  proof (cases "batch = []")
    case True
    with assms(2) memory show ?thesis
      using call by (auto simp: mm_call_def s mm_round_def mm_ok_def batch_bytes_def mm_reset_def)
  next
    case False
    then have "\<not> res \<le> 0" and "nat res = length batch" using memory(1) by auto
    with memory wf assms(2) show ?thesis
      by (auto simp: mm_call_def s call mm_round_def msgs mm_ok_def Let_def case_prod_unfold
          fold_mm_flush_flushed fold_mm_flush_stats fold_append_buffer)
  qed
qed

definition mm_feed ::
    "kernel \<Rightarrow> (bytes \<Rightarrow> u64) \<Rightarrow> (nat \<Rightarrow> bool) \<Rightarrow> system_config \<Rightarrow> nat \<Rightarrow> nat \<Rightarrow> usize
      \<Rightarrow> (bytes \<times> bytes) list \<Rightarrow> mm_state \<times> bytes net \<Rightarrow> mm_state \<times> bytes net" where
  "mm_feed recvmmsg hash accepts cfg n i rowsize batch s =
    (case mm_call recvmmsg hash accepts cfg n i rowsize batch s of Inr s' \<Rightarrow> s' | Inl p \<Rightarrow> s)"

lemma payload_from_keyed: "payload_from (keyed batch) (addr_key a) = payload_from batch a"
  by (induction batch) auto

lemma payload_from_short: "\<forall>(name, p) \<in> set batch. length name = 16 \<Longrightarrow> length a \<noteq> 16 \<Longrightarrow> payload_from batch a = []"
  by (auto simp: payload_from_def filter_empty_conv)

text \<open>
  The contract of a front end. The law of the kernel is part of the invariant; the address
  of a sender has sixteen bytes.
\<close>

interpretation sync: front_end "mm_feed recvmmsg hash accepts cfg n i rowsize"
    "\<lambda>s a. if length a = 16 then flushed (snd s) (addr_key a) else []"
    "\<lambda>s a. if length a = 16 then pending (mm_bufmap (fst s)) (addr_key a) else []"
    "\<lambda>s. recvmmsg_law rowsize recvmmsg \<and> mm_ok packets rowsize n i s" "mm_valid packets rowsize"
  for recvmmsg hash accepts cfg n i rowsize packets
proof unfold_locales
  fix s :: "mm_state \<times> bytes net" and batch a
  assume "recvmmsg_law rowsize recvmmsg \<and> mm_ok packets rowsize n i s" and "mm_valid packets rowsize batch"
  then obtain st' net' where *:
      "mm_call recvmmsg hash accepts cfg n i rowsize batch s = Inr (st', net')" "mm_ok packets rowsize n i (st', net')"
      "\<And>a. flushed net' a @ pending (mm_bufmap st') a =
        flushed (snd s) a @ pending (mm_bufmap (fst s)) a @ payload_from (keyed batch) a"
    using mm_call_spec [of rowsize recvmmsg packets n i s batch hash accepts cfg] by blast
  from * \<open>recvmmsg_law rowsize recvmmsg \<and> mm_ok packets rowsize n i s\<close>
  show "recvmmsg_law rowsize recvmmsg \<and> mm_ok packets rowsize n i (mm_feed recvmmsg hash accepts cfg n i rowsize batch s)"
    by (simp add: mm_feed_def)
  have "\<forall>(name, p) \<in> set batch. length name = 16"
    using \<open>mm_valid packets rowsize batch\<close> by (auto simp: mm_valid_def)
  with * payload_from_short [of batch a]
  show "(if length a = 16 then flushed (snd (mm_feed recvmmsg hash accepts cfg n i rowsize batch s)) (addr_key a) else [])
      @ (if length a = 16 then pending (mm_bufmap (fst (mm_feed recvmmsg hash accepts cfg n i rowsize batch s))) (addr_key a) else [])
    = (if length a = 16 then flushed (snd s) (addr_key a) else [])
      @ (if length a = 16 then pending (mm_bufmap (fst s)) (addr_key a) else []) @ payload_from batch a"
    by (simp add: mm_feed_def payload_from_keyed)
qed

lemma mm_loop_feed:
  assumes "recvmmsg_law rowsize recvmmsg" and "mm_ok packets rowsize n i s"
    and "\<forall>batch \<in> set batches. mm_valid packets rowsize batch"
  shows "mm_loop recvmmsg hash accepts cfg n i rowsize batches s =
    Inr (fold (mm_feed recvmmsg hash accepts cfg n i rowsize) batches s)"
  using assms(2,3)
proof (induction batches arbitrary: s)
  case Nil
  show ?case by simp
next
  case (Cons batch batches)
  then obtain s' where "mm_call recvmmsg hash accepts cfg n i rowsize batch s = Inr s'" "mm_ok packets rowsize n i s'"
    using mm_call_spec [OF assms(1), of packets n i s batch hash accepts cfg] by auto
  with Cons show ?case
    by (simp add: mm_loop_call mm_feed_def del: mm_loop.simps(2))
qed

text \<open>If every queue takes tasks, every send is accepted.\<close>

lemma fold_mm_flush_accepted:
  assumes "\<forall>k < n. accepts k" and "0 < n" and "all_accepted (snd s)"
  shows "all_accepted (snd (fold (mm_flush hash accepts cfg n messages) m s))"
  using assms(3)
proof (induction m arbitrary: s)
  case (Cons e m)
  have "all_accepted (snd (mm_flush hash accepts cfg n messages e s))"
    using Cons.prems assms(1,2) by (cases e; cases s) (auto simp: mm_flush_def all_accepted_def Let_def case_prod_unfold)
  with Cons.IH show ?case by simp
qed simp

lemma mm_call_accepted:
  assumes "mm_call recvmmsg hash accepts cfg n i rowsize batch s = Inr s'" and "\<forall>k < n. accepts k" and "0 < n"
    and "all_accepted (snd s)"
  shows "all_accepted (snd s')"
proof -
  have "all_accepted (snd (fold (mm_flush hash accepts cfg n messages) m (pos, (snd s)\<lparr>net_stats := c, flush_flags := f\<rparr>)))"
    for messages m pos c f
    using assms(4) by (intro fold_mm_flush_accepted assms(2,3)) (simp add: all_accepted_def)
  with assms(1,4) show ?thesis
    by (auto simp: mm_call_def mm_round_def all_accepted_def Let_def case_prod_unfold split: sum.splits if_splits)
qed

lemma fold_mm_feed_accepted:
  "\<forall>k < n. accepts k \<Longrightarrow> 0 < n \<Longrightarrow> all_accepted (snd s) \<Longrightarrow>
    all_accepted (snd (fold (mm_feed recvmmsg hash accepts cfg n i rowsize) batches s))"
proof (induction batches arbitrary: s)
  case (Cons batch batches)
  have "all_accepted (snd (mm_feed recvmmsg hash accepts cfg n i rowsize batch s))"
    using Cons.prems mm_call_accepted [of recvmmsg hash accepts cfg n i rowsize batch s]
    by (auto simp: mm_feed_def split: sum.splits)
  with Cons show ?case by simp
qed simp

section \<open>Preparation\<close>

lemma unat_row_end:
  fixes rowsize :: usize
  assumes "Suc j * unat rowsize < 2 ^ 64"
  shows "unat (of_nat j * rowsize) = j * unat rowsize"
    and "unat (of_nat j * rowsize + rowsize) = Suc j * unat rowsize"
proof -
  have "of_nat j * rowsize = of_nat (j * unat rowsize)" by simp
  then show "unat (of_nat j * rowsize) = j * unat rowsize"
    using assms by (simp add: unsigned_of_nat take_bit_nat_eq_self del: of_nat_mult)
  have "of_nat j * rowsize + rowsize = of_nat (Suc j * unat rowsize)" by simp
  then show "unat (of_nat j * rowsize + rowsize) = Suc j * unat rowsize"
    using assms by (simp add: unsigned_of_nat take_bit_nat_eq_self del: of_nat_mult mult_Suc)
qed

lemma mm_sizes:
  assumes "unat packets * unat packets * unat bsize < 2 ^ 64"
  shows "unat (mm_rowsize packets bsize) = unat packets * unat bsize"
    and "unat (mm_min_bytes packets bsize) = unat packets * (unat packets * unat bsize)"
proof -
  have "unat bsize * unat packets < 2 ^ 64"
  proof (cases "unat packets")
    case 0
    then show ?thesis by simp
  next
    case (Suc k)
    then have "unat bsize * unat packets \<le> unat packets * unat packets * unat bsize" by simp
    with assms show ?thesis by linarith
  qed
  then show "unat (mm_rowsize packets bsize) = unat packets * unat bsize"
    by (simp add: mm_rowsize_def unat_word_ariths mult.commute)
  show "unat (mm_min_bytes packets bsize) = unat packets * (unat packets * unat bsize)"
    using assms by (simp add: mm_min_bytes_def unat_word_ariths mod_mult_left_eq mod_mult_right_eq mult.assoc)
qed

lemma mm_setup_eq:
  assumes "unat packets * unat packets * unat bsize < 2 ^ 64"
  shows "mm_setup packets bsize = Inr
    \<lparr>mem = \<lparr>mheaders = map (\<lambda>i. (mheader_init i)\<lparr>msg_iov := Some (mm_chunk (mm_rowsize packets bsize) i), msg_iovlen := 1\<rparr>)
         [0..<unat packets],
       addrs = replicate (unat packets) no_addr,
       recv_buffer = replicate (unat packets * (unat packets * unat bsize)) (CHR 0x00)\<rparr>,
     mm_bufmap = [], total_received = 0, ichans = 0\<rparr>"
proof -
  let ?r = "mm_rowsize packets bsize"
  have "slice_ok (of_nat j * ?r) (of_nat j * ?r + ?r) (replicate (unat packets * (unat packets * unat bsize)) x)"
    if "j < unat packets" for j x
  proof -
    have "Suc j * unat ?r \<le> unat packets * (unat packets * unat bsize)"
      using that mm_sizes(1) [OF assms] by (intro mult_le_mono) simp_all
    moreover from this assms have "Suc j * unat ?r < 2 ^ 64" by (simp add: mult.assoc)
    ultimately show ?thesis
      using unat_row_end [of j ?r] by (simp add: slice_ok_def word_le_nat_alt)
  qed
  then show ?thesis
    by (simp add: mm_setup_def list_all_iff Let_def mm_sizes [OF assms])
qed

lemma mm_setup_ok:
  assumes "unat packets * unat packets * unat bsize < 2 ^ 64" and "0 < n" and "i < length flags"
  shows "\<exists>st. mm_setup packets bsize = Inr st \<and> mm_bufmap st = [] \<and>
    mm_ok (unat packets) (mm_rowsize packets bsize) n i (st, fresh_net flags c)"
  using assms mm_sizes [OF assms(1)]
  by (simp add: mm_setup_eq mm_ok_def mm_layout_def mm_clean_def mheader_init_def hm_wf_def hm_keys_def no_addr_def
      mult.assoc)

section \<open>A kernel for the examples\<close>

text \<open>A function that copies a batch to the rows, and the law for it.\<close>

definition copy_kernel :: "usize \<Rightarrow> kernel" where
  "copy_kernel rowsize batch m =
    (int (length batch),
     \<lparr>mheaders = map (\<lambda>i. let h = mheaders m ! i in
          if i < length batch
          then h\<lparr>msg_namelen := of_nat (length (fst (batch ! i))),
                 msg_len := of_nat (min (length (snd (batch ! i))) (unat rowsize))\<rparr>
          else h) [0..<length (mheaders m)],
      addrs = map (\<lambda>i.
          if i < length batch
          then let got = take (unat (msg_namelen (mheaders m ! i))) (fst (batch ! i))
               in got @ drop (length got) (addrs m ! i)
          else addrs m ! i) [0..<length (addrs m)],
      recv_buffer = map (\<lambda>k. let i = k div unat rowsize; j = k mod unat rowsize in
          if i < length batch \<and> j < length (snd (batch ! i)) then snd (batch ! i) ! j else recv_buffer m ! k)
        [0..<length (recv_buffer m)]\<rparr>)"

lemma copy_kernel_row:
  assumes "mm_layout rowsize m" and "i < length batch" and "length batch \<le> length (mheaders m)"
    and "len = min (length (snd (batch ! i))) (unat rowsize)"
  shows "take len (drop (i * unat rowsize) (recv_buffer (snd (copy_kernel rowsize batch m)))) =
    take len (snd (batch ! i))"
proof -
  have "(i + 1) * unat rowsize \<le> length (mheaders m) * unat rowsize"
    using assms by (intro mult_le_mono1) simp
  moreover have "length (mheaders m) * unat rowsize \<le> length (recv_buffer m)" and "len \<le> unat rowsize"
    using assms(1,4) by (simp_all add: mm_layout_def)
  ultimately have end_row: "i * unat rowsize + len \<le> length (recv_buffer m)" by simp
  have "recv_buffer (snd (copy_kernel rowsize batch m)) ! (i * unat rowsize + j) = snd (batch ! i) ! j"
    if "j < len" for j
  proof -
    have "j < unat rowsize" using that assms(4) by simp
    moreover from this have "(i * unat rowsize + j) div unat rowsize = i" by simp
    ultimately show ?thesis
      using that end_row assms(2,4) by (simp add: copy_kernel_def Let_def)
  qed
  with end_row assms(4) show ?thesis
    by (intro nth_equalityI) (simp_all add: copy_kernel_def)
qed

lemma copy_kernel_law: "recvmmsg_law rowsize (copy_kernel rowsize)"
proof -
  have "mm_delivered rowsize m (snd (copy_kernel rowsize batch m)) i (batch ! i)"
    if "mm_layout rowsize m" "i < length batch" "length batch \<le> length (mheaders m)" for m batch i
    using copy_kernel_row [OF that refl] that
    by (simp add: mm_delivered_def case_prod_unfold Let_def) (simp add: copy_kernel_def mm_layout_def Let_def)
  moreover have "fst (copy_kernel rowsize batch m) = int (length batch) \<and>
      length (mheaders (snd (copy_kernel rowsize batch m))) = length (mheaders m) \<and>
      length (addrs (snd (copy_kernel rowsize batch m))) = length (addrs m) \<and>
      length (recv_buffer (snd (copy_kernel rowsize batch m))) = length (recv_buffer m) \<and>
      (\<forall>i < length (mheaders m). length batch \<le> i \<longrightarrow>
        mheaders (snd (copy_kernel rowsize batch m)) ! i = mheaders m ! i \<and>
        addrs (snd (copy_kernel rowsize batch m)) ! i = addrs m ! i)"
    if "mm_layout rowsize m" for batch m
    using that by (simp add: copy_kernel_def mm_layout_def)
  ultimately show ?thesis
    by (simp add: recvmmsg_law_def case_prod_unfold)
qed

definition sample_name :: "char \<Rightarrow> bytes" where
  "sample_name x = replicate 16 x"

definition sample_batches :: "(bytes \<times> bytes) list list" where
  "sample_batches = [[(sample_name CHR ''a'', ''x:1''), (sample_name CHR ''b'', ''y:'')], [], [(sample_name CHR ''b'', ''2|c'')]]"

section \<open>Properties\<close>

text \<open>
  C18. A receiving thread of the multimessage mode, whose preparation does not overflow,
  never panics and neither loses, duplicates nor reorders the bytes of a sender, over every
  sequence of system calls that behave as documented and deliver datagrams that fit a row:
  what it has flushed followed by what it buffers is what the sender sent. The cleared address
  buffers and the restored name lengths are what makes the key of a sender unique. What it has
  flushed was taken by workers or refused by full queues; if no queue refuses, all that was
  flushed is passed on, in order.
\<close>

theorem sync_thread_keeps_bytes:
  assumes "recvmmsg_law (mm_rowsize packets bsize) recvmmsg"
    and "unat packets * unat packets * unat bsize < 2 ^ 64" and "0 < n" and "i < length flags"
    and "\<forall>batch \<in> set batches. mm_valid (unat packets) (mm_rowsize packets bsize) batch"
  shows "\<exists>st net. start_sync_udp_thread recvmmsg hash accepts cfg n i packets bsize batches (fresh_net flags c) = Inr (st, net) \<and>
    (\<forall>a. length a = 16 \<longrightarrow>
      flushed net (addr_key a) @ pending (mm_bufmap st) (addr_key a) = payload_from (concat batches) a \<and>
      mset (flushed net (addr_key a)) = mset (passed_on net (addr_key a)) + mset (refused net (addr_key a))) \<and>
    ((\<forall>k < n. accepts k) \<longrightarrow>
      (\<forall>a. length a = 16 \<longrightarrow>
        passed_on net (addr_key a) @ pending (mm_bufmap st) (addr_key a) = payload_from (concat batches) a))"
proof -
  obtain st0 where st0: "mm_setup packets bsize = Inr st0" "mm_bufmap st0 = []"
      "mm_ok (unat packets) (mm_rowsize packets bsize) n i (st0, fresh_net flags c)"
    using mm_setup_ok [OF assms(2-4)] by blast
  let ?s = "fold (mm_feed recvmmsg hash accepts cfg n i (mm_rowsize packets bsize)) batches (st0, fresh_net flags c)"
  have "start_sync_udp_thread recvmmsg hash accepts cfg n i packets bsize batches (fresh_net flags c) = Inr ?s"
    using mm_loop_feed [OF assms(1) st0(3) assms(5)] st0(1) by (simp add: start_sync_udp_thread_def)
  moreover have "flushed (snd ?s) (addr_key a) @ pending (mm_bufmap (fst ?s)) (addr_key a) = payload_from (concat batches) a"
    if "length a = 16" for a
    using sync.run_bytes [of "mm_rowsize packets bsize" recvmmsg "unat packets" n i "(st0, fresh_net flags c)" batches
        a hash accepts cfg] assms(1,5) st0 that
    by (simp add: flushed_def)
  moreover have "passed_on (snd ?s) a = flushed (snd ?s) a" if "\<forall>k < n. accepts k" for a
    by (intro passed_on_all fold_mm_feed_accepted that) (simp_all add: assms(3) all_accepted_def)
  ultimately show ?thesis by (cases ?s) (auto simp: flushed_split)
qed

theorem sync_thread_keeps_bytes_witness:
  "\<exists>st net. start_sync_udp_thread (copy_kernel 8) (\<lambda>a. of_nat (length a)) (\<lambda>k. True) (sample_config True) 3 0 2 4
      sample_batches (fresh_net [False] counters_init) = Inr (st, net) \<and>
    passed_on net (addr_key (sample_name CHR ''b'')) @ pending (mm_bufmap st) (addr_key (sample_name CHR ''b'')) = ''y:2|c''"
proof -
  have row: "mm_rowsize 2 4 = 8" by code_simp
  have "\<forall>batch \<in> set sample_batches. mm_valid (unat (2 :: usize)) (mm_rowsize 2 4) batch"
    by (simp add: sample_batches_def mm_valid_def sample_name_def row)
  moreover have "unat (2 :: usize) * unat (2 :: usize) * unat (4 :: usize) < 2 ^ 64" by simp
  moreover have "recvmmsg_law (mm_rowsize 2 4) (copy_kernel 8)" by (simp add: row copy_kernel_law)
  moreover have "0 < (3 :: nat)" and "0 < length [False]" by simp_all
  ultimately obtain st net where
    "start_sync_udp_thread (copy_kernel 8) (\<lambda>a. of_nat (length a)) (\<lambda>k. True) (sample_config True) 3 0 2 4
      sample_batches (fresh_net [False] counters_init) = Inr (st, net)"
    and "\<forall>a. length a = 16 \<longrightarrow> passed_on net (addr_key a) @ pending (mm_bufmap st) (addr_key a) =
      payload_from (concat sample_batches) a"
    using sync_thread_keeps_bytes [of 2 4 "copy_kernel 8" 3 0 "[False]" sample_batches "\<lambda>a. of_nat (length a)" "\<lambda>k. True"] by blast
  moreover have "payload_from (concat sample_batches) (sample_name CHR ''b'') = ''y:2|c''" by code_simp
  ultimately show ?thesis by (intro exI conjI) (assumption, simp add: sample_name_def)
qed

text \<open>
  Accounting of a batch in the multimessage mode: \<open>INGRESS\<close> grows by the bytes of the
  batch, and every buffer that a worker's queue refuses adds the number of messages of the
  whole batch to \<open>DROPS\<close>, whichever sender and batch its bytes came from.
\<close>

theorem sync_batch_accounts:
  assumes "recvmmsg_law rowsize recvmmsg" and "mm_ok packets rowsize n i s" and "mm_valid packets rowsize batch"
  shows "\<exists>st net. mm_loop recvmmsg hash accepts cfg n i rowsize [batch] s = Inr (st, net) \<and>
    INGRESS (net_stats net) = INGRESS (net_stats (snd s)) + of_nat (batch_bytes batch) \<and>
    DROPS (net_stats net) = DROPS (net_stats (snd s))
      + of_nat (length batch) * (of_nat (rejected net) - of_nat (rejected (snd s)))"
proof -
  obtain st net where call: "mm_call recvmmsg hash accepts cfg n i rowsize batch s = Inr (st, net)"
    and "INGRESS (net_stats net) = INGRESS (net_stats (snd s)) + of_nat (batch_bytes batch)"
    and "DROPS (net_stats net) - of_nat (length batch) * of_nat (rejected net)
      = DROPS (net_stats (snd s)) - of_nat (length batch) * of_nat (rejected (snd s))"
    using mm_call_spec [OF assms, of hash accepts cfg] by blast
  then have "DROPS (net_stats net) = DROPS (net_stats (snd s))
      + of_nat (length batch) * (of_nat (rejected net) - of_nat (rejected (snd s)))"
    by (simp add: algebra_simps)
  with call \<open>INGRESS (net_stats net) = _\<close> show ?thesis
    by (simp add: mm_loop_call del: mm_loop.simps(2))
qed

text \<open>
  The preparation of a multimessage thread: if its buffer size fits the machine word, it
  does not panic, and the scatter buffers are the rows of the receive buffer, each large
  enough for a whole batch of datagrams of \<open>bufsize\<close> bytes, side by side without overlap and
  up to its end.
\<close>

lemma sync_setup_rows:
  assumes "unat packets * unat packets * unat bsize < 2 ^ 64"
  shows "\<exists>st. mm_setup packets bsize = Inr st \<and>
    length (mheaders (mem st)) = unat packets \<and> length (addrs (mem st)) = unat packets \<and>
    length (recv_buffer (mem st)) = unat packets * (unat packets * unat bsize) \<and>
    (\<forall>j < unat packets. \<exists>v. msg_iov (mheaders (mem st) ! j) = Some v \<and>
      unat (iov_len v) = unat packets * unat bsize \<and> unat (iov_base v) = j * (unat packets * unat bsize))"
proof -
  have "unat (of_nat j * mm_rowsize packets bsize) = j * (unat packets * unat bsize)" if "j < unat packets" for j
  proof -
    have "Suc j * unat (mm_rowsize packets bsize) \<le> unat packets * (unat packets * unat bsize)"
      using that mm_sizes(1) [OF assms] by (intro mult_le_mono) simp_all
    with assms have "Suc j * unat (mm_rowsize packets bsize) < 2 ^ 64" by (simp add: mult.assoc)
    from unat_row_end(1) [OF this] show ?thesis by (simp add: mm_sizes(1) [OF assms])
  qed
  then show ?thesis
    by (simp add: mm_setup_eq [OF assms] mm_chunk_def mm_sizes(1) [OF assms])
qed

text \<open>The two branches of a datagram's handling, as equations.\<close>

lemma server_receive_keeps:
  assumes "payload \<noteq> []" and "thread_idx srv < length (flush_flags net)" and "\<not> flush_flags net ! thread_idx srv"
    and "recv_counter srv + of_nat (length payload) < buffer_flush_length (network (server_config srv))"
  shows "server_receive hash accepts n (Datagram payload addr) srv net =
    Inr (Some (srv\<lparr>bufmap := append_buffer addr payload (bufmap srv),
        recv_counter := recv_counter srv + of_nat (length payload)\<rparr>),
      net\<lparr>net_stats := add_ingress 1 (net_stats net)\<rparr>)"
proof -
  have "\<not> buffer_flush_length (network (server_config srv)) \<le> recv_counter srv + of_nat (length payload)"
    using assms(4) by simp
  with assms(1-3) show ?thesis
    by (cases srv; cases net) (simp add: server_receive_def statsd_server_new_def Let_def list_update_same_conv)
qed

lemma server_receive_flushes:
  assumes "payload \<noteq> []" and "thread_idx srv < length (flush_flags net)" and "flush_flags net ! thread_idx srv"
    and "0 < n" and "hm_wf (bufmap srv)"
  shows "\<exists>nxt net'. server_receive hash accepts n (Datagram payload addr) srv net =
      Inr (Some (srv\<lparr>bufmap := [], recv_counter := 0, next_chan := nxt\<rparr>), net') \<and>
    flush_flags net' = (flush_flags net)[thread_idx srv := False] \<and>
    (\<forall>a. flushed net' a = flushed net a @ pending (append_buffer addr payload (bufmap srv)) a)"
  using assms
  by (cases srv) (simp add: server_receive_def statsd_server_new_def Let_def case_prod_unfold
      fold_server_flush_flushed fold_server_flush_flags)

text \<open>
  C37. A flush request reaches one listener of a thread only. All listeners that the
  asynchronous mode starts in a thread share its flag: while one of them holds bytes of a
  sender, a flush is requested, and the other one, receiving a datagram first, takes the
  request and flushes its own buffers; when the first one receives its next datagram, it
  keeps all its bytes buffered as if no flush had been requested.
\<close>

theorem flush_request_reaches_one_listener:
  assumes "i < threads" and "length flags = threads" and "flags ! i" and "0 < n"
    and "srv1 \<in> set (start_async_udp cfg threads n_greens sockets bsize ! i)"
    and "srv2 \<in> set (start_async_udp cfg threads n_greens sockets bsize ! i)"
    and "p \<noteq> []" and "q1 \<noteq> []" and "q2 \<noteq> []"
    and "of_nat (length q1) < buffer_flush_length (network cfg)"
    and "of_nat (length q1) + of_nat (length q2) < buffer_flush_length (network cfg)"
  shows "\<exists>srv2' net1 srv1' net2 srv2'' net3.
    server_receive hash accepts n (Datagram q1 b) srv2 (fresh_net (flags[i := False]) c) = Inr (Some srv2', net1) \<and>
    server_receive hash accepts n (Datagram p a) srv1 (net1\<lparr>flush_flags := flags\<rparr>) = Inr (Some srv1', net2) \<and>
    server_receive hash accepts n (Datagram q2 b) srv2' net2 = Inr (Some srv2'', net3) \<and>
    bufmap srv1' = [] \<and> pending (bufmap srv2'') b = q1 @ q2 \<and> flushed net3 b = (if b = a then p else [])"
proof -
  have srv1: "srv1 = statsd_server_new [] cfg bsize 0 i i" and srv2: "srv2 = statsd_server_new [] cfg bsize 0 i i"
    using assms(1,5,6) by (auto simp: start_async_udp_def in_set_replicate)
  let ?srv2 = "srv2\<lparr>bufmap := append_buffer b q1 (bufmap srv2), recv_counter := of_nat (length q1)\<rparr>"
  let ?net = "fresh_net (flags[i := False]) (add_ingress 1 c)"
  have 1: "server_receive hash accepts n (Datagram q1 b) srv2 (fresh_net (flags[i := False]) c) = Inr (Some ?srv2, ?net)"
    using assms by (subst server_receive_keeps) (simp_all add: srv2 statsd_server_new_def)
  obtain nxt net2 where 2: "server_receive hash accepts n (Datagram p a) srv1 (?net\<lparr>flush_flags := flags\<rparr>) =
      Inr (Some (srv1\<lparr>bufmap := [], recv_counter := 0, next_chan := nxt\<rparr>), net2)"
    and "flush_flags net2 = flags[i := False]" and on: "flushed net2 b = (if b = a then p else [])"
    using server_receive_flushes [of p srv1 "?net\<lparr>flush_flags := flags\<rparr>" n hash accepts a] assms
    by (auto simp: srv1 statsd_server_new_def flushed_def hm_wf_def hm_keys_def)
  then have "server_receive hash accepts n (Datagram q2 b) ?srv2 net2 =
      Inr (Some (?srv2\<lparr>bufmap := append_buffer b q2 (bufmap ?srv2), recv_counter := recv_counter ?srv2 + of_nat (length q2)\<rparr>),
        net2\<lparr>net_stats := add_ingress 1 (net_stats net2)\<rparr>)"
    using assms by (intro server_receive_keeps) (simp_all add: srv2 statsd_server_new_def)
  with 1 2 on show ?thesis by (simp add: srv2 statsd_server_new_def)
qed

theorem flush_request_reaches_one_listener_witness:
  "\<exists>srv2' net1 srv1' net2 srv2'' net3.
    server_receive sample_hash (\<lambda>k. True) 3 (Datagram ''x'' (SocketAddrV4 10 0 0 2 8))
      (statsd_server_new [] (sample_config True) 1500 0 0 0) (fresh_net [False] counters_init) = Inr (Some srv2', net1) \<and>
    server_receive sample_hash (\<lambda>k. True) 3 (Datagram ''y'' (SocketAddrV4 10 0 0 1 5))
      (statsd_server_new [] (sample_config True) 1500 0 0 0) (net1\<lparr>flush_flags := [True]\<rparr>) = Inr (Some srv1', net2) \<and>
    server_receive sample_hash (\<lambda>k. True) 3 (Datagram ''z'' (SocketAddrV4 10 0 0 2 8)) srv2' net2 = Inr (Some srv2'', net3) \<and>
    pending (bufmap srv2'') (SocketAddrV4 10 0 0 2 8) = ''xz''"
proof -
  have fl: "buffer_flush_length (network (sample_config True)) = 4" by (simp add: sample_config_def)
  have srv: "statsd_server_new [] (sample_config True) 1500 0 0 0 \<in> set (start_async_udp (sample_config True) 1 2 1 1500 ! 0)"
    by (simp add: start_async_udp_def numeral_2_eq_2)
  show ?thesis
    using flush_request_reaches_one_listener [OF _ _ _ _ srv srv, of "[True]" 3 "''y''" "''x''" "''z''" sample_hash "\<lambda>k. True"
        "SocketAddrV4 10 0 0 2 8" counters_init "SocketAddrV4 10 0 0 1 5"]
    by (simp add: fl del: Product_Type.split_paired_Ex) blast
qed

end
