(* ===== verification/Util.thy ===== *)
theory Util
  imports Task Decimal Backoff
begin

text \<open>
  \<^verbatim>\<open>src/util.rs\<close> apart from sockets, the retrying future and \<open>switch_leader\<close>: resolving
  addresses, the host name, and the node's own statistics. DNS and \<open>gethostname\<close> are
  parameters, and so is the standard library's reader of IPv6 socket addresses; the reader of
  IPv4 ones is written out.
\<close>

section \<open>Addresses\<close>

datatype ip_addr = IpV4 u8 u8 u8 u8 | IpV6 "u16 list"

definition socket_addr_new :: "ip_addr \<Rightarrow> u16 \<Rightarrow> socket_addr" where
  "socket_addr_new ip port =
    (case ip of IpV4 a b c d \<Rightarrow> SocketAddrV4 a b c d port | IpV6 segments \<Rightarrow> SocketAddrV6 segments port 0 0)"

text \<open>A number of at most \<open>k\<close> digits below \<open>limit\<close>, as the address parser reads it.\<close>

definition read_limited :: "nat \<Rightarrow> nat \<Rightarrow> string \<Rightarrow> nat option" where
  "read_limited k limit s =
    (if length s \<le> k then case read_nat s of Some n \<Rightarrow> if n < limit then Some n else None | None \<Rightarrow> None
     else None)"

definition read_ipv4 :: "string \<Rightarrow> ip_addr option" where
  "read_ipv4 s =
    (case map (read_limited 3 256) (split_char CHR ''.'' s) of
       [Some a, Some b, Some c, Some d] \<Rightarrow> Some (IpV4 (of_nat a) (of_nat b) (of_nat c) (of_nat d))
     | _ \<Rightarrow> None)"

definition read_socket_addr :: "(string \<Rightarrow> socket_addr option) \<Rightarrow> string \<Rightarrow> socket_addr option" where
  "read_socket_addr v6 s =
    (case split_char CHR '':'' s of
       [host, port] \<Rightarrow>
         (case (read_ipv4 host, read_limited 5 65536 port) of
            (Some ip, Some p) \<Rightarrow> Some (socket_addr_new ip (of_nat p))
          | _ \<Rightarrow> v6 s)
     | _ \<Rightarrow> v6 s)"

text \<open>\<open>u16::from_str\<close>: digits, with an optional plus sign, without overflow.\<close>

definition read_u16 :: "string \<Rightarrow> u16 option" where
  "read_u16 s =
    (case read_nat (case s of x # xs \<Rightarrow> if x = CHR ''+'' then xs else s | [] \<Rightarrow> s) of
       Some n \<Rightarrow> if n < 65536 then Some (of_nat n) else None
     | None \<Rightarrow> None)"

definition try_resolve ::
    "(string \<Rightarrow> socket_addr option) \<Rightarrow> (string \<Rightarrow> ip_addr list option) \<Rightarrow> string \<Rightarrow> panic + socket_addr" where
  "try_resolve v6 resolve_host s =
    (case read_socket_addr v6 s of
       Some addr \<Rightarrow> Inr addr
     | None \<Rightarrow>
         (case split_char CHR '':'' s of
            host # port # _ \<Rightarrow>
              (case read_u16 port of
                 None \<Rightarrow> Inl (Panic ''bad port value'')
               | Some p \<Rightarrow>
                   (case resolve_host host of
                      None \<Rightarrow> Inl (Panic ''failed resolving'')
                    | Some [] \<Rightarrow> Inl (Panic ''at least one IP address required'')
                    | Some (first_ip # _) \<Rightarrow> Inr (socket_addr_new first_ip p)))
          | _ \<Rightarrow> Inl (Panic ''port not found'')))"

section \<open>Host name\<close>

text \<open>
  \<open>CStr::to_string_lossy\<close>: bytes that are not UTF-8 become the replacement character. The
  first byte of a sequence determines its length and the range of the second byte.
\<close>

definition utf8_width :: "char \<Rightarrow> nat" where
  "utf8_width b =
    (let n = of_char b :: nat in
     if n < 0x80 then 1 else if n < 0xC2 then 0 else if n < 0xE0 then 2 else if n < 0xF0 then 3
     else if n < 0xF5 then 4 else 0)"

definition utf8_second :: "char \<Rightarrow> char \<Rightarrow> bool" where
  "utf8_second b x =
    (let n = of_char b :: nat; m = of_char x :: nat;
         lo = (if n = 0xE0 then 0xA0 else if n = 0xF0 then 0x90 else 0x80);
         hi = (if n = 0xED then 0xA0 else if n = 0xF4 then 0x90 else 0xC0)
     in lo \<le> m \<and> m < hi)"

definition utf8_cont :: "char \<Rightarrow> bool" where
  "utf8_cont x = (let m = of_char x :: nat in 0x80 \<le> m \<and> m < 0xC0)"

text \<open>The first sequence of the text: whether it is complete, and how many bytes it takes.\<close>

definition utf8_scan :: "char \<Rightarrow> bytes \<Rightarrow> bool \<times> nat" where
  "utf8_scan b bs =
    (if utf8_width b = 1 then (True, 1)
     else if utf8_width b = 0 \<or> bs = [] \<or> \<not> utf8_second b (hd bs) then (False, 1)
     else (let conts = length (takeWhile utf8_cont (take (utf8_width b - 2) (tl bs)))
           in (conts = utf8_width b - 2, 2 + conts)))"

function to_string_lossy :: "bytes \<Rightarrow> bytes" where
  "to_string_lossy [] = []"
| "to_string_lossy (b # bs) =
    (let (complete, n) = utf8_scan b bs
     in (if complete then take n (b # bs) else [CHR 0xEF, CHR 0xBF, CHR 0xBD]) @ to_string_lossy (drop n (b # bs)))"
  by pat_completeness auto

lemma utf8_scan_pos: "0 < snd (utf8_scan b bs)"
  by (simp add: utf8_scan_def Let_def)

termination to_string_lossy
proof (relation "measure length", simp)
  fix b bs x and complete :: bool and n
  assume "x = utf8_scan b bs" "(complete, n) = x"
  then have "0 < n" using utf8_scan_pos [of b bs] by (metis snd_conv)
  then show "(drop n (b # bs), b # bs) \<in> measure length" by simp
qed

text \<open>\<open>get_hostname\<close>: the name is what precedes the first null byte of the buffer.\<close>

definition get_hostname :: "(nat \<Rightarrow> bytes option) \<Rightarrow> string option" where
  "get_hostname gethostname =
    (case gethostname 255 of
       None \<Rightarrow> None
     | Some buf \<Rightarrow> Some (to_string_lossy (takeWhile (\<lambda>x. x \<noteq> CHR 0x00) buf)))"

section \<open>Own statistics\<close>

record own_stats =
  stats_ival :: u64
  own_prefix :: string

text \<open>\<open>OwnStats::new\<close>: the period of the timer, in milliseconds.\<close>

definition own_stats_period :: "u64 \<Rightarrow> u64" where
  "own_stats_period interval = (if interval < 100 then 1000 else interval)"

text \<open>The stats prefix of \<open>main\<close>: \<open>trim_end_matches(".")\<close>.\<close>

definition trim_dots :: "string \<Rightarrow> string" where
  "trim_dots s = rev (dropWhile (\<lambda>x. x = CHR ''.'') (rev s))"

text \<open>
  The counters in the order of the calls of \<open>add_metric!\<close>: reading, resetting, suffix.
\<close>

definition stat_counters :: "((counters \<Rightarrow> usize) \<times> (counters \<Rightarrow> counters) \<times> string) list" where
  "stat_counters =
    [(EGRESS, \<lambda>c. c\<lparr>EGRESS := 0\<rparr>, ''egress''),
     (INGRESS, \<lambda>c. c\<lparr>INGRESS := 0\<rparr>, ''ingress''),
     (INGRESS_METRICS, \<lambda>c. c\<lparr>INGRESS_METRICS := 0\<rparr>, ''ingress-metric''),
     (AGG_ERRORS, \<lambda>c. c\<lparr>AGG_ERRORS := 0\<rparr>, ''agg-error''),
     (PARSE_ERRORS, \<lambda>c. c\<lparr>PARSE_ERRORS := 0\<rparr>, ''parse-error''),
     (PEER_ERRORS, \<lambda>c. c\<lparr>PEER_ERRORS := 0\<rparr>, ''peer-error''),
     (DROPS, \<lambda>c. c\<lparr>DROPS := 0\<rparr>, ''drop'')]"

text \<open>
  One \<open>add_metric!\<close>. \<open>room\<close> is what is left of the name buffer's capacity; writing more than
  that into the buffer panics. The tasks go to the first worker.
\<close>

definition add_metric ::
    "'m metric_lib \<Rightarrow> own_stats \<Rightarrow> (counters \<Rightarrow> usize) \<times> (counters \<Rightarrow> counters) \<times> string
      \<Rightarrow> panic + counters \<times> nat \<times> 'm task list \<Rightarrow> panic + counters \<times> nat \<times> 'm task list" where
  "add_metric lib os = (\<lambda>(value_of, reset, sfx) st.
    case st of
      Inl p \<Rightarrow> Inl p
    | Inr (c, room, out) \<Rightarrow>
        let value = f64_of_usize (value_of c); c' = reset c; name = own_prefix os @ ''.'' @ sfx in
        if 0 < stats_ival os then
          if room < length name then Inl (Panic ''buffer overflow'')
          else Inr (c', room - length name, out @ [AddMetric name (metric_new_counter lib value)])
        else Inr (c', room, out))"

definition get_stats :: "'m metric_lib \<Rightarrow> own_stats \<Rightarrow> counters \<Rightarrow> panic + counters \<times> 'm task list" where
  "get_stats lib os c =
    (case fold (add_metric lib os) stat_counters (Inr (c, (length (own_prefix os) + 10) * 7, [])) of
       Inl p \<Rightarrow> Inl p
     | Inr (c', room, out) \<Rightarrow> Inr (c', out))"

text \<open>
  \<open>OwnStats::poll\<close>, given what the timer answers, poll after poll. The result is whether the
  future is still pending (it fails with its timer), the counters, the tasks that were sent
  and the answers that are left; \<open>None\<close> means that the answers ran out.
\<close>

fun own_stats_poll ::
    "'m metric_lib \<Rightarrow> own_stats \<Rightarrow> (unit option, unit) polled list \<Rightarrow> counters \<Rightarrow> 'm task list
      \<Rightarrow> (panic + bool \<times> counters \<times> 'm task list \<times> (unit option, unit) polled list) option" where
  "own_stats_poll lib os [] c out = None"
| "own_stats_poll lib os (Ready (Some u) # answers) c out =
    (case get_stats lib os c of
       Inl p \<Rightarrow> Some (Inl p)
     | Inr (c', ts) \<Rightarrow> own_stats_poll lib os answers c' (out @ ts))"
| "own_stats_poll lib os (Ready None # answers) c out = Some (Inl (Panic ''internal error: entered unreachable code''))"
| "own_stats_poll lib os (NotReady # answers) c out = Some (Inr (True, c, out, answers))"
| "own_stats_poll lib os (Failed u # answers) c out = Some (Inr (False, c, out, answers))"

section \<open>Numeric addresses\<close>

definition show_ipv4 :: "u8 \<Rightarrow> u8 \<Rightarrow> u8 \<Rightarrow> u8 \<Rightarrow> string" where
  "show_ipv4 a b c d = show_nat (unat a) @ ''.'' @ show_nat (unat b) @ ''.'' @ show_nat (unat c) @ ''.'' @ show_nat (unat d)"

lemma dot_not_digit [simp]: "digit_value CHR ''.'' = None" "digit_value CHR '':'' = None"
  by (simp_all add: digit_value_def)

lemma read_limited_show:
  "n < limit \<Longrightarrow> limit \<le> 10 ^ k \<Longrightarrow> 0 < k \<Longrightarrow> read_limited k limit (show_nat n) = Some n"
  using length_show_nat [of n k] by (simp add: read_limited_def)

lemma read_ipv4_show: "read_ipv4 (show_ipv4 a b c d) = Some (IpV4 a b c d)"
proof -
  have "read_limited 3 256 (show_nat (unat x)) = Some (unat x)" for x :: u8
    using unsigned_less [of x] by (intro read_limited_show) simp_all
  then show ?thesis
    by (simp add: read_ipv4_def show_ipv4_def split_char_append split_char_single show_nat_digits)
qed

lemma colon_not_ipv4: "CHR '':'' \<notin> set (show_ipv4 a b c d)"
  by (simp add: show_ipv4_def show_nat_digits)

section \<open>Host names\<close>

lemma to_string_lossy_ascii: "\<forall>x \<in> set s. (of_char x :: nat) < 0x80 \<Longrightarrow> to_string_lossy s = s"
  by (induction s) (simp_all add: utf8_scan_def utf8_width_def)

section \<open>Properties\<close>

text \<open>
  Address resolution. The text form of every IPv4 socket address is read back as that
  address without asking DNS; for \<open>host:port\<close> with a valid port, where the text is no numeric
  address, the result is the first address that DNS has for the host, with that port.
\<close>

theorem try_resolve_spec:
  "try_resolve v6 dns (show_ipv4 a b c d @ '':'' @ show_nat (unat p)) = Inr (SocketAddrV4 a b c d p) \<and>
   (\<forall>host ip ips. CHR '':'' \<notin> set host \<longrightarrow> dns host = Some (ip # ips) \<longrightarrow>
     read_socket_addr v6 (host @ '':'' @ show_nat (unat p)) = None \<longrightarrow>
     try_resolve v6 dns (host @ '':'' @ show_nat (unat p)) = Inr (socket_addr_new ip p))"
proof -
  have port: "read_limited 5 65536 (show_nat (unat p)) = Some (unat p)"
    using unsigned_less [of p] by (intro read_limited_show) simp_all
  have u16: "read_u16 (show_nat (unat p)) = Some p"
  proof -
    have "CHR ''+'' \<notin> set (show_nat (unat p))" by (intro show_nat_digits) (simp add: digit_value_def)
    then have "(case show_nat (unat p) of x # xs \<Rightarrow> if x = CHR ''+'' then xs else show_nat (unat p)
        | [] \<Rightarrow> show_nat (unat p)) = show_nat (unat p)"
      by (auto split: list.split)
    then show ?thesis using unsigned_less [of p] by (simp add: read_u16_def)
  qed
  have pieces: "split_char CHR '':'' (host @ CHR '':'' # show_nat (unat p)) = [host, show_nat (unat p)]"
    if "CHR '':'' \<notin> set host" for host
    using that by (simp add: split_char_append split_char_single show_nat_digits)
  show ?thesis
    using pieces [OF colon_not_ipv4, of a b c d]
    by (auto simp: try_resolve_def pieces u16) (simp add: read_socket_addr_def read_ipv4_show port socket_addr_new_def)
qed

text \<open>What one report of the counters sends.\<close>

definition stats_report :: "'m metric_lib \<Rightarrow> own_stats \<Rightarrow> counters \<Rightarrow> 'm task list" where
  "stats_report lib os c =
    (if 0 < stats_ival os
     then map (\<lambda>(value_of, reset, sfx). AddMetric (own_prefix os @ ''.'' @ sfx)
        (metric_new_counter lib (f64_of_usize (value_of c)))) stat_counters
     else [])"

lemma get_stats_report: "get_stats lib os c = Inr (counters_init, stats_report lib os c)"
  by (auto simp: get_stats_def stats_report_def stat_counters_def add_metric_def counters_init_def Let_def)

lemma own_stats_poll_ready:
  "own_stats_poll lib os (replicate k (Ready (Some ())) @ NotReady # rest) counters_init out =
    Some (Inr (True, counters_init, out @ concat (replicate k (stats_report lib os counters_init)), rest))"
  by (induction k arbitrary: out) (simp_all add: get_stats_report)

text \<open>
  C34. The node's own statistics: one report never overruns the name buffer, resets all seven
  counters, and queues one counter metric with the value of each, named by the prefix and
  the counter's suffix, no two with the same name; with a zero interval the counters are
  reset all the same, but nothing is queued. When the reporter is polled after several ticks
  of its timer, it catches up: the first of them reports the counters, the others zeros.
\<close>

theorem own_stats_spec:
  "get_stats lib os c = Inr (counters_init,
     if 0 < stats_ival os
     then map (\<lambda>(value_of, reset, sfx). AddMetric (own_prefix os @ ''.'' @ sfx)
        (metric_new_counter lib (f64_of_usize (value_of c)))) stat_counters
     else []) \<and>
   distinct (map (\<lambda>(value_of, reset, sfx). own_prefix os @ ''.'' @ sfx) stat_counters) \<and>
   set (map (\<lambda>(value_of, reset, sfx). value_of c) stat_counters) =
     {PARSE_ERRORS c, AGG_ERRORS c, PEER_ERRORS c, INGRESS c, INGRESS_METRICS c, EGRESS c, DROPS c} \<and>
   own_stats_poll lib os (replicate (Suc k) (Ready (Some ())) @ NotReady # rest) c [] =
     Some (Inr (True, counters_init, stats_report lib os c @ concat (replicate k (stats_report lib os counters_init)), rest))"
  by (auto simp: get_stats_report stats_report_def [symmetric] own_stats_poll_ready) (auto simp: stat_counters_def)

end
