(* ===== verification/Consensus.thy ===== *)
theory Consensus
  imports Management Util
begin

text \<open>
  \<^verbatim>\<open>src/raft.rs\<close> and \<^verbatim>\<open>src/consul.rs\<close>: the two ways in which a node learns whether it leads. The
  Raft library and the Consul agent are outside; here are the notifications of the one, the
  answers of the other, and what the node does with them. Leadership itself is the record
  shared with the management interface. The URLs of the Consul requests are taken to be valid;
  \<open>switch_leader\<close> is a single step here, and \<open>Race\<close> takes it apart.
\<close>

section \<open>Internal Raft\<close>

datatype raft_role = Follower | Candidate | Leader

text \<open>\<open>LeaderNotifier::state_changed\<close>.\<close>

definition state_changed :: "raft_role \<Rightarrow> raft_role \<Rightarrow> leadership \<Rightarrow> leadership" where
  "state_changed old new l =
    (if old \<noteq> new then
       (if new = Leader then switch_leader True l
        else if old = Leader then switch_leader False l
        else l)
     else l)"

text \<open>
  \<open>start_internal_raft\<close>: the own server id, the map of all nodes and the options that the
  library is started with. \<open>rnd\<close> is the random id for a node that its own list lacks.
\<close>

fun resolve_nodes ::
    "(string \<Rightarrow> panic + socket_addr) \<Rightarrow> socket_addr \<Rightarrow> (string \<times> u64) list
      \<Rightarrow> u64 option \<times> (u64, socket_addr) hash_map \<Rightarrow> panic + u64 option \<times> (u64, socket_addr) hash_map" where
  "resolve_nodes resolve this [] (this_id, acc) = Inr (this_id, acc)"
| "resolve_nodes resolve this ((node, nid) # rest) (this_id, acc) =
    (case resolve node of
       Inl p \<Rightarrow> Inl p
     | Inr addr \<Rightarrow>
         resolve_nodes resolve this rest (if addr = this then Some nid else this_id, hm_insert nid addr acc))"

definition raft_this :: "(string \<Rightarrow> panic + socket_addr) \<Rightarrow> string option \<Rightarrow> raft_config \<Rightarrow> panic + socket_addr" where
  "raft_this resolve hostname cfg =
    (case this_node cfg of
       Some nm \<Rightarrow> resolve nm
     | None \<Rightarrow>
         (case hostname of
            None \<Rightarrow> Inl (Panic ''getting own hostname'')
          | Some h \<Rightarrow> resolve (h @ '':8138'')))"

definition start_internal_raft ::
    "(string \<Rightarrow> panic + socket_addr) \<Rightarrow> string option \<Rightarrow> u64 \<Rightarrow> raft_config
      \<Rightarrow> panic + u64 \<times> (u64, socket_addr) hash_map \<times> raft_options" where
  "start_internal_raft resolve hostname rnd cfg =
    (case raft_this resolve hostname cfg of
       Inl p \<Rightarrow> Inl p
     | Inr this \<Rightarrow>
         (case resolve_nodes resolve this (raft_nodes cfg) (None, []) of
            Inl p \<Rightarrow> Inl p
          | Inr (Some nid, nodes) \<Rightarrow> Inr (nid, nodes, get_raft_options cfg)
          | Inr (None, nodes) \<Rightarrow> Inr (rnd, hm_insert rnd this nodes, get_raft_options cfg)))"

section \<open>Consul\<close>

datatype consul_error =
    Session string
  | HttpStatus nat string
  | ConnectionTimeout
  | Http string
  | Parsing
  | Io string
  | Renew string
  | Timer string

text \<open>Durations in nanoseconds.\<close>

type_synonym duration = nat

abbreviation from_secs :: "nat \<Rightarrow> duration" where "from_secs n \<equiv> n * 1000000000"
abbreviation from_millis :: "nat \<Rightarrow> duration" where "from_millis n \<equiv> n * 1000000"

record consul_consensus =
  cc_agent :: socket_addr
  cc_key :: string
  cc_session_ttl :: duration
  cc_renew_time :: duration
  cc_error_pause :: duration

definition consul_consensus_new :: "socket_addr \<Rightarrow> string \<Rightarrow> consul_consensus" where
  "consul_consensus_new agent key =
    \<lparr>cc_agent = agent, cc_key = key, cc_session_ttl = from_secs 7, cc_renew_time = from_secs 1,
     cc_error_pause = from_secs 1\<rparr>"

definition set_key :: "string \<Rightarrow> consul_consensus \<Rightarrow> consul_consensus" where
  "set_key key cc = cc\<lparr>cc_key := key\<rparr>"

definition set_session_ttl :: "duration \<Rightarrow> consul_consensus \<Rightarrow> consul_consensus" where
  "set_session_ttl ttl cc = cc\<lparr>cc_session_ttl := ttl\<rparr>"

definition set_renew_time :: "duration \<Rightarrow> consul_consensus \<Rightarrow> consul_consensus" where
  "set_renew_time ttl cc = cc\<lparr>cc_renew_time := ttl\<rparr>"

definition set_error_pause :: "duration \<Rightarrow> consul_consensus \<Rightarrow> consul_consensus" where
  "set_error_pause pause cc = cc\<lparr>cc_error_pause := pause\<rparr>"

subsection \<open>Requests\<close>

text \<open>All requests are \<open>PUT\<close>s to the agent; the headers say the length and the type of the body.\<close>

record consul_request =
  cr_agent :: socket_addr
  cr_path :: string
  cr_body :: bytes
  cr_content_length :: "string option"
  cr_content_type :: "string option"

definition form_urlencoded :: string where
  "form_urlencoded = ''application/x-www-form-urlencoded''"

definition ttl_ns :: "duration \<Rightarrow> u64" where
  "ttl_ns ttl = of_nat (ttl div 1000000000) * 1000000000 + of_nat (ttl mod 1000000000)"

definition quoted_ns :: "u64 \<Rightarrow> string" where
  "quoted_ns n = [CHR 0x22] @ show_nat (unat n) @ ''ns'' @ [CHR 0x22]"

text \<open>What the three futures of the loop hold: \<open>ConsulSession\<close>, \<open>ConsulRenew\<close> and \<open>ConsulAcquire\<close>.\<close>

record session_future =
  sf_agent :: socket_addr
  sf_ttl :: duration

record renew_future =
  rf_agent :: socket_addr
  rf_sid :: string
  rf_ttl :: duration

record acquire_future =
  af_agent :: socket_addr
  af_sid :: string
  af_key :: string

definition session_request :: "session_future \<Rightarrow> consul_request" where
  "session_request sf =
    (let b = ''{'' @ [CHR 0x22] @ ''TTL'' @ [CHR 0x22] @ '': '' @ quoted_ns (ttl_ns (sf_ttl sf)) @ '', '' @
           [CHR 0x22] @ ''LockDelay'' @ [CHR 0x22] @ '': '' @ quoted_ns (ttl_ns (sf_ttl sf)) @ ''}''
     in \<lparr>cr_agent = sf_agent sf, cr_path = ''/v1/session/create'', cr_body = b,
         cr_content_length = Some (show_nat (length b)), cr_content_type = Some form_urlencoded\<rparr>)"

definition renew_request :: "renew_future \<Rightarrow> consul_request" where
  "renew_request rf =
    (let b = ''{'' @ [CHR 0x22] @ ''TTL'' @ [CHR 0x22] @ '': '' @ quoted_ns (ttl_ns (rf_ttl rf)) @ ''}''
     in \<lparr>cr_agent = rf_agent rf, cr_path = ''/v1/session/renew/'' @ rf_sid rf, cr_body = b,
         cr_content_length = Some (show_nat (length b)), cr_content_type = Some form_urlencoded\<rparr>)"

definition acquire_request :: "acquire_future \<Rightarrow> consul_request" where
  "acquire_request af =
    \<lparr>cr_agent = af_agent af, cr_path = ''/v1/kv/'' @ af_key af @ ''/?acquire='' @ af_sid af, cr_body = [],
     cr_content_length = None, cr_content_type = None\<rparr>"

subsection \<open>Answers\<close>

text \<open>The JSON readers: the response to a session request, and a boolean.\<close>

record consul_session_response =
  csr_id :: string

record consul_json =
  session_of :: "bytes \<Rightarrow> consul_session_response option"
  bool_of :: "bytes \<Rightarrow> bool option"

type_synonym http_answer = "string + http_response"

text \<open>
  \<open>ConsulSession\<close>: the request races against a timeout of one TTL, which yields no session. An
  answer with a bad status is reported after a pause (whose timer may fail as well).
\<close>

datatype session_outcome =
    SessionTimeout
  | SessionTimerError string
  | SessionAnswer http_answer "string option"

definition consul_session :: "consul_json \<Rightarrow> session_outcome \<Rightarrow> consul_error + string option" where
  "consul_session cj out =
    (case out of
       SessionTimeout \<Rightarrow> Inr None
     | SessionTimerError e \<Rightarrow> Inl (Timer e)
     | SessionAnswer (Inl e) pause_error \<Rightarrow> Inl (Http e)
     | SessionAnswer (Inr resp) pause_error \<Rightarrow>
         (if resp_status resp = OK then
            (case resp_body resp of
               Inl e \<Rightarrow> Inl (Http e)
             | Inr body \<Rightarrow>
                 (case session_of cj body of None \<Rightarrow> Inl Parsing | Some resp \<Rightarrow> Inr (Some (csr_id resp))))
          else
            (case (pause_error, resp_body resp) of
               (Some e, _) \<Rightarrow> Inl (Timer e)
             | (None, Inl e) \<Rightarrow> Inl (Http e)
             | (None, Inr body) \<Rightarrow> Inl (HttpStatus (resp_status resp) body))))"

definition consul_renew :: "http_answer \<Rightarrow> consul_error + unit" where
  "consul_renew ans =
    (case ans of
       Inl e \<Rightarrow> Inl (Http e)
     | Inr resp \<Rightarrow>
         (if resp_status resp \<noteq> OK then
            (case resp_body resp of Inl e \<Rightarrow> Inl (Http e) | Inr body \<Rightarrow> Inl (Renew body))
          else Inr ()))"

definition consul_acquire :: "consul_json \<Rightarrow> http_answer \<Rightarrow> leadership \<Rightarrow> (consul_error + unit) \<times> leadership" where
  "consul_acquire cj ans l =
    (case ans of
       Inl e \<Rightarrow> (Inl (Http e), l)
     | Inr resp \<Rightarrow>
         (case resp_body resp of
            Inl e \<Rightarrow> (Inl (Http e), l)
          | Inr body \<Rightarrow>
              (case bool_of cj body of
                 None \<Rightarrow> (Inl Parsing, l)
               | Some acquired \<Rightarrow> (Inr (), switch_leader acquired l))))"

subsection \<open>The loop\<close>

text \<open>
  \<open>ConsulConsensus::into_future\<close> as a machine. \<open>Connecting\<close> is the session loop between two
  attempts, \<open>Idle\<close> the renewing loop between two ticks; \<open>Busy sid waiting\<close> waits for the answers
  to the two requests of a tick, which run concurrently and of which the first error drops the
  other. Any error leads back to \<open>Connecting\<close>; the pauses in between are not visible.
\<close>

datatype waiting = ForBoth | ForRenew | ForAcquire

datatype consul_phase =
    Connecting
  | AwaitSession
  | Idle string
  | Busy string waiting

datatype consul_event =
    Attempt
  | SessionDone session_outcome
  | Tick
  | TickError string
  | RenewDone http_answer
  | AcquireDone http_answer

definition consul_step ::
    "consul_json \<Rightarrow> consul_consensus \<Rightarrow> consul_event \<Rightarrow> consul_phase \<times> leadership
      \<Rightarrow> ((consul_phase \<times> leadership) \<times> consul_request list) option" where
  "consul_step cj cc e = (\<lambda>(phase, l).
    case (phase, e) of
      (Connecting, Attempt) \<Rightarrow>
        let should_connect = CONSENSUS_STATE l \<noteq> Disabled in
        if should_connect
        then Some ((AwaitSession, l), [session_request \<lparr>sf_agent = cc_agent cc, sf_ttl = cc_session_ttl cc\<rparr>])
        else Some ((Connecting, l), [])
    | (AwaitSession, SessionDone out) \<Rightarrow>
        (case consul_session cj out of
           Inl err \<Rightarrow> Some ((Connecting, l), [])
         | Inr None \<Rightarrow> Some ((Connecting, l), [])
         | Inr (Some sid) \<Rightarrow> Some ((Idle sid, l), []))
    | (Idle sid, TickError err) \<Rightarrow> Some ((Connecting, l), [])
    | (Idle sid, Tick) \<Rightarrow>
        let should_renew = CONSENSUS_STATE l \<noteq> Disabled in
        if should_renew then
          let renew = renew_request \<lparr>rf_agent = cc_agent cc, rf_sid = sid, rf_ttl = cc_session_ttl cc\<rparr>;
              acquire = acquire_request \<lparr>af_agent = cc_agent cc, af_sid = sid, af_key = cc_key cc\<rparr>
          in Some ((Busy sid ForBoth, l), [renew, acquire])
        else Some ((Idle sid, l), [])
    | (Busy sid waiting, RenewDone ans) \<Rightarrow>
        (if waiting = ForAcquire then None
         else case consul_renew ans of
           Inl err \<Rightarrow> Some ((Connecting, l), [])
         | Inr u \<Rightarrow> Some ((if waiting = ForBoth then Busy sid ForAcquire else Idle sid, l), []))
    | (Busy sid waiting, AcquireDone ans) \<Rightarrow>
        (if waiting = ForRenew then None
         else case consul_acquire cj ans l of
           (Inl err, l') \<Rightarrow> Some ((Connecting, l'), [])
         | (Inr u, l') \<Rightarrow> Some ((if waiting = ForBoth then Busy sid ForRenew else Idle sid, l'), []))
    | _ \<Rightarrow> None)"

text \<open>A run: \<open>None\<close> if an event cannot happen where it is listed.\<close>

fun consul_run ::
    "consul_json \<Rightarrow> consul_consensus \<Rightarrow> consul_event list \<Rightarrow> consul_phase \<times> leadership
      \<Rightarrow> ((consul_phase \<times> leadership) \<times> consul_request list) option" where
  "consul_run cj cc [] s = Some (s, [])"
| "consul_run cj cc (e # es) s =
    (case consul_step cj cc e s of
       None \<Rightarrow> None
     | Some (s', reqs) \<Rightarrow>
         (case consul_run cj cc es s' of None \<Rightarrow> None | Some (s'', reqs') \<Rightarrow> Some (s'', reqs @ reqs')))"

section \<open>All that consensus can do to leadership\<close>

datatype consensus_event = ConsulEvent consul_event | RaftChange raft_role raft_role

text \<open>Events of either implementation, on the phase of the Consul loop and the leadership.\<close>

fun consensus_run ::
    "consul_json \<Rightarrow> consul_consensus \<Rightarrow> consensus_event list \<Rightarrow> consul_phase \<times> leadership
      \<Rightarrow> (consul_phase \<times> leadership) option" where
  "consensus_run cj cc [] s = Some s"
| "consensus_run cj cc (ConsulEvent e # es) s =
    (case consul_step cj cc e s of None \<Rightarrow> None | Some (s', reqs) \<Rightarrow> consensus_run cj cc es s')"
| "consensus_run cj cc (RaftChange old new # es) (phase, l) =
    consensus_run cj cc es (phase, state_changed old new l)"

lemma consul_acquire_leadership:
  "snd (consul_acquire cj ans l) =
    (case ans of
       Inr resp \<Rightarrow> (case resp_body resp of
           Inr body \<Rightarrow> (case bool_of cj body of Some b \<Rightarrow> switch_leader b l | None \<Rightarrow> l)
         | Inl e \<Rightarrow> l)
     | Inl e \<Rightarrow> l)"
  by (auto simp: consul_acquire_def split: sum.split option.split)

text \<open>The answer to the acquire request, where an event is a readable one.\<close>

definition acquire_value :: "consul_json \<Rightarrow> consul_event \<Rightarrow> bool list" where
  "acquire_value cj e =
    (case e of
       AcquireDone (Inr resp) \<Rightarrow>
         (case resp_body resp of
            Inr body \<Rightarrow> (case bool_of cj body of Some b \<Rightarrow> [b] | None \<Rightarrow> [])
          | Inl err \<Rightarrow> [])
     | _ \<Rightarrow> [])"

lemma consul_step_leadership:
  assumes "consul_step cj cc e (phase, l) = Some ((phase', l'), reqs)"
  shows "l' = fold switch_leader (acquire_value cj e) l"
proof (cases e)
  case (AcquireDone ans)
  with assms have "l' = snd (consul_acquire cj ans l)"
    by (auto simp: consul_step_def split: consul_phase.splits if_splits prod.splits sum.splits)
  then show ?thesis
    by (simp add: AcquireDone acquire_value_def consul_acquire_leadership split: sum.split option.split)
qed (use assms in \<open>auto simp: consul_step_def acquire_value_def Let_def
  split: consul_phase.splits sum.splits option.splits if_splits\<close>)

lemma consul_run_leadership:
  "consul_run cj cc es (phase, l) = Some ((phase', l'), reqs) \<Longrightarrow>
    l' = fold switch_leader (concat (map (acquire_value cj) es)) l"
proof (induction es arbitrary: phase l reqs)
  case Nil
  then show ?case by simp
next
  case (Cons e es)
  then obtain phase1 l1 reqs1 reqs2 where
    step: "consul_step cj cc e (phase, l) = Some ((phase1, l1), reqs1)"
      "consul_run cj cc es (phase1, l1) = Some ((phase', l'), reqs2)"
    by (auto split: option.splits)
  from Cons.IH [OF step(2)] consul_step_leadership [OF step(1)] show ?case by simp
qed

lemma fold_switch_leader:
  "CONSENSUS_STATE (fold switch_leader bs l) = CONSENSUS_STATE l"
  "IS_LEADER (fold switch_leader bs l) =
    (if bs = [] \<or> CONSENSUS_STATE l \<noteq> Enabled then IS_LEADER l else last bs)"
  by (induction bs arbitrary: l) auto

lemma switch_leader_frozen: "CONSENSUS_STATE l \<noteq> Enabled \<Longrightarrow> switch_leader b l = l"
  by (simp add: switch_leader_def)

lemma fold_switch_leader_frozen: "CONSENSUS_STATE l \<noteq> Enabled \<Longrightarrow> fold switch_leader bs l = l"
  by (induction bs) (simp_all add: switch_leader_frozen)

section \<open>Properties\<close>

text \<open>
  C30. Pausing or disabling consensus freezes leadership: in a state that is not \<open>Enabled\<close>, no
  sequence of Consul answers and Raft notifications changes the leadership record in any
  way. Only the management interface does.
\<close>

theorem leadership_frozen_unless_enabled:
  assumes "consensus_run cj cc es (phase, l) = Some (phase', l')" and "CONSENSUS_STATE l \<noteq> Enabled"
  shows "l' = l"
  using assms
proof (induction cj cc es "(phase, l)" arbitrary: phase rule: consensus_run.induct)
  case (1 cj cc)
  then show ?case by simp
next
  case (2 cj cc e es)
  then obtain phase1 l1 reqs where step: "consul_step cj cc e (phase, l) = Some ((phase1, l1), reqs)"
      "consensus_run cj cc es (phase1, l1) = Some (phase', l')"
    by (auto split: option.splits)
  from consul_step_leadership [OF step(1)] 2(3) have "l1 = l" by (simp add: fold_switch_leader_frozen)
  with 2 step show ?case by simp
next
  case (3 cj cc old new es)
  from 3(3) have "state_changed old new l = l" by (simp add: state_changed_def switch_leader_frozen)
  with 3 show ?case by simp
qed

definition sample_cj :: consul_json where
  "sample_cj = \<lparr>session_of = (\<lambda>b. Some \<lparr>csr_id = b\<rparr>),
     bool_of = (\<lambda>b. if b = ''true'' then Some True else if b = ''false'' then Some False else None)\<rparr>"

definition answer_ok :: "bytes \<Rightarrow> http_answer" where
  "answer_ok body = Inr \<lparr>resp_status = OK, resp_body = Inr body\<rparr>"

definition sample_cc :: consul_consensus where
  "sample_cc = consul_consensus_new (SocketAddrV4 127 0 0 1 8500) ''service/bioyino/lock''"

definition granted :: "consul_event list" where
  "granted = [Attempt, SessionDone (SessionAnswer (answer_ok ''sid'') None), Tick, RenewDone (answer_ok []),
     AcquireDone (answer_ok ''true'')]"

theorem leadership_frozen_unless_enabled_witness:
  "\<exists>phase l. consensus_run sample_cj sample_cc (map ConsulEvent granted @ [RaftChange Follower Leader])
      (Connecting, \<lparr>CONSENSUS_STATE = Paused, IS_LEADER = False\<rparr>) = Some (phase, l) \<and>
    l = \<lparr>CONSENSUS_STATE = Paused, IS_LEADER = False\<rparr>"
proof -
  have "consensus_run sample_cj sample_cc (map ConsulEvent granted @ [RaftChange Follower Leader])
      (Connecting, \<lparr>CONSENSUS_STATE = Paused, IS_LEADER = False\<rparr>) \<noteq> None"
    by (simp add: granted_def consul_step_def consul_session_def consul_renew_def consul_acquire_def sample_cj_def answer_ok_def)
  then obtain phase l where run: "consensus_run sample_cj sample_cc (map ConsulEvent granted @ [RaftChange Follower Leader])
      (Connecting, \<lparr>CONSENSUS_STATE = Paused, IS_LEADER = False\<rparr>) = Some (phase, l)"
    by auto
  with leadership_frozen_unless_enabled [OF run] show ?thesis by simp
qed

text \<open>
  C25. Under Consul, an enabled node believes what the agent last answered to its acquire
  request, and nothing else: after any run of the loop, through any number of lost sessions,
  timeouts and errors, the leader flag is the last readable answer, or the initial flag if
  there was none. In particular a leader that no longer reaches the agent stays leader.
\<close>

theorem consul_leader_is_last_answer:
  assumes "consul_run cj cc es (phase, l) = Some ((phase', l'), reqs)" and "CONSENSUS_STATE l = Enabled"
  shows "CONSENSUS_STATE l' = Enabled \<and>
    IS_LEADER l' = (let answers = concat (map (acquire_value cj) es) in if answers = [] then IS_LEADER l else last answers)"
  using consul_run_leadership [OF assms(1)] assms(2) by (simp add: fold_switch_leader Let_def)

theorem consul_leader_is_last_answer_witness:
  "\<exists>phase l reqs. consul_run sample_cj sample_cc (granted @ [Tick, RenewDone (Inl ''connection refused''), Attempt])
      (Connecting, \<lparr>CONSENSUS_STATE = Enabled, IS_LEADER = False\<rparr>) = Some ((phase, l), reqs) \<and>
    IS_LEADER l \<and> phase = AwaitSession"
proof -
  let ?es = "granted @ [Tick, RenewDone (Inl ''connection refused''), Attempt]"
  have "map_option (fst \<circ> fst) (consul_run sample_cj sample_cc ?es
      (Connecting, \<lparr>CONSENSUS_STATE = Enabled, IS_LEADER = False\<rparr>)) = Some AwaitSession"
    by (simp add: granted_def consul_step_def consul_session_def consul_renew_def consul_acquire_def sample_cj_def
        answer_ok_def switch_leader_def)
  then obtain l reqs where run: "consul_run sample_cj sample_cc ?es
      (Connecting, \<lparr>CONSENSUS_STATE = Enabled, IS_LEADER = False\<rparr>) = Some ((AwaitSession, l), reqs)"
    by auto
  have ans: "concat (map (acquire_value sample_cj) ?es) = [True]"
    by (simp add: granted_def acquire_value_def answer_ok_def sample_cj_def)
  have "IS_LEADER l" using consul_leader_is_last_answer [OF run] unfolding ans by simp
  with run show ?thesis by blast
qed

text \<open>
  Disabled consensus is silent: a Consul loop that is not waiting for an answer sends no
  request while the state is \<open>Disabled\<close>, whatever happens.
\<close>

lemma consul_disabled_silent:
  assumes "consul_run cj cc es (phase, l) = Some ((phase', l'), reqs)"
    and "CONSENSUS_STATE l = Disabled" and "phase = Connecting \<or> (\<exists>sid. phase = Idle sid)"
  shows "reqs = []"
  using assms
proof (induction es arbitrary: phase reqs)
  case Nil
  then show ?case by simp
next
  case (Cons e es)
  then obtain phase1 l1 reqs1 reqs2 where step: "consul_step cj cc e (phase, l) = Some ((phase1, l1), reqs1)"
      "consul_run cj cc es (phase1, l1) = Some ((phase', l'), reqs2)" "reqs = reqs1 @ reqs2"
    by (auto split: option.splits)
  from step(1) Cons.prems(2,3) have "reqs1 = []" "l1 = l" "phase1 = Connecting \<or> (\<exists>sid. phase1 = Idle sid)"
    by (auto simp: consul_step_def split: consul_event.splits)
  with Cons.IH step(2,3) Cons.prems(2) show ?case by simp
qed

text \<open>
  The Consul loop recovers from anywhere: from every phase, with consensus not disabled,
  there is a run of at most five events that ends with a held session in which the agent's
  answer has been taken over, provided that the agent's answers are readable.
\<close>

lemma consul_loop_recovers:
  assumes "CONSENSUS_STATE l = Enabled" and "session_of cj sbody = Some \<lparr>csr_id = sid\<rparr>" and "bool_of cj abody = Some b"
  shows "\<exists>es l' reqs sid'. length es \<le> 5 \<and> consul_run cj cc es (phase, l) = Some ((Idle sid', l'), reqs) \<and>
    IS_LEADER l' = b \<and> CONSENSUS_STATE l' = Enabled"
proof -
  let ?renew = "RenewDone (answer_ok [])"
  let ?acquire = "AcquireDone (answer_ok abody)"
  let ?login = "[SessionDone (SessionAnswer (answer_ok sbody) None), Tick, ?renew, ?acquire]"
  note steps = consul_step_def consul_session_def consul_renew_def consul_acquire_def answer_ok_def assms
  show ?thesis
  proof (cases phase)
    case Connecting
    then show ?thesis by (intro exI [of _ "Attempt # ?login"]) (simp add: steps)
  next
    case AwaitSession
    then show ?thesis by (intro exI [of _ ?login]) (simp add: steps)
  next
    case (Idle s)
    then show ?thesis by (intro exI [of _ "[Tick, ?renew, ?acquire]"]) (simp add: steps)
  next
    case (Busy s w)
    then show ?thesis
    proof (cases w)
      case ForBoth
      with Busy show ?thesis by (intro exI [of _ "[?renew, ?acquire]"]) (simp add: steps)
    next
      case ForRenew
      with Busy show ?thesis by (intro exI [of _ "[?renew, Tick, ?renew, ?acquire]"]) (simp add: steps)
    next
      case ForAcquire
      with Busy show ?thesis by (intro exI [of _ "[?acquire]"]) (simp add: steps)
    qed
  qed
qed

text \<open>The notifications of the Raft library: a history of roles, each change reported.\<close>

fun raft_history :: "raft_role \<Rightarrow> raft_role list \<Rightarrow> leadership \<Rightarrow> leadership" where
  "raft_history r [] l = l"
| "raft_history r (r' # rs) l = raft_history r' rs (state_changed r r' l)"

lemma state_changed_leader:
  assumes "CONSENSUS_STATE l = Enabled" and "IS_LEADER l = (r = Leader)"
  shows "CONSENSUS_STATE (state_changed r r' l) = Enabled \<and> IS_LEADER (state_changed r r' l) = (r' = Leader)"
  using assms by (auto simp: state_changed_def)

text \<open>
  Under internal Raft, the leader flag follows the role: with consensus enabled and the
  flag in step with the role at the start, it is set after any history of role changes
  exactly if the last role is leader.
\<close>

lemma raft_leader_follows_role:
  assumes "CONSENSUS_STATE l = Enabled" and "IS_LEADER l = (r = Leader)"
  shows "IS_LEADER (raft_history r rs l) = (last (r # rs) = Leader)"
  using assms
proof (induction rs arbitrary: r l)
  case Nil
  then show ?case by simp
next
  case (Cons r' rs)
  with state_changed_leader [of l r r'] show ?case by simp
qed

lemma resolve_nodes_spec:
  assumes "\<forall>(node, nid) \<in> set ns. \<exists>a. resolve node = Inr a" and "distinct (map snd ns)"
    and "\<forall>x \<in> set_option tid. hm_get acc x = Some this" and "fst ` set acc \<inter> snd ` set ns = {}"
  shows "\<exists>tid' acc'. resolve_nodes resolve this ns (tid, acc) = Inr (tid', acc') \<and>
    (\<forall>x \<in> set_option tid'. hm_get acc' x = Some this) \<and>
    (\<forall>(node, nid) \<in> set ns. Inr (the (hm_get acc' nid)) = resolve node) \<and>
    dom (hm_get acc') = dom (hm_get acc) \<union> snd ` set ns \<and>
    (\<forall>x. x \<notin> snd ` set ns \<longrightarrow> hm_get acc' x = hm_get acc x)"
  using assms
proof (induction ns arbitrary: tid acc)
  case Nil
  then show ?case by simp
next
  case (Cons e ns)
  obtain node nid a where e: "e = (node, nid)" "resolve node = Inr a" using Cons.prems(1) by (cases e) auto
  let ?tid = "if a = this then Some nid else tid"
  let ?acc = "hm_insert nid a acc"
  have "hm_get acc nid = None" using Cons.prems(4) by (simp add: e map_of_eq_None_iff)
  then have "\<forall>x \<in> set_option ?tid. hm_get ?acc x = Some this"
    using Cons.prems(3) by (auto simp: update_conv)
  moreover have "fst ` set ?acc \<inter> snd ` set ns = {}"
    unfolding dom_update using Cons.prems(2,4) by (auto simp: e)
  ultimately show ?case
    using Cons.IH [of ?tid ?acc] Cons.prems(1,2) e by (auto simp: update_conv)
qed

text \<open>
  Starting internal Raft: if the node's own address and all configured nodes resolve, the
  configured ids are distinct and the random id is none of them, the library is started with
  a map that has every configured node under its id and, under the own id, the node's own
  address; the own id is a configured one or the random one.
\<close>

theorem raft_start_nodes:
  assumes "raft_this resolve hostname cfg = Inr this"
    and "\<forall>(node, nid) \<in> set (raft_nodes cfg). \<exists>a. resolve node = Inr a"
    and "distinct (map snd (raft_nodes cfg))" and "rnd \<notin> snd ` set (raft_nodes cfg)"
  shows "\<exists>nid nodes. start_internal_raft resolve hostname rnd cfg = Inr (nid, nodes, get_raft_options cfg) \<and>
    hm_get nodes nid = Some this \<and> (nid = rnd \<or> nid \<in> snd ` set (raft_nodes cfg)) \<and>
    (\<forall>(node, i) \<in> set (raft_nodes cfg). Inr (the (hm_get nodes i)) = resolve node) \<and>
    dom (hm_get nodes) = insert nid (snd ` set (raft_nodes cfg))"
proof -
  obtain tid acc where res: "resolve_nodes resolve this (raft_nodes cfg) (None, []) = Inr (tid, acc)"
      "\<forall>x \<in> set_option tid. hm_get acc x = Some this"
      "\<forall>(node, i) \<in> set (raft_nodes cfg). Inr (the (hm_get acc i)) = resolve node"
      "dom (hm_get acc) = snd ` set (raft_nodes cfg)"
    using resolve_nodes_spec [OF assms(2,3), of None "[]" this] by auto
  show ?thesis
  proof (cases tid)
    case None
    have "i \<noteq> rnd" if "(node, i) \<in> set (raft_nodes cfg)" for node i
      using that assms(4) by force
    then have "\<forall>(node, i) \<in> set (raft_nodes cfg). Inr (the (hm_get (hm_insert rnd this acc) i)) = resolve node"
      using res(3) by (auto simp: update_conv)
    moreover have "dom (hm_get (hm_insert rnd this acc)) = insert rnd (snd ` set (raft_nodes cfg))"
      by (simp add: update_conv' res(4))
    ultimately show ?thesis
      using None res(1) assms(1) by (simp add: start_internal_raft_def update_conv)
  next
    case (Some nid)
    with res have "nid \<in> snd ` set (raft_nodes cfg)" by (metis domI option.set_intros)
    with Some res assms(1) show ?thesis by (auto simp: start_internal_raft_def)
  qed
qed

end
