(* ===== verification/Node.thy ===== *)
theory Node
  imports Aggregate Carbon Peer Udp Consensus
begin

text \<open>
  \<^verbatim>\<open>src/main.rs\<close>: what a node sets up from its configuration, and the carbon interval, in which
  workers, aggregator and carbon backends work together.
\<close>

section \<open>Start-up\<close>

text \<open>
  Update counting is switched off when neither a prefix nor a suffix would tell the counter
  from the metric it counts.
\<close>

definition effective_count_updates :: "metrics_config \<Rightarrow> bool" where
  "effective_count_updates m =
    (if count_updates m \<and> length (update_counter_prefix m) = 0 \<and> length (update_counter_suffix m) = 0 then False
     else count_updates m)"

definition effective_multi_threads :: "metrics_config \<Rightarrow> usize" where
  "effective_multi_threads m =
    (case aggregation_threads m of
       Some value \<Rightarrow> if aggregation_mode m = Separate then value else 0
     | None \<Rightarrow> 0)"

text \<open>The options of the aggregator, made anew at every tick from the leader flag.\<close>

definition tick_options :: "metrics_config \<Rightarrow> leadership \<Rightarrow> aggregate_options" where
  "tick_options m l =
    \<lparr>is_leader = IS_LEADER l,
     update_counter_opts =
       (if effective_count_updates m
        then Some \<lparr>threshold = update_counter_threshold m, prefix = update_counter_prefix m, suffix = update_counter_suffix m\<rparr>
        else None),
     agg_mode = aggregation_mode m,
     multi_threads = effective_multi_threads m\<rparr>"

text \<open>
  Leadership at the start. Internal Raft enables consensus after a delay; this is the state
  after it.
\<close>

definition start_leadership :: "system_config \<Rightarrow> leadership" where
  "start_leadership cfg =
    (let l = leadership_init\<lparr>IS_LEADER := start_as_leader cfg\<rparr> in
     case consensus cfg of
       Internal \<Rightarrow> l\<lparr>CONSENSUS_STATE := Enabled\<rparr>
     | Consul \<Rightarrow> l\<lparr>CONSENSUS_STATE := start_as (consul cfg)\<rparr>
     | NoConsensus \<Rightarrow> l)"

definition consul_setup :: "system_config \<Rightarrow> consul_consensus" where
  "consul_setup cfg =
    set_renew_time (from_millis (unat (renew_time (consul cfg))))
      (set_session_ttl (from_millis (unat (session_ttl (consul cfg))))
        (consul_consensus_new (consul_agent (consul cfg)) (key_name (consul cfg))))"

definition peer_server_ret :: backoff_options where
  "peer_server_ret = \<lparr>delay = 1, delay_mul = Fin 1, delay_max = 1, retries = - 1\<rparr>"

definition carbon_retrier :: "carbon_config \<Rightarrow> backoff_options" where
  "carbon_retrier cfg =
    \<lparr>delay = connect_delay cfg, delay_mul = connect_delay_multiplier cfg, delay_max = connect_delay_max cfg,
     retries = send_retries cfg\<rparr>"

text \<open>
  The threads of a node: its counting workers, the statistics reporter (which sends to the
  first worker), the flush flags, the listeners of the asynchronous mode and the receiving
  threads of the multimessage mode; such a thread is missing if it panicked while it prepared
  its buffers.
\<close>

record 'm node =
  node_workers :: "'m worker list"
  node_stats :: own_stats
  node_leadership :: leadership
  node_flags :: "bool list"
  node_listeners :: "statsd_server list list"
  node_mm :: "mm_state option list"

definition start_workers :: "system_config \<Rightarrow> 'm worker list" where
  "start_workers cfg = replicate (unat (w_threads cfg)) (worker_new cfg)"

definition start_flags :: "system_config \<Rightarrow> bool list" where
  "start_flags cfg = replicate (unat (n_threads cfg)) False"

definition start_listeners :: "system_config \<Rightarrow> statsd_server list list" where
  "start_listeners cfg =
    (if multimessage (network cfg) then []
     else start_async_udp cfg (unat (n_threads cfg)) (unat (greens (network cfg)))
            (unat (async_sockets (network cfg))) (unat (bufsize (network cfg))))"

definition start_mm :: "system_config \<Rightarrow> mm_state option list" where
  "start_mm cfg =
    (if multimessage (network cfg)
     then replicate (unat (n_threads cfg))
       (case mm_setup (mm_packets (network cfg)) (bufsize (network cfg)) of Inr st \<Rightarrow> Some st | Inl p \<Rightarrow> None)
     else [])"

definition node_start :: "system_config \<Rightarrow> panic + 'm node" where
  "node_start cfg =
    (let workers = start_workers cfg in
     if workers = [] then Inl (Panic ''index out of bounds'')
     else Inr
       \<lparr>node_workers = workers,
        node_stats = \<lparr>stats_ival = stats_interval cfg, own_prefix = trim_dots (stats_prefix cfg)\<rparr>,
        node_leadership = start_leadership cfg,
        node_flags = start_flags cfg,
        node_listeners = start_listeners cfg,
        node_mm = start_mm cfg\<rparr>)"

text \<open>The flush timer, which runs if a flush time is configured.\<close>

definition flush_tick :: "bool list \<Rightarrow> bool list" where
  "flush_tick flags = map (\<lambda>flag. True) flags"

section \<open>The carbon interval\<close>

text \<open>The answer to a rotation request, and the values that arrive at the backend channel.\<close>

definition rotation_log :: "'m message list \<Rightarrow> (chan_id \<times> 'm cache) list" where
  "rotation_log out = concat (map (\<lambda>msg. case msg of Rotated ch m \<Rightarrow> [(ch, m)] | _ \<Rightarrow> []) out)"

definition rotation_answer :: "chan_id \<Rightarrow> 'm message list \<Rightarrow> 'm cache option" where
  "rotation_answer ch out = map_of (rotation_log out) ch"

definition for_backend :: "chan_id \<Rightarrow> 'm message \<Rightarrow> bool" where
  "for_backend tx msg = (case msg of Aggregated ch name value \<Rightarrow> ch = tx | _ \<Rightarrow> False)"

definition message_value :: "'m message \<Rightarrow> bytes \<times> f64" where
  "message_value msg = (case msg of Aggregated ch name value \<Rightarrow> (name, value) | _ \<Rightarrow> ([], NaN))"

definition backend_values :: "chan_id \<Rightarrow> 'm message list \<Rightarrow> (bytes \<times> f64) list" where
  "backend_values tx msgs = map message_value (filter (for_backend tx) msgs)"

text \<open>
  One tick up to the collected values. Every worker gets a rotation request with its own
  reply channel; the answers arrive in some order; the aggregator runs; tasks that it queues
  are run by the workers; on the leader the backend channel is collected, and every value
  counted as egress. On other nodes the receiving end of that channel is dropped at once.
\<close>

definition tick_aggregate ::
    "'m metric_lib \<Rightarrow> 'm agg_env \<Rightarrow> aggregate_options \<Rightarrow> chan_id \<Rightarrow> chan_id list \<Rightarrow> nat list \<Rightarrow> 'm worker list \<Rightarrow> counters
      \<Rightarrow> panic + 'm worker list \<times> (bytes \<times> f64) list \<times> counters" where
  "tick_aggregate lib env aopts tx replies order ws c =
    (let alive = env_alive env;
         ws1 = deliver lib alive (rotate_requests replies) ws;
         answers = map2 (\<lambda>w ch. rotation_answer ch (outbox w)) ws1 replies;
         responses = map (\<lambda>i. answers ! i) order
     in case aggregator lib env aopts tx (length ws) responses \<lparr>agg_stats = c, agg_sent = [], agg_queued = []\<rparr> of
          Inl p \<Rightarrow> Inl p
        | Inr (res, st) \<Rightarrow>
            let ws2 = deliver lib alive (agg_queued st) ws1;
                received = (if is_leader aopts then backend_values tx (agg_sent st @ concat (map outbox ws2)) else [])
            in Inr (ws2, received, add_egress (of_nat (length received)) (agg_stats st)))"

text \<open>The collected values, split over carbon backends that all carry the same timestamp.\<close>

fun make_backends ::
    "(f64 \<Rightarrow> bytes \<times> bool) \<Rightarrow> carbon_client_options \<Rightarrow> u64 \<Rightarrow> (bytes \<times> f64) list list \<Rightarrow> counters
      \<Rightarrow> carbon_backend list \<times> counters" where
  "make_backends ftoa opts ts [] c = ([], c)"
| "make_backends ftoa opts ts (part # parts) c =
    (let (b, c1) = carbon_backend_new ftoa opts ts part c; (bs, c2) = make_backends ftoa opts ts parts c1
     in (b # bs, c2))"

definition tick_send ::
    "(f64 \<Rightarrow> bytes \<times> bool) \<Rightarrow> carbon_config \<Rightarrow> socket_addr \<Rightarrow> u64 \<Rightarrow> (bytes \<times> f64) list \<Rightarrow> counters
      \<Rightarrow> panic + carbon_backend list \<times> counters" where
  "tick_send ftoa cfg backend_addr ts vals c =
    (case carbon_split cfg vals of
       Inl p \<Rightarrow> Inl p
     | Inr parts \<Rightarrow>
         Inr (make_backends ftoa \<lparr>client_addr = backend_addr, client_bind_addr = bind_address cfg\<rparr> ts parts c))"

section \<open>Rotation\<close>

lemma deliver_enumerate:
  assumes "length ts = length ws"
  shows "deliver lib alive (enumerate (length pre) ts) (pre @ ws) = pre @ map2 (\<lambda>w t. run lib alive t w) ws ts"
  using assms
proof (induction ts ws arbitrary: pre rule: list_induct2)
  case Nil
  show ?case by (simp add: deliver_def)
next
  case (Cons t ts w ws)
  from Cons.IH [of "pre @ [run lib alive t w]"] show ?case
    by (simp add: deliver_def)
qed

lemma deliver_rotate_requests:
  assumes "length replies = length ws"
  shows "deliver lib alive (rotate_requests replies) ws = map2 (\<lambda>w ch. run lib alive (Rotate ch) w) ws replies"
  using deliver_enumerate [of "map Rotate replies" ws lib alive "[]"] assms
  by (simp add: rotate_requests_def zip_map2 comp_def case_prod_unfold)

lemma rotation_log_simps [simp]:
  "rotation_log (xs @ ys) = rotation_log xs @ rotation_log ys" "rotation_log [] = []"
  "rotation_log [Rotated ch m] = [(ch, m)]"
  by (simp_all add: rotation_log_def)

lemma rotation_answer_run:
  assumes "ch \<notin> fst ` set (rotation_log (outbox w))"
  shows "rotation_answer ch (outbox (run lib alive (Rotate ch) w)) = (if alive ch then Some (long (runner w)) else None)"
  using assms by (simp add: rotation_answer_def run_effects map_add_def map_of_eq_None_iff [symmetric] split: option.split)

text \<open>Workers and reply channels that fit together: as many as workers, not used before.\<close>

definition fresh_channels :: "chan_id \<Rightarrow> chan_id list \<Rightarrow> 'm worker list \<Rightarrow> bool" where
  "fresh_channels tx replies ws \<longleftrightarrow> length replies = length ws \<and>
    (\<forall>w \<in> set ws. (\<forall>ch \<in> set replies. ch \<notin> fst ` set (rotation_log (outbox w))) \<and>
      (\<forall>msg \<in> set (outbox w). \<not> for_backend tx msg))"

definition tick_answers :: "(chan_id \<Rightarrow> bool) \<Rightarrow> chan_id list \<Rightarrow> 'm worker list \<Rightarrow> 'm cache option list" where
  "tick_answers alive replies ws = map2 (\<lambda>w ch. if alive ch then Some (long (runner w)) else None) ws replies"

lemma rotation_answers:
  assumes "fresh_channels tx replies ws"
  shows "map2 (\<lambda>w ch. rotation_answer ch (outbox w)) (deliver lib alive (rotate_requests replies) ws) replies
    = tick_answers alive replies ws"
proof -
  have len: "length replies = length ws" using assms by (simp add: fresh_channels_def)
  show ?thesis
    unfolding tick_answers_def deliver_rotate_requests [OF len]
  proof (rule nth_equalityI)
    fix i
    assume "i < length (map2 (\<lambda>w ch. rotation_answer ch (outbox w)) (map2 (\<lambda>w ch. run lib alive (Rotate ch) w) ws replies) replies)"
    then have i: "i < length ws" using len by simp
    then have "replies ! i \<notin> fst ` set (rotation_log (outbox (ws ! i)))"
      using assms len nth_mem by (auto simp: fresh_channels_def)
    with i len show "map2 (\<lambda>w ch. rotation_answer ch (outbox w)) (map2 (\<lambda>w ch. run lib alive (Rotate ch) w) ws replies) replies ! i
        = map2 (\<lambda>w ch. if alive ch then Some (long (runner w)) else None) ws replies ! i"
      by (simp add: rotation_answer_run)
  qed (use len in simp)
qed

lemma map_nth_order:
  assumes "mset order = mset [0..<length xs]"
  shows "mset (map (\<lambda>i. xs ! i) order) = mset xs"
proof -
  have "mset (map (\<lambda>i. xs ! i) order) = image_mset (\<lambda>i. xs ! i) (mset [0..<length xs])"
    by (simp only: mset_map assms)
  also have "\<dots> = mset (map (\<lambda>i. xs ! i) [0..<length xs])" by (simp only: mset_map)
  finally show ?thesis by (simp only: map_nth)
qed

section \<open>Values that reach the backend\<close>

lemma backend_values_mset: "mset (backend_values tx msgs) = image_mset message_value (filter_mset (for_backend tx) (mset msgs))"
  by (simp add: backend_values_def)

lemma backend_values_append [simp]: "backend_values tx (xs @ ys) = backend_values tx xs @ backend_values tx ys"
  by (simp add: backend_values_def)

lemma backend_values_Nil [simp]: "backend_values tx [] = []"
  by (simp add: backend_values_def)

lemma backend_values_none: "\<forall>msg \<in> set msgs. \<not> for_backend tx msg \<Longrightarrow> backend_values tx msgs = []"
  by (simp add: backend_values_def filter_empty_conv)

lemma backend_values_entries:
  "alive tx \<Longrightarrow> backend_values tx (concat (map (entry_messages lib alive aopts tx) es)) =
    concat (map (\<lambda>e. aggregate_values lib (task_data aopts tx e)) es)"
proof (induction es)
  case Nil
  show ?case by (simp add: backend_values_def)
next
  case (Cons e es)
  have "backend_values tx (map (\<lambda>(name, value). Aggregated tx name value) kvs) = kvs" for kvs
    by (induction kvs) (auto simp: backend_values_def for_backend_def message_value_def)
  with Cons show ?case by (simp add: entry_messages_def)
qed

lemma runner_deliver_entries:
  assumes "\<forall>(i, t) \<in> set q. i < length ws \<and> (\<exists>d. t = Aggregate d)"
  shows "map runner (deliver lib alive q ws) = map runner ws"
  using assms
proof (induction q arbitrary: ws)
  case Nil
  show ?case by (simp add: deliver_def)
next
  case (Cons e q)
  obtain i d where e: "e = (i, Aggregate d)" "i < length ws" using Cons.prems by auto
  let ?ws = "ws[i := run lib alive (Aggregate d) (ws ! i)]"
  have "map runner (deliver lib alive q ?ws) = map runner ?ws"
    using Cons.prems by (intro Cons.IH) auto
  moreover have "map runner ?ws = map runner ws"
    using e by (simp add: map_update run_effects list_update_same_conv)
  ultimately show ?case by (simp add: deliver_def e)
qed

lemma concat_outbox: "mset (concat (map outbox ws)) = all_sent ws"
  by (induction ws) (simp_all add: all_sent_def)

lemma rotated_outbox:
  assumes "fresh_channels tx replies ws" and "w \<in> set (deliver lib alive (rotate_requests replies) ws)"
  shows "\<forall>msg \<in> set (outbox w). \<not> for_backend tx msg" and "long (runner w) = []"
proof -
  from assms obtain w0 ch where w: "w0 \<in> set ws" "w = run lib alive (Rotate ch) w0"
    by (auto simp: fresh_channels_def deliver_rotate_requests dest: set_zip_leftD)
  then have "\<forall>msg \<in> set (outbox w0). \<not> for_backend tx msg" using assms(1) by (simp add: fresh_channels_def)
  then show "\<forall>msg \<in> set (outbox w). \<not> for_backend tx msg" by (auto simp: w run_effects for_backend_def)
  show "long (runner w) = []" by (simp add: w run_effects)
qed

lemma length_deliver [simp]: "length (deliver lib alive q ws) = length ws"
proof (induction q arbitrary: ws)
  case Nil
  show ?case by (simp add: deliver_def)
next
  case (Cons e q)
  then show ?case by (cases e) (simp add: deliver_def)
qed

lemma fold_aggregate_queued_sent: "agg_sent (fold (aggregate_queued env aopts tx n) es st) = agg_sent st"
  by (induction es arbitrary: st) (auto simp: aggregate_queued_def Let_def case_prod_unfold)

lemma mset_concat_map: "mset (concat (map f xs)) = (\<Sum>x\<in>#mset xs. mset (f x))"
  by (induction xs) simp_all

text \<open>
  The dispatch of an accumulated cache, in any mode: the workers keep their caches, and the
  backend receives the values of every entry.
\<close>

abbreviation entry_values :: "'m metric_lib \<Rightarrow> aggregate_options \<Rightarrow> chan_id \<Rightarrow> 'm cache \<Rightarrow> (bytes \<times> f64) list" where
  "entry_values lib aopts tx es \<equiv> concat (map (\<lambda>e. aggregate_values lib (task_data aopts tx e)) es)"

lemma fold_aggregate_here_queued: "agg_queued (fold (aggregate_here lib env aopts tx) es st) = agg_queued st"
  by (induction es arbitrary: st) (simp_all add: aggregate_here_def Let_def case_prod_unfold)

lemma backend_values_here:
  "env_alive env tx \<Longrightarrow> backend_values tx (agg_sent (fold (aggregate_here lib env aopts tx) es st)) =
    backend_values tx (agg_sent st) @ entry_values lib aopts tx es"
  by (simp add: fold_aggregate_here_sent backend_values_entries [of "env_alive env"])

lemma backend_values_queued:
  assumes "0 < length ws" and "env_alive env tx" and "\<And>i. i < length ws \<Longrightarrow> env_accepts env i"
    and "agg_queued st = []" and "backend_values tx (concat (map outbox ws)) = []"
    and "q = agg_queued (fold (aggregate_queued env aopts tx (length ws)) (enumerate 0 acc) st)"
  shows "mset (backend_values tx (concat (map outbox (deliver lib (env_alive env) q ws)))) = mset (entry_values lib aopts tx acc)"
    and "map runner (deliver lib (env_alive env) q ws) = map runner ws"
proof -
  have q: "q = map (\<lambda>(num, e). (num mod length ws, Aggregate (task_data aopts tx e))) (enumerate 0 acc)"
    using fold_aggregate_queued [OF assms(3,1), where st = st and k = 0] by (simp add: assms(4,6))
  have "mset (concat (map outbox (deliver lib (env_alive env) q ws))) =
      mset (concat (map outbox ws) @ concat (map (entry_messages lib (env_alive env) aopts tx) acc))"
    using all_sent_deliver_entries [OF assms(1), of lib "env_alive env" aopts tx 0 acc]
    unfolding mset_append concat_outbox q .
  then show "mset (backend_values tx (concat (map outbox (deliver lib (env_alive env) q ws)))) = mset (entry_values lib aopts tx acc)"
    using backend_values_entries [of "env_alive env", OF assms(2), of lib aopts acc] assms(5)
    by (metis append_Nil backend_values_append backend_values_mset)
  show "map runner (deliver lib (env_alive env) q ws) = map runner ws"
    using assms(1) by (intro runner_deliver_entries) (auto simp: q)
qed

lemma dispatch_delivers:
  assumes "dispatch lib env aopts tx (length ws) acc st = Inr st'" and "agg_sent st = []" and "agg_queued st = []"
    and "env_alive env tx" and "\<And>i. i < length ws \<Longrightarrow> env_accepts env i"
    and "\<forall>w \<in> set ws. \<forall>msg \<in> set (outbox w). \<not> for_backend tx msg"
  shows "mset (backend_values tx (agg_sent st' @ concat (map outbox (deliver lib (env_alive env) (agg_queued st') ws))))
      = mset (entry_values lib aopts tx acc)"
    and "map runner (deliver lib (env_alive env) (agg_queued st') ws) = map runner ws"
proof -
  have old: "backend_values tx (concat (map outbox ws)) = []"
    using assms(6) by (intro backend_values_none) auto
  note here = backend_values_here [of env tx, OF assms(4)] fold_aggregate_here_queued old
  have *: "mset (backend_values tx (agg_sent st' @ concat (map outbox (deliver lib (env_alive env) (agg_queued st') ws))))
      = mset (entry_values lib aopts tx acc) \<and>
    map runner (deliver lib (env_alive env) (agg_queued st') ws) = map runner ws"
  proof (cases "agg_mode aopts")
    case Single
    with assms(1-3) show ?thesis by (auto simp: dispatch_def deliver_def here)
  next
    case Separate
    with assms(1-3) show ?thesis by (auto simp: dispatch_def deliver_def here split: if_splits)
  next
    case Common
    then have st': "st' = fold (aggregate_queued env aopts tx (length ws)) (enumerate 0 acc) st"
      and cases: "acc = [] \<or> 0 < length ws"
      using assms(1) by (auto simp: dispatch_def split: if_splits)
    from cases show ?thesis
    proof
      assume "acc = []"
      with st' assms(2,3) old show ?thesis by (simp add: deliver_def)
    next
      assume n: "0 < length ws"
      from backend_values_queued [OF n assms(4,5,3) old arg_cong [where f = agg_queued, OF st']] show ?thesis
        by (simp add: st' fold_aggregate_queued_sent assms(2) del: mset_concat)
    qed
  qed
  from * show "mset (backend_values tx (agg_sent st' @ concat (map outbox (deliver lib (env_alive env) (agg_queued st') ws))))
      = mset (entry_values lib aopts tx acc)" by simp
  from * show "map runner (deliver lib (env_alive env) (agg_queued st') ws) = map runner ws" by simp
qed

lemma dispatch_ok:
  assumes "agg_mode aopts \<noteq> Separate" and "0 < n"
  shows "\<exists>st'. dispatch lib env aopts tx n acc st = Inr st'"
  using assms by (cases "agg_mode aopts") (auto simp: dispatch_def)

text \<open>A tick on the leader, in the single or the common mode, in which every worker answers.\<close>

definition tick_ok :: "'m agg_env \<Rightarrow> aggregate_options \<Rightarrow> chan_id \<Rightarrow> chan_id list \<Rightarrow> nat list \<Rightarrow> 'm worker list \<Rightarrow> bool" where
  "tick_ok env aopts tx replies order ws \<longleftrightarrow>
    is_leader aopts \<and> ws \<noteq> [] \<and> fresh_channels tx replies ws \<and> mset order = mset [0..<length ws] \<and>
    env_alive env tx \<and> (\<forall>ch \<in> set replies. env_alive env ch) \<and> (\<forall>i < length ws. env_accepts env i) \<and>
    agg_mode aopts \<noteq> Separate"

lemma tick_answers_alive:
  assumes "length replies = length ws" and "\<forall>ch \<in> set replies. alive ch"
  shows "tick_answers alive replies ws = map (\<lambda>w. Some (long (runner w))) ws"
proof (rule nth_equalityI)
  fix i
  assume "i < length (tick_answers alive replies ws)"
  with assms show "tick_answers alive replies ws ! i = map (\<lambda>w. Some (long (runner w))) ws ! i"
    by (simp add: tick_answers_def)
qed (use assms in \<open>simp add: tick_answers_def\<close>)

lemma same_runners:
  "runner ` A = runner ` B \<Longrightarrow> \<forall>w \<in> B. long (runner w) = [] \<Longrightarrow> \<forall>w \<in> A. long (runner w) = []"
  by (metis imageE imageI)

lemma tick_leader:
  assumes "tick_ok env aopts tx replies order ws"
  defines "rs \<equiv> map (\<lambda>i. map (\<lambda>w. Some (long (runner w))) ws ! i) order"
  shows "\<exists>ws' vals c' st'. tick_aggregate lib env aopts tx replies order ws c = Inr (ws', vals, c') \<and>
    (\<forall>w \<in> set ws'. long (runner w) = []) \<and> length ws' = length ws \<and>
    mset vals = mset (entry_values lib aopts tx (fold (put_metric lib) (arrived rs) [])) \<and>
    dispatch lib env aopts tx (length ws) (fold (put_metric lib) (arrived rs) [])
      \<lparr>agg_stats = snd (accumulate lib rs ([], c)), agg_sent = [], agg_queued = []\<rparr> = Inr st' \<and>
    c' = add_egress (of_nat (length vals)) (agg_stats st')"
proof -
  have ok: "is_leader aopts" "ws \<noteq> []" "fresh_channels tx replies ws" "env_alive env tx" "length replies = length ws"
      "\<forall>ch \<in> set replies. env_alive env ch" "\<And>i. i < length ws \<Longrightarrow> env_accepts env i"
      "agg_mode aopts \<noteq> Separate"
    using assms(1) by (simp_all add: tick_ok_def fresh_channels_def)
  let ?ws1 = "deliver lib (env_alive env) (rotate_requests replies) ws"
  let ?acc = "fold (put_metric lib) (arrived rs) []"
  let ?st = "\<lparr>agg_stats = snd (accumulate lib rs ([], c)), agg_sent = [], agg_queued = []\<rparr>"
  have "set order = set [0..<length ws]" using assms(1) unfolding tick_ok_def by (metis set_mset_mset)
  then have "None \<notin> set rs" by (auto simp: rs_def)
  then obtain c1 where acc: "accumulate lib rs ([], c) = (Some ?acc, c1)"
    using fst_accumulate [of lib rs "([], c)"] by (cases "accumulate lib rs ([], c)") simp
  obtain st' where st': "dispatch lib env aopts tx (length ws) ?acc ?st = Inr st'"
    using dispatch_ok [OF ok(8), of "length ws" lib env tx ?acc ?st] ok(2) by auto
  have ws1: "\<forall>w \<in> set ?ws1. \<forall>msg \<in> set (outbox w). \<not> for_backend tx msg" "\<forall>w \<in> set ?ws1. long (runner w) = []"
    using rotated_outbox [OF ok(3)] by blast+
  from dispatch_delivers [of lib env aopts tx ?ws1 ?acc ?st st'] st' ok(4,7) ws1(1)
  have del: "mset (backend_values tx (agg_sent st' @ concat (map outbox (deliver lib (env_alive env) (agg_queued st') ?ws1))))
      = mset (entry_values lib aopts tx ?acc)"
    and run: "map runner (deliver lib (env_alive env) (agg_queued st') ?ws1) = map runner ?ws1"
    by simp_all
  let ?ws2 = "deliver lib (env_alive env) (agg_queued st') ?ws1"
  have "runner ` set ?ws2 = runner ` set ?ws1" using arg_cong [where f = set, OF run] by simp
  then have long2: "\<forall>w \<in> set ?ws2. long (runner w) = []" using ws1(2) by (rule same_runners)
  have "tick_aggregate lib env aopts tx replies order ws c =
      Inr (?ws2, backend_values tx (agg_sent st' @ concat (map outbox ?ws2)),
        add_egress (of_nat (length (backend_values tx (agg_sent st' @ concat (map outbox ?ws2))))) (agg_stats st'))"
    unfolding tick_aggregate_def Let_def rotation_answers [OF ok(3)] tick_answers_alive [OF ok(5,6)] rs_def [symmetric]
    using st' by (simp add: acc aggregator_def ok(1))
  moreover have "length ?ws2 = length ws" by simp
  ultimately show ?thesis
    using long2 del st' by (intro exI conjI) (assumption | rule refl)+
qed

lemma entries_total_arrived:
  "entries_total \<mu> (arrived rs) = (\<Sum>r\<in>#mset rs. entries_total \<mu> (case r of None \<Rightarrow> [] | Some m \<Rightarrow> m))"
  by (induction rs) (simp_all add: arrived_def)

lemma set_arrived: "set (arrived rs) = (\<Union>r \<in> set rs. set (case r of None \<Rightarrow> [] | Some m \<Rightarrow> m))"
  by (simp add: arrived_def)

text \<open>The names of the accumulated cache of a tick.\<close>

lemma tick_names:
  fixes lib :: "'m metric_lib" and ws :: "'m worker list"
  assumes "tick_ok env aopts tx replies order ws"
  defines "acc \<equiv> fold (put_metric lib) (arrived (map (\<lambda>i. map (\<lambda>w. Some (long (runner w))) ws ! i) order)) []"
  shows "distinct (map fst acc) \<and> fst ` set acc = (\<Union>w \<in> set ws. fst ` set (long (runner w)))"
proof -
  let ?rs = "map (\<lambda>i. map (\<lambda>w. Some (long (runner w))) ws ! i) order"
  have "mset ?rs = mset (map (\<lambda>w. Some (long (runner w))) ws)"
    using assms(1) by (intro map_nth_order) (simp add: tick_ok_def)
  then have "set ?rs = set (map (\<lambda>w. Some (long (runner w))) ws)" by (rule mset_eq_setD)
  then have "set (arrived ?rs) = (\<Union>w \<in> set ws. set (long (runner w)))"
    unfolding set_arrived by (simp only:) simp
  then have "fst ` set acc = (\<Union>w \<in> set ws. fst ` set (long (runner w)))"
    using dom_put_metrics [of lib "arrived ?rs" "[]"] by (simp add: acc_def dom_map_of_conv_image_fst image_UN)
  moreover have "hm_wf acc" unfolding acc_def by (intro hm_wf_put_metrics) (simp add: hm_wf_def hm_keys_def)
  ultimately show ?thesis by (simp add: hm_wf_def hm_keys_def)
qed

section \<open>Egress\<close>

lemma aggregate_task_egress: "EGRESS (fst (aggregate_task lib alive d s)) = EGRESS (fst s)"
proof -
  have "EGRESS (fst (fold (\<lambda>(name, value) (c, out).
      if alive (ad_response d) then (c, out @ [Aggregated (ad_response d) name value])
      else (add_agg_errors 1 c, out)) kvs s)) = EGRESS (fst s)" for kvs and s :: "counters \<times> 'a message list"
    by (induction kvs arbitrary: s) (auto simp: case_prod_unfold)
  then show ?thesis by (simp add: aggregate_task_def)
qed

lemma fold_aggregate_here_egress:
  "EGRESS (agg_stats (fold (aggregate_here lib env aopts tx) es st)) = EGRESS (agg_stats st) + of_nat (length es)"
  by (induction es arbitrary: st) (simp_all add: aggregate_here_def Let_def case_prod_unfold aggregate_task_egress)

lemma fold_aggregate_queued_egress:
  "EGRESS (agg_stats (fold (aggregate_queued env aopts tx n) es st)) = EGRESS (agg_stats st) + of_nat (length es)"
  by (induction es arbitrary: st) (simp_all add: aggregate_queued_def Let_def case_prod_unfold)

lemma dispatch_egress:
  assumes "dispatch lib env aopts tx n acc st = Inr st'"
  shows "EGRESS (agg_stats st') = EGRESS (agg_stats st) + of_nat (length acc)"
  using assms
  by (auto simp: dispatch_def fold_aggregate_here_egress fold_aggregate_queued_egress split: aggregation_mode.splits if_splits)

lemma accumulate_egress: "EGRESS (snd (accumulate lib rs s)) = EGRESS (snd s)"
proof (induction lib rs s rule: accumulate.induct)
  case (3 lib m rest acc c)
  have "EGRESS (snd (fold (accumulate_one lib) kvs s)) = EGRESS (snd s)" for kvs s
    by (induction kvs arbitrary: s) (simp_all add: accumulate_one_def Let_def case_prod_unfold)
  from this [of m "(acc, c)"] 3 show ?case by (metis accumulate.simps(3) snd_conv)
qed simp_all

section \<open>Properties\<close>

text \<open>
  C4. An interval on the leader up to the collected values, in the single and the common mode
  and for every order in which the workers answer: the aggregator does not panic; afterwards
  the long cache of every worker is empty; and the values collected for the carbon backend are
  exactly those of one cache that has every name that any worker had, once, and by every measure
  that \<open>aggregate\<close> adds up the total of all workers.
\<close>

theorem leader_tick_complete:
  fixes \<mu> :: "bytes \<Rightarrow> 'm \<Rightarrow> 'c::comm_monoid_add"
  assumes "tick_ok env aopts tx replies order ws" and "additive lib \<mu>"
  shows "\<exists>ws' vals c' acc. tick_aggregate lib env aopts tx replies order ws c = Inr (ws', vals, c') \<and>
    (\<forall>w \<in> set ws'. long (runner w) = []) \<and>
    mset vals = mset (concat (map (\<lambda>e. aggregate_values lib (task_data aopts tx e)) acc)) \<and>
    distinct (map fst acc) \<and> fst ` set acc = (\<Union>w \<in> set ws. fst ` set (long (runner w))) \<and>
    entries_total \<mu> acc = (\<Sum>w\<leftarrow>ws. entries_total \<mu> (long (runner w)))"
proof -
  let ?rs = "map (\<lambda>i. map (\<lambda>w. Some (long (runner w))) ws ! i) order"
  let ?acc = "fold (put_metric lib) (arrived ?rs) []"
  have perm: "mset ?rs = mset (map (\<lambda>w. Some (long (runner w))) ws)"
    using assms(1) by (intro map_nth_order) (simp add: tick_ok_def)
  have "entries_total \<mu> (arrived ?rs) = (\<Sum>r\<in>#mset ?rs. entries_total \<mu> (case r of None \<Rightarrow> [] | Some m \<Rightarrow> m))"
    by (rule entries_total_arrived)
  then have total: "entries_total \<mu> ?acc = (\<Sum>w\<leftarrow>ws. entries_total \<mu> (long (runner w)))"
    unfolding perm by (simp add: entries_total_put_metrics [OF assms(2)] sum_mset_sum_list [symmetric] image_mset.compositionality comp_def)
  from tick_leader [OF assms(1), of lib c] show ?thesis
    using total tick_names [OF assms(1), of lib] by (elim exE conjE) (intro exI conjI, assumption+)
qed

definition sample_workers :: "nat worker list" where
  "sample_workers =
    [run_tasks sample_lib (\<lambda>ch. True) [AddSnapshot [(''a'', 1), (''b'', 5)]] (worker_new system_default),
     run_tasks sample_lib (\<lambda>ch. True) [AddSnapshot [(''a'', 2)]] (worker_new system_default)]"

lemma sample_workers_long: "map (long \<circ> runner) sample_workers = [[(''a'', 1), (''b'', 5)], [(''a'', 2)]]"
  by (simp add: sample_workers_def run_tasks_def run_effects put_metric_def worker_new_def task_runner_new_def)

lemma sample_workers_names: "(\<Union>w \<in> set sample_workers. fst ` set (long (runner w))) = {''a'', ''b''}"
proof -
  have "(\<Union>w \<in> set sample_workers. fst ` set (long (runner w))) =
      (\<Union>m \<in> set (map (long \<circ> runner) sample_workers). fst ` set m)"
    by simp
  then show ?thesis unfolding sample_workers_long by simp
qed

lemma sample_tick_ok: "mode \<noteq> Separate \<Longrightarrow> tick_ok sample_env (sample_options\<lparr>agg_mode := mode\<rparr>) 9 [1, 2] [1, 0] sample_workers"
  by (simp add: tick_ok_def fresh_channels_def sample_options_def sample_env_def sample_workers_def run_tasks_def run_effects
      worker_new_def)

theorem leader_tick_complete_witness:
  "\<exists>ws' vals c' acc. tick_aggregate sample_lib sample_env (sample_options\<lparr>agg_mode := Common\<rparr>) 9 [1, 2] [1, 0] sample_workers counters_init
      = Inr (ws', vals, c') \<and>
    (\<forall>w \<in> set ws'. long (runner w) = []) \<and> fst ` set acc = {''a'', ''b''} \<and>
    entries_total (\<lambda>k v. v) acc = (8 :: nat)"
proof -
  have "(\<Sum>w\<leftarrow>sample_workers. entries_total (\<lambda>k v. v) (long (runner w))) =
      sum_list (map (entries_total (\<lambda>k v. v)) (map (long \<circ> runner) sample_workers))"
    by (simp only: map_map comp_def)
  then have total: "(\<Sum>w\<leftarrow>sample_workers. entries_total (\<lambda>k v. v) (long (runner w))) = 8"
    by (simp add: sample_workers_long del: map_map)
  have "tick_ok sample_env (sample_options\<lparr>agg_mode := Common\<rparr>) 9 [1, 2] [1, 0] sample_workers" by (rule sample_tick_ok) simp
  from leader_tick_complete [OF this sample_lib_additive, of counters_init]
  show ?thesis unfolding total sample_workers_names by (elim exE conjE) (intro exI conjI, assumption+)
qed

text \<open>
  An interval on a node that does not lead: whatever the environment does, nothing is
  handed to the carbon backend and no counter changes, but every worker's long cache is
  emptied, so a node that becomes leader starts with the metrics of its current interval.
\<close>

lemma follower_tick_clears:
  assumes "\<not> is_leader aopts" and "length replies = length ws"
  shows "\<exists>ws'. tick_aggregate lib env aopts tx replies order ws c = Inr (ws', [], c) \<and>
    length ws' = length ws \<and> (\<forall>w \<in> set ws'. long (runner w) = []) \<and>
    map (short \<circ> runner) ws' = map (short \<circ> runner) ws"
proof -
  let ?ws1 = "deliver lib (env_alive env) (rotate_requests replies) ws"
  have "tick_aggregate lib env aopts tx replies order ws c = Inr (?ws1, [], c)"
    using assms(1) by (simp add: tick_aggregate_def aggregator_def Let_def deliver_def)
  moreover have "\<forall>w \<in> set ?ws1. long (runner w) = []"
    by (auto simp: deliver_rotate_requests [OF assms(2)] run_effects)
  moreover have "map (short \<circ> runner) ?ws1 = map (short \<circ> runner) ws"
    unfolding deliver_rotate_requests [OF assms(2)]
    by (rule nth_equalityI) (simp_all add: assms(2) run_effects)
  ultimately show ?thesis by (intro exI [of _ ?ws1]) simp
qed

text \<open>
  \<open>EGRESS\<close> counts an interval twice over: it grows by the number of metric names that were
  aggregated and, once more, by the number of values that the backend received.
\<close>

theorem leader_tick_egress:
  assumes "tick_ok env aopts tx replies order ws"
    and "tick_aggregate lib env aopts tx replies order ws c = Inr (ws', vals, c')"
  shows "EGRESS c' = EGRESS c + of_nat (card (\<Union>w \<in> set ws. fst ` set (long (runner w)))) + of_nat (length vals)"
proof -
  let ?rs = "map (\<lambda>i. map (\<lambda>w. Some (long (runner w))) ws ! i) order"
  let ?acc = "fold (put_metric lib) (arrived ?rs) []"
  obtain st' where st': "dispatch lib env aopts tx (length ws) ?acc
        \<lparr>agg_stats = snd (accumulate lib ?rs ([], c)), agg_sent = [], agg_queued = []\<rparr> = Inr st'"
      "c' = add_egress (of_nat (length vals)) (agg_stats st')"
    using tick_leader [OF assms(1), of lib c] assms(2) by auto
  have "EGRESS (agg_stats st') = EGRESS c + of_nat (length ?acc)"
    using dispatch_egress [OF st'(1)] by (simp add: accumulate_egress)
  moreover have "length ?acc = card (\<Union>w \<in> set ws. fst ` set (long (runner w)))"
    using tick_names [OF assms(1), of lib] distinct_card [of "map fst ?acc"] by simp
  ultimately show ?thesis using st'(2) by simp
qed

text \<open>
  With the options that \<open>main\<close> makes, an update counter never takes the name of the metric
  that it counts: its name is the metric's name with a non-empty prefix or suffix attached by
  a dot.
\<close>

lemma update_counter_never_shadows:
  assumes "fst (update_counter_value lib (task_data (tick_options m l) tx (name, metric))) = Some (cname, value)"
  shows "length name < length cname \<and> update_counter_threshold m < update_counter lib metric \<and>
    cname = (if update_counter_prefix m = [] then [] else update_counter_prefix m @ ''.'') @ name @
      (if update_counter_suffix m = [] then [] else ''.'' @ update_counter_suffix m)"
  using assms
  by (auto simp: update_counter_value_def tick_options_def task_data_def effective_count_updates_def Let_def split: if_splits)

text \<open>
  A node starts unless it is configured without workers, and then every precondition of
  its front end holds: one flush flag for each network thread, every listener at the flag of
  its thread with an empty buffer, as many well-formed workers as configured.
\<close>

lemma node_start_ok:
  "case node_start cfg of
     Inl p \<Rightarrow> w_threads cfg = 0
   | Inr nd \<Rightarrow>
       length (node_workers nd) = unat (w_threads cfg) \<and> node_workers nd \<noteq> [] \<and>
       list_all (runner_wf \<circ> runner) (node_workers nd) \<and>
       length (node_flags nd) = unat (n_threads cfg) \<and>
       list_all (list_all (\<lambda>srv. server_ok (length (node_workers nd)) (srv, fresh_net (node_flags nd) counters_init)))
         (node_listeners nd)"
proof (cases "w_threads cfg = 0")
  case True
  then show ?thesis by (simp add: node_start_def start_workers_def)
next
  case False
  then have pos: "0 < unat (w_threads cfg)" by (simp add: unat_gt_0)
  then have "server_ok (unat (w_threads cfg))
      (statsd_server_new [] cfg bsize 0 i i, fresh_net (replicate (unat (n_threads cfg)) False) counters_init)"
    if "i < unat (n_threads cfg)" for i bsize
    using that by (intro server_start_ok) simp_all
  with pos show ?thesis
    using runner_wf_new
    by (simp add: node_start_def start_workers_def start_flags_def start_listeners_def list_all_iff start_async_udp_def
        in_set_replicate Let_def)
qed

end
