(* ===== verification/System.thy ===== *)
theory System
  imports Node Transitions
begin

text \<open>
  The node as a system of threads. A state holds the queues of the workers with the workers
  behind them, the listeners of the asynchronous front end or the threads of the multimessage
  mode with their buffers, the connections of the peer
  server, the snapshot rounds and carbon intervals that have begun and not ended, and the
  process-wide counters and leadership. A step is one of them moving: a listener takes a
  datagram, a worker takes one task from its queue, a timer fires, an interval whose answers
  have arrived goes on. Which one moves is not determined, so every statement about reachable
  states covers every interleaving of the threads.

  A queue takes every task: each task is sent through a clone of the queue's sender, which
  the channel library always grants one slot, and the workers never drop their ends. The
  requests of one round are queued in one step.
\<close>

section \<open>State\<close>

text \<open>The code outside the node, the addresses of its peers, and its configuration.\<close>

record ('w, 'r, 'm) world =
  w_lib :: "'m metric_lib"
  w_capnp :: "('w, 'r, 'm) capnp_lib"
  w_json :: json_lib
  w_hash :: "socket_addr \<Rightarrow> u64"
  w_pool_ok :: "usize \<Rightarrow> bool"
  w_peers :: "socket_addr list"
  w_recvmmsg :: kernel
  w_name_hash :: "bytes \<Rightarrow> u64"
  w_cfg :: system_config

text \<open>A worker with its queue; the tasks it has executed are history.\<close>

record 'm slot =
  sl_queue :: "'m task list"
  sl_worker :: "'m worker"
  sl_done :: "'m task list"

text \<open>
  A carbon interval: its thread waits for the rotated caches, and then, on the leader, for
  the values that are computed from the accumulated cache. The cache is history, the messages
  are those that the thread sent to itself.
\<close>

datatype 'm phase = Rotating | Collecting "'m cache" "'m message list"

record 'm interval =
  iv_options :: aggregate_options
  iv_tx :: chan_id
  iv_replies :: "chan_id list"
  iv_phase :: "'m phase"

definition phase_cache :: "'m phase \<Rightarrow> 'm cache" where
  "phase_cache ph = (case ph of Rotating \<Rightarrow> [] | Collecting acc msgs \<Rightarrow> acc)"

text \<open>The values that one interval collected for the carbon clients, and the cache it was made from.\<close>

record 'm batch =
  bt_options :: aggregate_options
  bt_tx :: chan_id
  bt_cache :: "'m cache"
  bt_values :: "(bytes \<times> f64) list"

record 'm system =
  sys_slots :: "'m slot list"
  sys_stats :: counters
  sys_net :: "socket_addr net"
  sys_listeners :: "(statsd_server \<times> bool) list"
  sys_conns :: "nat \<Rightarrow> nat option"
  sys_intervals :: "'m interval list"
  sys_rounds :: "chan_id list list"
  sys_fresh :: chan_id
  sys_reporter :: own_stats
  sys_lead :: leadership
  sys_senders :: "'m snapshot_sender list"
  sys_batches :: "'m batch list"
  sys_lost :: "'m batch list"
  sys_received :: "(socket_addr \<times> bytes) list"
  sys_dropped :: "(socket_addr \<times> bytes) list"
  sys_mm :: "mm_state option list"
  sys_mm_net :: "bytes net"
  sys_mm_received :: "(bytes \<times> bytes) list"
  sys_inflow :: "(bytes \<times> 'm) list"
  sys_discarded :: "(bytes \<times> 'm) list"

text \<open>
  The batches that were passed on to carbon clients are in \<open>sys_batches\<close>, those whose thread
  panicked over them in \<open>sys_lost\<close>. A listener that has stopped keeps its place, with the flag
  off and without its buffers, which go to \<open>sys_dropped\<close>. All three are history. The flush flags stand in the surroundings of both modes; a node runs one of them, and the flush
  timer sets the flags of both.
\<close>

definition boot_slot :: "'m worker \<Rightarrow> 'm slot" where
  "boot_slot w = \<lparr>sl_queue = [], sl_worker = w, sl_done = []\<rparr>"

definition boot :: "'m node \<Rightarrow> 'm system" where
  "boot nd =
    \<lparr>sys_slots = map boot_slot (node_workers nd), sys_stats = counters_init,
     sys_net = fresh_net (node_flags nd) counters_init,
     sys_listeners = map (\<lambda>srv. (srv, True)) (concat (node_listeners nd)), sys_conns = (\<lambda>c. None),
     sys_intervals = [], sys_rounds = [], sys_fresh = 0, sys_reporter = node_stats nd,
     sys_lead = node_leadership nd, sys_senders = [],
     sys_batches = [], sys_lost = [], sys_received = [], sys_dropped = [], sys_mm = node_mm nd,
     sys_mm_net = fresh_net (node_flags nd) counters_init, sys_mm_received = [], sys_inflow = [], sys_discarded = []\<rparr>"

definition node_init :: "('w, 'r, 'm) world \<Rightarrow> 'm system \<Rightarrow> bool" where
  "node_init W s \<longleftrightarrow> (\<exists>nd. node_start (w_cfg W) = Inr nd \<and> s = boot nd)"

section \<open>Operations\<close>

definition push :: "nat \<times> 'm task \<Rightarrow> 'm slot list \<Rightarrow> 'm slot list" where
  "push p slots = slots[fst p := (slots ! fst p)\<lparr>sl_queue := sl_queue (slots ! fst p) @ [snd p]\<rparr>]"

definition push_all :: "(nat \<times> 'm task) list \<Rightarrow> 'm slot list \<Rightarrow> 'm slot list" where
  "push_all ps = fold push ps"

abbreviation rotating :: "'m interval \<Rightarrow> bool" where
  "rotating iv \<equiv> iv_phase iv = Rotating"

text \<open>The channels whose receiving end exists: those that an open interval or round waits for.\<close>

definition sys_alive :: "'m system \<Rightarrow> chan_id \<Rightarrow> bool" where
  "sys_alive s ch \<longleftrightarrow>
    list_ex (\<lambda>iv. (rotating iv \<and> ch \<in> set (iv_replies iv)) \<or> (is_leader (iv_options iv) \<and> ch = iv_tx iv)) (sys_intervals s) \<or>
    list_ex (\<lambda>replies. ch \<in> set replies) (sys_rounds s)"

text \<open>A listener takes what the socket gives it; what it sends goes to the queues.\<close>

definition sent_tasks :: "'a parse_send list \<Rightarrow> (nat \<times> 'm task) list" where
  "sent_tasks ps = map (\<lambda>p. (ps_chan p, Parse (ps_hash p) (ps_payload p))) ps"

definition arrival :: "received \<Rightarrow> (socket_addr \<times> bytes) list" where
  "arrival r = (case r of RecvError e \<Rightarrow> [] | Datagram payload addr \<Rightarrow> [(addr, payload)])"

definition listen :: "('w, 'r, 'm) world \<Rightarrow> nat \<Rightarrow> received \<Rightarrow> 'm system \<Rightarrow> panic + 'm system" where
  "listen W l r s =
    (let srv = fst (sys_listeners s ! l); net = (sys_net s)\<lparr>net_stats := sys_stats s\<rparr> in
     case server_receive (w_hash W) (\<lambda>k. True) (length (sys_slots s)) r srv net of
       Inl p \<Rightarrow> Inl p
     | Inr (next_srv, net') \<Rightarrow>
         Inr (s\<lparr>sys_net := net', sys_stats := net_stats net',
           sys_listeners := (sys_listeners s)[l :=
             (case next_srv of Some srv' \<Rightarrow> (srv', True) | None \<Rightarrow> (srv\<lparr>bufmap := []\<rparr>, False))],
           sys_dropped := sys_dropped s @ (case next_srv of Some srv' \<Rightarrow> [] | None \<Rightarrow> bufmap srv),
           sys_slots := push_all (sent_tasks (drop (length (net_log net)) (net_log net'))) (sys_slots s),
           sys_received := sys_received s @ arrival r\<rparr>))"

text \<open>
  So does a thread of the multimessage mode with what one system call delivers: no more
  datagrams than it has headers, each from an IPv4 address and no longer than its row. Every
  send goes through a new clone of the sender, which has a slot of its own in the queue.
\<close>

abbreviation sys_packets :: "('w, 'r, 'm) world \<Rightarrow> usize" where
  "sys_packets W \<equiv> mm_packets (network (w_cfg W))"

definition sys_rowsize :: "('w, 'r, 'm) world \<Rightarrow> usize" where
  "sys_rowsize W = mm_rowsize (sys_packets W) (bufsize (network (w_cfg W)))"

definition receive_many ::
    "('w, 'r, 'm) world \<Rightarrow> nat \<Rightarrow> (bytes \<times> bytes) list \<Rightarrow> 'm system \<Rightarrow> panic + 'm system" where
  "receive_many W i batch s =
    (let net = (sys_mm_net s)\<lparr>net_stats := sys_stats s\<rparr> in
     case mm_call (w_recvmmsg W) (w_name_hash W) (\<lambda>k. True) (w_cfg W) (length (sys_slots s)) i (sys_rowsize W) batch
            (the (sys_mm s ! i), net) of
       Inl p \<Rightarrow> Inl p
     | Inr (st, net') \<Rightarrow>
         Inr (s\<lparr>sys_mm_net := net', sys_stats := net_stats net', sys_mm := (sys_mm s)[i := Some st],
           sys_slots := push_all (sent_tasks (drop (length (net_log net)) (net_log net'))) (sys_slots s),
           sys_mm_received := sys_mm_received s @ batch\<rparr>))"

definition receives_many :: "('w, 'r, 'm) world \<Rightarrow> nat \<Rightarrow> (bytes \<times> bytes) list \<Rightarrow> 'm system \<Rightarrow> bool" where
  "receives_many W i batch s \<longleftrightarrow>
    i < length (sys_mm s) \<and> sys_mm s ! i \<noteq> None \<and> mm_valid (unat (sys_packets W)) (sys_rowsize W) batch"

text \<open>A worker takes the first task of its queue; the counters are those of the process.\<close>

definition work :: "('w, 'r, 'm) world \<Rightarrow> nat \<Rightarrow> 'm system \<Rightarrow> 'm system" where
  "work W k s =
    (let sl = sys_slots s ! k; w = (sl_worker sl)\<lparr>stats := sys_stats s\<rparr>; t = hd (sl_queue sl);
         w' = run (w_lib W) (sys_alive s) t w
     in s\<lparr>sys_slots := (sys_slots s)[k := \<lparr>sl_queue = tl (sl_queue sl), sl_worker = w', sl_done = sl_done sl @ [t]\<rparr>],
          sys_stats := stats w', sys_inflow := sys_inflow s @ inflow (w_lib W) t w\<rparr>)"

definition flush_timer :: "'m system \<Rightarrow> 'm system" where
  "flush_timer s =
    s\<lparr>sys_net := (sys_net s)\<lparr>flush_flags := flush_tick (flush_flags (sys_net s))\<rparr>,
      sys_mm_net := (sys_mm_net s)\<lparr>flush_flags := flush_tick (flush_flags (sys_mm_net s))\<rparr>\<rparr>"

definition start_round :: "'m system \<Rightarrow> 'm system" where
  "start_round s =
    (let n = length (sys_slots s); replies = [sys_fresh s..<sys_fresh s + n]
     in s\<lparr>sys_slots := push_all (take_snapshots replies) (sys_slots s),
          sys_rounds := sys_rounds s @ [replies], sys_fresh := sys_fresh s + n\<rparr>)"

definition snapshot_answer :: "chan_id \<Rightarrow> 'm message list \<Rightarrow> 'm cache option" where
  "snapshot_answer ch out = map_of (snapshots out) ch"

definition round_answers :: "chan_id list \<Rightarrow> 'm slot list \<Rightarrow> 'm cache option list" where
  "round_answers replies slots = map2 (\<lambda>sl ch. snapshot_answer ch (outbox (sl_worker sl))) slots replies"

definition end_round ::
    "('w, 'r, 'm) world \<Rightarrow> chan_id list \<Rightarrow> 'm system \<Rightarrow> 'm system" where
  "end_round W replies s =
    (case snapshot_round (w_peers W) (peer_client_bind (network (w_cfg W))) (round_answers replies (sys_slots s)) (sys_stats s) of
       (Inl e, c) \<Rightarrow> s\<lparr>sys_stats := c, sys_rounds := filter (\<lambda>r. r \<noteq> replies) (sys_rounds s)\<rparr>
     | (Inr senders, c) \<Rightarrow>
         s\<lparr>sys_stats := c, sys_rounds := filter (\<lambda>r. r \<noteq> replies) (sys_rounds s),
           sys_senders := sys_senders s @ senders\<rparr>)"

definition start_interval :: "('w, 'r, 'm) world \<Rightarrow> 'm system \<Rightarrow> 'm system" where
  "start_interval W s =
    (let n = length (sys_slots s); tx = sys_fresh s; replies = [tx + 1..<tx + 1 + n]
     in s\<lparr>sys_slots := push_all (rotate_requests replies) (sys_slots s),
          sys_intervals := sys_intervals s @
            [\<lparr>iv_options = tick_options (metrics (w_cfg W)) (sys_lead s), iv_tx = tx, iv_replies = replies, iv_phase = Rotating\<rparr>],
          sys_fresh := tx + 1 + n\<rparr>)"

definition interval_answers :: "'m interval \<Rightarrow> 'm slot list \<Rightarrow> 'm cache option list" where
  "interval_answers iv slots = map2 (\<lambda>sl ch. rotation_answer ch (outbox (sl_worker sl))) slots (iv_replies iv)"

abbreviation without :: "'m interval \<Rightarrow> 'm interval list \<Rightarrow> 'm interval list" where
  "without iv ivs \<equiv> filter (\<lambda>v. iv_tx v \<noteq> iv_tx iv) ivs"

text \<open>
  The aggregator of an interval, once every worker has answered, the answers arriving in the
  order \<open>order\<close>. On a node that does not lead the caches are dropped; so they are if the
  thread of the interval panics, which is what it does in the separate mode. What it added to
  the counters before a panic is left out.
\<close>

definition aggregate_interval :: "('w, 'r, 'm) world \<Rightarrow> 'm interval \<Rightarrow> nat list \<Rightarrow> 'm system \<Rightarrow> 'm system" where
  "aggregate_interval W iv order s =
    (let responses = map (\<lambda>i. interval_answers iv (sys_slots s) ! i) order;
         env = \<lparr>env_alive = sys_alive s, env_accepts = (\<lambda>i. True), env_pool_ok = w_pool_ok W\<rparr>;
         gone = s\<lparr>sys_intervals := without iv (sys_intervals s), sys_discarded := sys_discarded s @ arrived responses\<rparr>
     in case aggregator (w_lib W) env (iv_options iv) (iv_tx iv) (length (sys_slots s)) responses
              \<lparr>agg_stats = sys_stats s, agg_sent = [], agg_queued = []\<rparr> of
          Inl p \<Rightarrow> gone
        | Inr (res, st) \<Rightarrow>
            if is_leader (iv_options iv) then
              s\<lparr>sys_stats := agg_stats st, sys_slots := push_all (agg_queued st) (sys_slots s),
                sys_intervals := map (\<lambda>v. if iv_tx v = iv_tx iv
                  then v\<lparr>iv_phase := Collecting (the (fst (accumulate (w_lib W) responses ([], sys_stats s)))) (agg_sent st)\<rparr>
                  else v) (sys_intervals s)\<rparr>
            else gone\<lparr>sys_stats := agg_stats st\<rparr>)"

text \<open>
  The values that arrived are complete when no task that could send another is left: the
  channel of values closes with its last sender.
\<close>

definition values_for :: "chan_id \<Rightarrow> 'm task \<Rightarrow> bool" where
  "values_for tx t = (case t of Aggregate d \<Rightarrow> ad_response d = tx | _ \<Rightarrow> False)"

definition sys_outbox :: "'m system \<Rightarrow> 'm message list" where
  "sys_outbox s = concat (map (\<lambda>sl. outbox (sl_worker sl)) (sys_slots s))"

text \<open>
  The collected values are counted and split over the carbon clients. If the split panics the
  thread of the interval ends, and the batch is lost.
\<close>

definition collect_interval ::
    "('w, 'r, 'm) world \<Rightarrow> 'm interval \<Rightarrow> 'm cache \<Rightarrow> 'm message list \<Rightarrow> 'm system \<Rightarrow> 'm system" where
  "collect_interval W iv acc msgs s =
    (let vals = backend_values (iv_tx iv) (msgs @ sys_outbox s);
         b = \<lparr>bt_options = iv_options iv, bt_tx = iv_tx iv, bt_cache = acc, bt_values = vals\<rparr>;
         counted = s\<lparr>sys_stats := add_egress (of_nat (length vals)) (sys_stats s), sys_intervals := without iv (sys_intervals s)\<rparr>
     in case carbon_split (carbon (w_cfg W)) vals of
          Inl p \<Rightarrow> counted\<lparr>sys_lost := sys_lost s @ [b], sys_discarded := sys_discarded s @ acc\<rparr>
        | Inr parts \<Rightarrow> counted\<lparr>sys_batches := sys_batches s @ [b]\<rparr>)"

section \<open>Steps\<close>

datatype 'w event =
    Receive nat received
  | ReceiveMany nat "(bytes \<times> bytes) list"
  | FlushTimer
  | Work nat
  | Report
  | PeerOpen nat
  | PeerMessage nat 'w
  | PeerClose nat
  | SnapshotTimer
  | SnapshotsTaken "chan_id list"
  | SendError
  | CarbonTimer
  | Rotated_all chan_id
  | Collected chan_id
  | Manage http_request
  | Elect bool

inductive node_step :: "('w, 'r, 'm) world \<Rightarrow> 'w event \<Rightarrow> 'm system \<Rightarrow> 'm system \<Rightarrow> bool" for W where
  receive: "l < length (sys_listeners s) \<Longrightarrow> snd (sys_listeners s ! l) \<Longrightarrow> listen W l r s = Inr s' \<Longrightarrow>
    node_step W (Receive l r) s s'"
| receive_many: "receives_many W i batch s \<Longrightarrow> receive_many W i batch s = Inr s' \<Longrightarrow>
    node_step W (ReceiveMany i batch) s s'"
| flush: "0 < buffer_flush_time (network (w_cfg W)) \<Longrightarrow> node_step W FlushTimer s (flush_timer s)"
| work: "k < length (sys_slots s) \<Longrightarrow> sl_queue (sys_slots s ! k) \<noteq> [] \<Longrightarrow> node_step W (Work k) s (work W k s)"
| report: "get_stats (w_lib W) (sys_reporter s) (sys_stats s) = Inr (c, ts) \<Longrightarrow>
    node_step W Report s (s\<lparr>sys_stats := c, sys_slots := push_all (map (Pair 0) ts) (sys_slots s)\<rparr>)"
| peer_open: "sys_conns s c = None \<Longrightarrow>
    node_step W (PeerOpen c) s (s\<lparr>sys_conns := (sys_conns s)(c := Some 0)\<rparr>)"
| peer_message: "sys_conns s c = Some pos \<Longrightarrow>
    peer_connection (w_capnp W) (length (sys_slots s)) pos [Inr msg] = ([(k, t)], Closed) \<Longrightarrow>
    node_step W (PeerMessage c msg) s
      (s\<lparr>sys_conns := (sys_conns s)(c := Some (pos + 1)), sys_slots := push_all [(k, t)] (sys_slots s)\<rparr>)"
| peer_close: "node_step W (PeerClose c) s (s\<lparr>sys_conns := (sys_conns s)(c := None)\<rparr>)"
| snapshot: "node_step W SnapshotTimer s (start_round s)"
| snapshots_taken: "replies \<in> set (sys_rounds s) \<Longrightarrow> None \<notin> set (round_answers replies (sys_slots s)) \<Longrightarrow>
    node_step W (SnapshotsTaken replies) s (end_round W replies s)"
| send_error: "node_step W SendError s (s\<lparr>sys_stats := add_peer_errors 1 (sys_stats s)\<rparr>)"
| carbon: "node_step W CarbonTimer s (start_interval W s)"
| rotated_all: "iv \<in> set (sys_intervals s) \<Longrightarrow> rotating iv \<Longrightarrow> iv_tx iv = tx \<Longrightarrow>
    None \<notin> set (interval_answers iv (sys_slots s)) \<Longrightarrow> mset order = mset [0..<length (sys_slots s)] \<Longrightarrow>
    node_step W (Rotated_all tx) s (aggregate_interval W iv order s)"
| collected: "iv \<in> set (sys_intervals s) \<Longrightarrow> iv_phase iv = Collecting acc msgs \<Longrightarrow> iv_tx iv = tx \<Longrightarrow>
    \<forall>sl \<in> set (sys_slots s). \<forall>t \<in> set (sl_queue sl). \<not> values_for tx t \<Longrightarrow>
    node_step W (Collected tx) s (collect_interval W iv acc msgs s)"
| manage: "node_step W (Manage req) s (s\<lparr>sys_lead := snd (mgmt_call (w_json W) req (sys_lead s))\<rparr>)"
| elect: "node_step W (Elect acquired) s (s\<lparr>sys_lead := switch_leader acquired (sys_lead s)\<rparr>)"

section \<open>Kinds of steps\<close>

text \<open>Tasks that ask for no answer.\<close>

definition ordinary :: "'m task \<Rightarrow> bool" where
  "ordinary t = (case t of TakeSnapshot ch \<Rightarrow> False | Rotate ch \<Rightarrow> False | Aggregate d \<Rightarrow> False | _ \<Rightarrow> True)"

lemma ordinary_simps [simp]:
  "ordinary (Parse a b)" "ordinary (AddMetric name m)" "ordinary (AddMetrics kvs)" "ordinary (AddSnapshot kvs)"
  "\<not> ordinary (TakeSnapshot ch)" "\<not> ordinary (Rotate ch)" "\<not> ordinary (Aggregate d)"
  by (simp_all add: ordinary_def)

lemma sent_tasks_ordinary: "\<forall>p \<in> set (sent_tasks ps). ordinary (snd p)"
  by (simp add: sent_tasks_def)

text \<open>The steps of the network threads; no others queue bytes to parse.\<close>

definition from_network :: "'w event \<Rightarrow> bool" where
  "from_network e = (case e of Receive l r \<Rightarrow> True | ReceiveMany i batch \<Rightarrow> True | _ \<Rightarrow> False)"

text \<open>The reporter and the peer server queue metrics, no bytes to parse.\<close>

definition metric_task :: "'m task \<Rightarrow> bool" where
  "metric_task t \<longleftrightarrow> ordinary t \<and> \<not> is_Parse t"

lemma get_stats_tasks: "get_stats lib os c = Inr (c', ts) \<Longrightarrow> list_all (\<lambda>t. metric_task t \<and> \<not> is_AddSnapshot t) ts"
  by (auto simp: get_stats_report stats_report_def metric_task_def list_all_iff)

lemma peer_connection_task:
  "peer_connection cl n pos [Inr msg] = ([(k, t)], Closed) \<Longrightarrow> metric_task t \<and> k = pos mod n \<and> 0 < n"
  by (auto simp: parse_and_send_def metric_task_def split: sum.splits which.splits if_splits)

text \<open>What the steps do, in seven kinds. A quiet one only queues tasks that ask for no answer.\<close>

lemma node_step_kinds [consumes 1, case_names quiet work round_start round_end interval_start aggregate collect]:
  assumes "node_step W e s s'"
  obtains ps where "\<forall>p \<in> set ps. ordinary (snd p)" "sys_slots s' = push_all ps (sys_slots s)"
      "sys_intervals s' = sys_intervals s" "sys_rounds s' = sys_rounds s" "sys_fresh s' = sys_fresh s"
      "sys_batches s' = sys_batches s" "sys_inflow s' = sys_inflow s" "sys_discarded s' = sys_discarded s"
      "sys_senders s' = sys_senders s" "\<And>k. e \<noteq> Work k" "\<And>tx. e \<noteq> Rotated_all tx" "\<And>tx. e \<noteq> Collected tx"
      "\<not> from_network e \<longrightarrow> (\<forall>p \<in> set ps. \<not> is_Parse (snd p))"
      "(\<forall>c msg. e \<noteq> PeerMessage c msg) \<longrightarrow> (\<forall>p \<in> set ps. \<not> is_AddSnapshot (snd p))"
  | k where "e = Work k" "k < length (sys_slots s)" "sl_queue (sys_slots s ! k) \<noteq> []" "s' = work W k s"
  | "e = SnapshotTimer" "s' = start_round s"
  | replies where "e = SnapshotsTaken replies" "replies \<in> set (sys_rounds s)"
      "None \<notin> set (round_answers replies (sys_slots s))" "s' = end_round W replies s"
  | "e = CarbonTimer" "s' = start_interval W s"
  | iv order where "e = Rotated_all (iv_tx iv)" "iv \<in> set (sys_intervals s)" "rotating iv"
      "None \<notin> set (interval_answers iv (sys_slots s))" "mset order = mset [0..<length (sys_slots s)]"
      "s' = aggregate_interval W iv order s"
  | iv acc msgs where "e = Collected (iv_tx iv)" "iv \<in> set (sys_intervals s)" "iv_phase iv = Collecting acc msgs"
      "\<forall>sl \<in> set (sys_slots s). \<forall>t \<in> set (sl_queue sl). \<not> values_for (iv_tx iv) t"
      "s' = collect_interval W iv acc msgs s"
  using assms
proof (cases rule: node_step.cases)
  case (receive l r)
  then obtain srv lost net where "s' = s\<lparr>sys_net := net, sys_stats := net_stats net, sys_listeners := srv, sys_dropped := lost,
      sys_slots := push_all (sent_tasks (drop (length (net_log (sys_net s))) (net_log net))) (sys_slots s),
      sys_received := sys_received s @ arrival r\<rparr>"
    by (auto simp: listen_def Let_def split: sum.splits prod.splits)
  with receive(1) sent_tasks_ordinary show thesis by (intro that(1)) (auto simp: sent_tasks_def from_network_def)
next
  case (receive_many i batch)
  then obtain threads net where "s' = s\<lparr>sys_mm_net := net, sys_stats := net_stats net, sys_mm := threads,
      sys_slots := push_all (sent_tasks (drop (length (net_log (sys_mm_net s))) (net_log net))) (sys_slots s),
      sys_mm_received := sys_mm_received s @ batch\<rparr>"
    by (auto simp: receive_many_def Let_def split: sum.splits prod.splits)
  with receive_many(1) sent_tasks_ordinary show thesis by (intro that(1)) (auto simp: sent_tasks_def from_network_def)
next
  case (report c ts)
  then show thesis using get_stats_tasks [of "w_lib W" "sys_reporter s" "sys_stats s" c ts]
    by (intro that(1) [of "map (Pair 0) ts"]) (auto simp: list_all_iff metric_task_def)
next
  case (peer_message c pos msg k t)
  then show thesis using peer_connection_task [of "w_capnp W" "length (sys_slots s)" pos msg k t]
    by (intro that(1) [of "[(k, t)]"]) (auto simp: metric_task_def)
next
  case flush
  then show thesis by (intro that(1) [of "[]"]) (auto simp: flush_timer_def push_all_def)
next
  case work
  then show thesis by (intro that(2)) auto
next
  case snapshot
  then show thesis by (intro that(3)) auto
next
  case (snapshots_taken replies)
  then show thesis by (intro that(4)) auto
next
  case carbon
  then show thesis by (intro that(5)) auto
next
  case (rotated_all iv tx order)
  then show thesis by (intro that(6)) auto
next
  case (collected iv acc msgs tx)
  then show thesis by (intro that(7)) auto
qed (intro that(1) [of "[]"]; simp add: push_all_def)+

section \<open>Execution\<close>

text \<open>
  A step as a function: the state after an event, if the event can happen. The answers of an
  interval arrive in the order of the workers.
\<close>

definition exec_rotated :: "('w, 'r, 'm) world \<Rightarrow> chan_id \<Rightarrow> 'm system \<Rightarrow> 'm system option" where
  "exec_rotated W tx s =
    (case find (\<lambda>iv. iv_tx iv = tx) (sys_intervals s) of
       Some iv \<Rightarrow>
         (case iv_phase iv of
            Rotating \<Rightarrow> if list_ex (\<lambda>a. a = None) (interval_answers iv (sys_slots s)) then None
              else Some (aggregate_interval W iv [0..<length (sys_slots s)] s)
          | Collecting acc msgs \<Rightarrow> None)
     | None \<Rightarrow> None)"

definition exec_collected :: "('w, 'r, 'm) world \<Rightarrow> chan_id \<Rightarrow> 'm system \<Rightarrow> 'm system option" where
  "exec_collected W tx s =
    (case find (\<lambda>iv. iv_tx iv = tx) (sys_intervals s) of
       Some iv \<Rightarrow>
         (case iv_phase iv of
            Rotating \<Rightarrow> None
          | Collecting acc msgs \<Rightarrow> if list_ex (\<lambda>sl. list_ex (values_for tx) (sl_queue sl)) (sys_slots s) then None
              else Some (collect_interval W iv acc msgs s))
     | None \<Rightarrow> None)"

fun node_exec :: "('w, 'r, 'm) world \<Rightarrow> 'w event \<Rightarrow> 'm system \<Rightarrow> 'm system option" where
  "node_exec W (Receive l r) s =
    (if l < length (sys_listeners s) \<and> snd (sys_listeners s ! l)
     then case listen W l r s of Inr s' \<Rightarrow> Some s' | Inl p \<Rightarrow> None else None)"
| "node_exec W (ReceiveMany i batch) s =
    (if receives_many W i batch s then case receive_many W i batch s of Inr s' \<Rightarrow> Some s' | Inl p \<Rightarrow> None else None)"
| "node_exec W FlushTimer s = (if 0 < buffer_flush_time (network (w_cfg W)) then Some (flush_timer s) else None)"
| "node_exec W (Work k) s =
    (if k < length (sys_slots s) then case sl_queue (sys_slots s ! k) of [] \<Rightarrow> None | _ \<Rightarrow> Some (work W k s) else None)"
| "node_exec W Report s =
    (case get_stats (w_lib W) (sys_reporter s) (sys_stats s) of
       Inr (c, ts) \<Rightarrow> Some (s\<lparr>sys_stats := c, sys_slots := push_all (map (Pair 0) ts) (sys_slots s)\<rparr>)
     | Inl p \<Rightarrow> None)"
| "node_exec W (PeerOpen c) s =
    (case sys_conns s c of None \<Rightarrow> Some (s\<lparr>sys_conns := (sys_conns s)(c := Some 0)\<rparr>) | Some pos \<Rightarrow> None)"
| "node_exec W (PeerMessage c msg) s =
    (case sys_conns s c of
       None \<Rightarrow> None
     | Some pos \<Rightarrow>
         (case peer_connection (w_capnp W) (length (sys_slots s)) pos [Inr msg] of
            ([(k, t)], Closed) \<Rightarrow>
              Some (s\<lparr>sys_conns := (sys_conns s)(c := Some (pos + 1)), sys_slots := push_all [(k, t)] (sys_slots s)\<rparr>)
          | _ \<Rightarrow> None))"
| "node_exec W (PeerClose c) s = Some (s\<lparr>sys_conns := (sys_conns s)(c := None)\<rparr>)"
| "node_exec W SnapshotTimer s = Some (start_round s)"
| "node_exec W (SnapshotsTaken replies) s =
    (if list_ex (\<lambda>r. r = replies) (sys_rounds s) \<and> \<not> list_ex (\<lambda>a. a = None) (round_answers replies (sys_slots s))
     then Some (end_round W replies s) else None)"
| "node_exec W SendError s = Some (s\<lparr>sys_stats := add_peer_errors 1 (sys_stats s)\<rparr>)"
| "node_exec W CarbonTimer s = Some (start_interval W s)"
| "node_exec W (Rotated_all tx) s = exec_rotated W tx s"
| "node_exec W (Collected tx) s = exec_collected W tx s"
| "node_exec W (Manage req) s = Some (s\<lparr>sys_lead := snd (mgmt_call (w_json W) req (sys_lead s))\<rparr>)"
| "node_exec W (Elect acquired) s = Some (s\<lparr>sys_lead := switch_leader acquired (sys_lead s)\<rparr>)"

lemma exec_rotated_step: "exec_rotated W tx s = Some s' \<Longrightarrow> node_step W (Rotated_all tx) s s'"
  by (auto simp: exec_rotated_def find_Some_iff list_ex_iff split: option.splits phase.splits if_splits intro!: rotated_all)

lemma exec_collected_step: "exec_collected W tx s = Some s' \<Longrightarrow> node_step W (Collected tx) s s'"
  by (auto simp: exec_collected_def find_Some_iff list_ex_iff split: option.splits phase.splits if_splits intro!: collected)

lemma node_exec_step:
  assumes "node_exec W e s = Some s'"
  shows "node_step W e s s'"
proof (cases e)
  case (PeerMessage c msg)
  with assms show ?thesis
    by (auto simp del: peer_connection.simps split: option.splits prod.splits list.splits conn_end.splits
        intro!: peer_message [unfolded Suc_eq_plus1 [symmetric]])
next
  case (SnapshotsTaken replies)
  with assms show ?thesis by (auto simp: list_ex_iff split: if_splits intro!: snapshots_taken)
qed (use assms in \<open>auto intro: node_step.intros exec_rotated_step exec_collected_step
    split: if_splits sum.splits prod.splits option.splits list.splits\<close>)

fun node_exec_all :: "('w, 'r, 'm) world \<Rightarrow> 'w event list \<Rightarrow> 'm system \<Rightarrow> 'm system option" where
  "node_exec_all W [] s = Some s"
| "node_exec_all W (e # es) s = (case node_exec W e s of None \<Rightarrow> None | Some s' \<Rightarrow> node_exec_all W es s')"

lemma node_exec_all_reach:
  "node_exec_all W es s = Some s' \<Longrightarrow> reach (node_init W) (node_step W) s \<Longrightarrow> reach (node_init W) (node_step W) s'"
  by (induction es arbitrary: s) (auto split: option.splits intro: reach_step node_exec_step)

section \<open>A scenario\<close>

text \<open>
  A leader with one worker and one listener. A peer sends a snapshot, a datagram arrives and
  is flushed, and the worker does both tasks before the carbon interval and the rotation.
\<close>

definition sample_world :: "((bytes \<times> nat) which, bytes \<times> nat, nat) world" where
  "sample_world =
    \<lparr>w_lib = sample_lib, w_capnp = sample_capnp, w_json = sample_json, w_hash = sample_hash,
     w_pool_ok = (\<lambda>n. True), w_peers = [], w_recvmmsg = copy_kernel 16, w_name_hash = (\<lambda>name. of_nat (length name)),
     w_cfg = system_default\<lparr>w_threads := 1, n_threads := 1, start_as_leader := True,
       network := network_default\<lparr>greens := 1, async_sockets := 1, buffer_flush_length := 4\<rparr>\<rparr>\<rparr>"

definition sample_events :: "(bytes \<times> nat) which event list" where
  "sample_events =
    [PeerOpen 0, PeerMessage 0 (MSnapshot (Inr [(''a'', 3)])),
     Receive 0 (Datagram (''cpu'' @ [CHR 0x0A]) (SocketAddrV4 10 0 0 1 5)),
     Work 0, Work 0, SnapshotTimer, Work 0, SnapshotsTaken [0], CarbonTimer, Work 0, Rotated_all 1, Collected 1]"

definition sample_boot :: "nat system" where
  "sample_boot = (case node_start (w_cfg sample_world) of Inr nd \<Rightarrow> boot nd | Inl p \<Rightarrow> undefined)"

text \<open>
  The states of a run that executes a list of events; after the last one a connection that
  does not exist is closed, again and again.
\<close>

definition exec_state :: "('w, 'r, 'm) world \<Rightarrow> 'w event list \<Rightarrow> 'm system \<Rightarrow> nat \<Rightarrow> 'm system" where
  "exec_state W es s k = the (node_exec_all W (take k es) s)"

definition exec_event :: "'w event list \<Rightarrow> nat \<Rightarrow> 'w event" where
  "exec_event es k = (if k < length es then es ! k else PeerClose 1)"

lemma node_exec_all_append:
  "node_exec_all W (es @ es') s = (case node_exec_all W es s of None \<Rightarrow> None | Some s' \<Rightarrow> node_exec_all W es' s')"
  by (induction es arbitrary: s) (simp_all split: option.splits)

lemma exec_prefix:
  "node_exec_all W es s \<noteq> None \<Longrightarrow> node_exec_all W (take k es) s = Some (exec_state W es s k)"
  using node_exec_all_append [of W "take k es" "drop k es" s] by (auto simp: exec_state_def split: option.splits)

lemma exec_rests: "length es \<le> k \<Longrightarrow> exec_state W es s k = exec_state W es s (length es)"
  by (simp add: exec_state_def)

lemma exec_run:
  assumes init: "node_init W s" and complete: "node_exec_all W es s \<noteq> None"
    and conns: "sys_conns (exec_state W es s (length es)) 1 = None"
  shows "is_run (node_init W) (node_step W) (exec_state W es s) (exec_event es)"
  unfolding is_run_def
proof (intro conjI allI)
  show "node_init W (exec_state W es s 0)" using init by (simp add: exec_state_def)
  fix k
  show "node_step W (exec_event es k) (exec_state W es s k) (exec_state W es s (Suc k))"
  proof (cases "k < length es")
    case True
    then show ?thesis
      using exec_prefix [OF complete, of "Suc k"] node_exec_all_append [of W "take k es" "[es ! k]" s]
      by (auto simp: take_Suc_conv_app_nth exec_prefix [OF complete] exec_event_def split: option.splits intro: node_exec_step)
  next
    case False
    then show ?thesis
      using peer_close [of W 1 "exec_state W es s (length es)"] conns
      by (simp add: exec_rests [of es k] exec_rests [of es "Suc k"] exec_event_def fun_upd_idem)
  qed
qed

abbreviation sample_state :: "nat \<Rightarrow> nat system" where
  "sample_state \<equiv> exec_state sample_world sample_events sample_boot"

abbreviation sample_event :: "nat \<Rightarrow> (bytes \<times> nat) which event" where
  "sample_event \<equiv> exec_event sample_events"

lemma sample_started: "node_init sample_world sample_boot"
proof -
  have "case node_start (w_cfg sample_world) :: panic + nat node of Inr nd \<Rightarrow> True | Inl p \<Rightarrow> False"
    by code_simp
  then show ?thesis by (auto simp: node_init_def sample_boot_def split: sum.splits)
qed

lemma sample_complete: "node_exec_all sample_world sample_events sample_boot \<noteq> None"
  by code_simp

lemma sample_reach: "reach (node_init sample_world) (node_step sample_world) (sample_state k)"
  by (rule node_exec_all_reach [OF exec_prefix [OF sample_complete] reach_init [of "node_init sample_world", OF sample_started]])

lemma sample_rests: "k \<ge> 12 \<Longrightarrow> sample_state k = sample_state 12"
  by (simp add: exec_state_def sample_events_def)

lemma sample_run: "is_run (node_init sample_world) (node_step sample_world) sample_state sample_event"
proof (rule exec_run [OF sample_started sample_complete])
  show "sys_conns (sample_state (length sample_events)) 1 = None" by code_simp
qed

lemma sample_world_additive: "additive (w_lib sample_world) (\<lambda>k v. v)"
  by (simp add: sample_world_def sample_lib_additive)

end
