(* ===== verification/Channels.thy ===== *)
theory Channels
  imports System
begin

text \<open>
  The reply channels of the carbon intervals, in every reachable state and so for every
  interleaving: a channel is used once, and it is open whenever a worker answers on it.
\<close>

section \<open>Queues\<close>

lemma length_push [simp]: "length (push p slots) = length slots"
  by (simp add: push_def)

lemma push_all_simps [simp]: "push_all [] slots = slots" "push_all (p # ps) slots = push_all ps (push p slots)"
  by (simp_all add: push_all_def)

lemma length_push_all [simp]: "length (push_all ps slots) = length slots"
  by (induction ps arbitrary: slots) simp_all

lemma push_all_Nil_iff [simp]: "push_all ps slots = [] \<longleftrightarrow> slots = []"
  using length_push_all [of ps slots] by (metis length_0_conv)

lemma nth_push_all:
  "k < length slots \<Longrightarrow> push_all ps slots ! k =
    (slots ! k)\<lparr>sl_queue := sl_queue (slots ! k) @ map snd (filter (\<lambda>p. fst p = k) ps)\<rparr>"
proof (induction ps arbitrary: slots)
  case (Cons p ps)
  then show ?case by (simp add: push_def)
qed simp

lemma requests_for:
  "map snd (filter (\<lambda>p. fst p = k) (enumerate 0 xs)) = (if k < length xs then [xs ! k] else [])"
  by (induction xs rule: rev_induct) (auto simp: enumerate_append_eq nth_append)

section \<open>Requests and answers\<close>

text \<open>
  The reply channels of one kind of request to one worker: those answered, those still in the
  queue, and those of the requests that still wait. A channel is used once; a request in the
  queue is awaited, and one that is awaited is in the queue or answered.
\<close>

definition replies_ok :: "chan_id \<Rightarrow> chan_id list \<Rightarrow> chan_id list \<Rightarrow> chan_id list \<Rightarrow> bool" where
  "replies_ok fresh opens answered waiting \<longleftrightarrow>
    distinct (answered @ waiting) \<and> (\<forall>ch \<in> set (answered @ waiting). ch < fresh) \<and>
    distinct opens \<and> set waiting \<subseteq> set opens \<and> set opens \<subseteq> set (answered @ waiting)"

lemma replies_ok_mono:
  assumes "replies_ok fresh opens answered waiting" and "fresh \<le> fresh'"
    and chans: "answered' @ waiting' = answered @ waiting" and "set waiting' \<subseteq> set waiting"
  shows "replies_ok fresh' opens answered' waiting'"
  using assms(1,2,4) unfolding replies_ok_def chans by (meson less_le_trans order_trans)

lemma replies_ok_request:
  assumes ok: "replies_ok fresh opens answered waiting" and "fresh \<le> ch" and "ch < fresh'"
  shows "replies_ok fresh' (opens @ [ch]) answered (waiting @ [ch])"
proof -
  have "c < ch" if "c \<in> set answered \<union> set waiting" for c
    using ok that assms(2) unfolding replies_ok_def set_append by (meson less_le_trans)
  then have new: "ch \<notin> set answered" "ch \<notin> set waiting" "\<forall>c \<in> set answered \<union> set waiting. c < fresh'"
    using assms(3) by (blast intro: less_trans)+
  moreover have "ch \<notin> set opens" using ok new by (auto simp: replies_ok_def)
  ultimately show ?thesis using ok assms(3) by (auto simp: replies_ok_def)
qed

lemma replies_ok_closed:
  "replies_ok fresh opens answered waiting \<Longrightarrow> answered' = answered \<Longrightarrow> waiting' = waiting \<Longrightarrow>
    distinct opens' \<Longrightarrow> set opens' = set opens - {ch} \<Longrightarrow> ch \<in> set answered \<Longrightarrow> replies_ok fresh opens' answered' waiting'"
  by (auto simp: replies_ok_def)

text \<open>What the answers on the open channels of a log amount to.\<close>

definition log_total :: "(bytes \<Rightarrow> 'm \<Rightarrow> 'c::comm_monoid_add) \<Rightarrow> chan_id set \<Rightarrow> (chan_id \<times> 'm cache) list \<Rightarrow> 'c" where
  "log_total \<mu> opens lg = entries_total \<mu> (concat (map snd (filter (\<lambda>p. fst p \<in> opens) lg)))"

lemma log_total_simps [simp]:
  "log_total \<mu> opens [] = 0"
  "log_total \<mu> opens (p # lg) = (if fst p \<in> opens then entries_total \<mu> (snd p) else 0) + log_total \<mu> opens lg"
  "log_total \<mu> opens (lg @ lg2) = log_total \<mu> opens lg + log_total \<mu> opens lg2"
  by (simp_all add: log_total_def)

lemma log_total_empty [simp]: "log_total \<mu> {} lg = 0"
  by (induction lg) simp_all

lemma log_total_open: "ch \<notin> fst ` set lg \<Longrightarrow> log_total \<mu> (insert ch opens) lg = log_total \<mu> opens lg"
  by (induction lg) auto

lemma log_total_close:
  "distinct (map fst lg) \<Longrightarrow> ch \<notin> opens \<Longrightarrow> map_of lg ch = Some m \<Longrightarrow>
    log_total \<mu> (insert ch opens) lg = log_total \<mu> opens lg + entries_total \<mu> m"
proof (induction lg)
  case (Cons p lg)
  then show ?case
    by (cases "fst p = ch") (auto simp: log_total_open ac_simps split: if_splits)
qed simp

section \<open>What the operations leave alone\<close>

lemma sys_start_interval [simp]:
  "length (sys_slots (start_interval W s)) = length (sys_slots s)"
  "sys_fresh (start_interval W s) = sys_fresh s + 1 + length (sys_slots s)"
  "sys_rounds (start_interval W s) = sys_rounds s" "sys_batches (start_interval W s) = sys_batches s"
  "sys_discarded (start_interval W s) = sys_discarded s" "sys_inflow (start_interval W s) = sys_inflow s"
  "sys_intervals (start_interval W s) = sys_intervals s @
     [\<lparr>iv_options = tick_options (metrics (w_cfg W)) (sys_lead s), iv_tx = sys_fresh s,
       iv_replies = [sys_fresh s + 1..<sys_fresh s + 1 + length (sys_slots s)], iv_phase = Rotating\<rparr>]"
  by (simp_all add: start_interval_def Let_def del: upt_Suc)

lemma sys_start_round [simp]:
  "length (sys_slots (start_round s)) = length (sys_slots s)" "sys_intervals (start_round s) = sys_intervals s"
  "sys_fresh (start_round s) = sys_fresh s + length (sys_slots s)" "sys_batches (start_round s) = sys_batches s"
  "sys_discarded (start_round s) = sys_discarded s" "sys_inflow (start_round s) = sys_inflow s"
  by (simp_all add: start_round_def Let_def)

lemma sys_end_round [simp]:
  "sys_slots (end_round W replies s) = sys_slots s" "sys_intervals (end_round W replies s) = sys_intervals s"
  "sys_fresh (end_round W replies s) = sys_fresh s" "sys_batches (end_round W replies s) = sys_batches s"
  "sys_discarded (end_round W replies s) = sys_discarded s" "sys_inflow (end_round W replies s) = sys_inflow s"
  by (simp_all add: end_round_def split: prod.split sum.split)

lemma sys_collect [simp]:
  "sys_slots (collect_interval W iv acc msgs s) = sys_slots s" "sys_fresh (collect_interval W iv acc msgs s) = sys_fresh s"
  "sys_intervals (collect_interval W iv acc msgs s) = without iv (sys_intervals s)"
  "sys_rounds (collect_interval W iv acc msgs s) = sys_rounds s" "sys_senders (collect_interval W iv acc msgs s) = sys_senders s"
  "sys_inflow (collect_interval W iv acc msgs s) = sys_inflow s"
  by (simp_all add: collect_interval_def Let_def split: sum.split)

lemma carbon_split_panics:
  "case carbon_split cfg vals of Inl p \<Rightarrow> length vals < effective_chunks cfg | Inr parts \<Rightarrow> effective_chunks cfg \<le> length vals"
  using effective_chunks_pos [of cfg]
  by (auto simp: carbon_split_def slice_chunks_def Let_def div_greater_zero_iff not_le div_eq_0_iff)

text \<open>The end of an interval: its batch is passed on or lost, depending on the number of its values.\<close>

lemma collect_interval_cases [case_names passed lost]:
  obtains b where "bt_options b = iv_options iv" "bt_tx b = iv_tx iv" "bt_cache b = acc"
      "bt_values b = backend_values (iv_tx iv) (msgs @ sys_outbox s)"
      "effective_chunks (carbon (w_cfg W)) \<le> length (bt_values b)"
      "sys_batches (collect_interval W iv acc msgs s) = sys_batches s @ [b]"
      "sys_lost (collect_interval W iv acc msgs s) = sys_lost s"
      "sys_discarded (collect_interval W iv acc msgs s) = sys_discarded s"
  | b where "bt_options b = iv_options iv" "bt_tx b = iv_tx iv" "bt_cache b = acc"
      "bt_values b = backend_values (iv_tx iv) (msgs @ sys_outbox s)"
      "length (bt_values b) < effective_chunks (carbon (w_cfg W))"
      "sys_batches (collect_interval W iv acc msgs s) = sys_batches s"
      "sys_lost (collect_interval W iv acc msgs s) = sys_lost s @ [b]"
      "sys_discarded (collect_interval W iv acc msgs s) = sys_discarded s @ acc"
proof -
  let ?vals = "backend_values (iv_tx iv) (msgs @ sys_outbox s)"
  let ?b = "\<lparr>bt_options = iv_options iv, bt_tx = iv_tx iv, bt_cache = acc, bt_values = ?vals\<rparr>"
  show thesis
  proof (cases "carbon_split (carbon (w_cfg W)) ?vals")
    case (Inr parts)
    with carbon_split_panics [where cfg = "carbon (w_cfg W)" and vals = ?vals] show thesis
      by (intro that(1) [of ?b]) (simp_all add: collect_interval_def Let_def del: backend_values_append)
  next
    case (Inl p)
    with carbon_split_panics [where cfg = "carbon (w_cfg W)" and vals = ?vals] show thesis
      by (intro that(2) [of ?b]) (simp_all add: collect_interval_def Let_def del: backend_values_append)
  qed
qed

section \<open>Channels of rotations\<close>

definition rot_of :: "'m task \<Rightarrow> chan_id list" where
  "rot_of t = (case t of Rotate ch \<Rightarrow> [ch] | _ \<Rightarrow> [])"

definition rot_pending :: "'m slot \<Rightarrow> chan_id list" where
  "rot_pending sl = concat (map rot_of (sl_queue sl))"

definition rot_answered :: "'m slot \<Rightarrow> chan_id list" where
  "rot_answered sl = map fst (rotation_log (outbox (sl_worker sl)))"

definition open_replies :: "'m system \<Rightarrow> nat \<Rightarrow> chan_id list" where
  "open_replies s k = map (\<lambda>iv. iv_replies iv ! k) (filter rotating (sys_intervals s))"

lemma rot_of_simps [simp]:
  "rot_of (Rotate ch) = [ch]" "ordinary t \<Longrightarrow> rot_of t = []" "rot_of (TakeSnapshot ch) = []" "rot_of (Aggregate d) = []"
  by (cases t; simp add: rot_of_def)+


text \<open>What a worker does to the channels: a rotation moves one from the queue to the answers.\<close>

lemma rotation_log_run:
  "rotation_log (outbox (run lib alive t w)) = rotation_log (outbox w) @
    (case t of Rotate ch \<Rightarrow> if alive ch then [(ch, long (runner w))] else [] | _ \<Rightarrow> [])"
  by (cases t) (auto simp: run_effects rotation_log_def case_prod_unfold comp_def)

lemma slot_work:
  assumes "k < length (sys_slots s)" and "j < length (sys_slots s)"
  shows "sys_slots (work W k s) ! j =
    (if j = k then \<lparr>sl_queue = tl (sl_queue (sys_slots s ! k)),
       sl_worker = run (w_lib W) (sys_alive s) (hd (sl_queue (sys_slots s ! k))) ((sl_worker (sys_slots s ! k))\<lparr>stats := sys_stats s\<rparr>),
       sl_done = sl_done (sys_slots s ! k) @ [hd (sl_queue (sys_slots s ! k))]\<rparr>
     else sys_slots s ! j)"
  using assms by (simp add: work_def Let_def)

lemma sys_work [simp]:
  "length (sys_slots (work W k s)) = length (sys_slots s)" "sys_intervals (work W k s) = sys_intervals s"
  "sys_rounds (work W k s) = sys_rounds s" "sys_fresh (work W k s) = sys_fresh s" "sys_batches (work W k s) = sys_batches s"
  "sys_discarded (work W k s) = sys_discarded s" "sys_senders (work W k s) = sys_senders s"
  by (simp_all add: work_def Let_def)

text \<open>How an interval goes on: the caches are dropped, or dispatched on the leader.\<close>

lemma interval_answers_order:
  assumes "mset order = mset [0..<length slots]" and "length (iv_replies iv) = length slots"
  shows "mset (map (\<lambda>i. interval_answers iv slots ! i) order) = mset (interval_answers iv slots)"
  using assms by (intro map_nth_order) (simp add: interval_answers_def)

lemma answers_present:
  assumes "None \<notin> set (interval_answers iv slots)" and "mset order = mset [0..<length slots]" and "length (iv_replies iv) = length slots"
  shows "None \<notin> set (map (\<lambda>i. interval_answers iv slots ! i) order)"
  using assms(1) mset_eq_setD [OF interval_answers_order [OF assms(2,3)]] by simp

lemma aggregate_interval_kinds [case_names gone dispatched]:
  assumes "None \<notin> set (map (\<lambda>i. interval_answers iv (sys_slots s) ! i) order)"
  obtains c where "aggregate_interval W iv order s = s\<lparr>sys_stats := c, sys_intervals := without iv (sys_intervals s),
      sys_discarded := sys_discarded s @ arrived (map (\<lambda>i. interval_answers iv (sys_slots s) ! i) order)\<rparr>"
  | c st acc where "is_leader (iv_options iv)"
      "acc = fold (put_metric (w_lib W)) (arrived (map (\<lambda>i. interval_answers iv (sys_slots s) ! i) order)) []"
      "dispatch (w_lib W) \<lparr>env_alive = sys_alive s, env_accepts = (\<lambda>i. True), env_pool_ok = w_pool_ok W\<rparr>
        (iv_options iv) (iv_tx iv) (length (sys_slots s)) acc \<lparr>agg_stats = c, agg_sent = [], agg_queued = []\<rparr> = Inr st"
      "aggregate_interval W iv order s = s\<lparr>sys_stats := agg_stats st, sys_slots := push_all (agg_queued st) (sys_slots s),
        sys_intervals := map (\<lambda>v. if iv_tx v = iv_tx iv then v\<lparr>iv_phase := Collecting acc (agg_sent st)\<rparr> else v) (sys_intervals s)\<rparr>"
proof -
  let ?rs = "map (\<lambda>i. interval_answers iv (sys_slots s) ! i) order"
  let ?env = "\<lparr>env_alive = sys_alive s, env_accepts = (\<lambda>i. True), env_pool_ok = w_pool_ok W\<rparr>"
  obtain c where acc: "accumulate (w_lib W) ?rs ([], sys_stats s) = (Some (fold (put_metric (w_lib W)) (arrived ?rs) []), c)"
    using fst_accumulate [of "w_lib W" ?rs "([], sys_stats s)"] assms by (cases "accumulate (w_lib W) ?rs ([], sys_stats s)") auto
  show thesis
  proof (cases "is_leader (iv_options iv)")
    case False
    with that(1) [of "sys_stats s"] show thesis by (simp add: aggregate_interval_def aggregator_def Let_def)
  next
    case True
    show thesis
    proof (cases "dispatch (w_lib W) ?env (iv_options iv) (iv_tx iv) (length (sys_slots s)) (fold (put_metric (w_lib W)) (arrived ?rs) [])
        \<lparr>agg_stats = c, agg_sent = [], agg_queued = []\<rparr>")
      case (Inl p)
      with True acc that(1) [of "sys_stats s"] show thesis by (simp add: aggregate_interval_def aggregator_def Let_def)
    next
      case (Inr st)
      with True acc that(2) [OF True refl Inr] show thesis by (simp add: aggregate_interval_def aggregator_def Let_def)
    qed
  qed
qed

lemma agg_queued_aggregate_queued:
  "agg_queued (aggregate_queued env opts tx n x st) = agg_queued st @
    (if env_accepts env (fst x mod n) then [(fst x mod n, Aggregate (task_data opts tx (snd x)))] else [])"
  by (cases x) (simp add: aggregate_queued_def Let_def)

lemma fold_agg_queued:
  "agg_queued (fold (aggregate_queued env opts tx n) xs st) = agg_queued st @
    concat (map (\<lambda>x. if env_accepts env (fst x mod n) then [(fst x mod n, Aggregate (task_data opts tx (snd x)))] else []) xs)"
  by (induction xs arbitrary: st) (simp_all add: agg_queued_aggregate_queued)

lemma dispatch_queued:
  assumes "dispatch lib env opts tx n acc st = Inr st'" and "agg_queued st = []" and "p \<in> set (agg_queued st')"
  shows "fst p < n \<and> (\<exists>e. snd p = Aggregate (task_data opts tx e))"
  using assms by (auto simp: dispatch_def fold_aggregate_here_queued fold_agg_queued split: aggregation_mode.splits if_splits)
    blast

lemma aggregator_queued:
  assumes "aggregator lib env opts tx n rs st = Inr (res, st')" and "agg_queued st = []" and "p \<in> set (agg_queued st')"
  shows "\<exists>d. snd p = Aggregate d \<and> ad_response d = tx"
proof -
  have "\<exists>e. snd p = Aggregate (task_data opts tx e)"
    using assms dispatch_queued [of lib env opts tx n _ "st\<lparr>agg_stats := c\<rparr>" st' p for c]
    by (auto simp: aggregator_def map_sum_def split: if_splits prod.splits option.splits sum.splits)
  then show ?thesis by (auto simp: task_data_def case_prod_unfold)
qed

lemma aggregate_interval_slots:
  "\<exists>ps. sys_slots (aggregate_interval W iv order s) = push_all ps (sys_slots s) \<and>
    (\<forall>p \<in> set ps. \<exists>d. snd p = Aggregate d \<and> ad_response d = iv_tx iv)"
proof -
  let ?agg = "aggregator (w_lib W) \<lparr>env_alive = sys_alive s, env_accepts = (\<lambda>i. True), env_pool_ok = w_pool_ok W\<rparr>
    (iv_options iv) (iv_tx iv) (length (sys_slots s)) (map (\<lambda>i. interval_answers iv (sys_slots s) ! i) order)
    \<lparr>agg_stats = sys_stats s, agg_sent = [], agg_queued = []\<rparr>"
  show ?thesis
  proof (cases "is_leader (iv_options iv) \<and> (\<exists>res st. ?agg = Inr (res, st))")
    case True
    then obtain res st where agg: "?agg = Inr (res, st)" by blast
    have "\<exists>d. snd p = Aggregate d \<and> ad_response d = iv_tx iv" if "p \<in> set (agg_queued st)" for p
      by (rule aggregator_queued [OF agg _ that]) simp
    with agg True show ?thesis by (intro exI [of _ "agg_queued st"]) (simp add: aggregate_interval_def Let_def)
  next
    case False
    then show ?thesis
      by (intro exI [of _ "[]"]) (auto simp: aggregate_interval_def Let_def split: sum.split prod.split)
  qed
qed

lemma snapshot_requests: "p \<in> set (take_snapshots replies) \<Longrightarrow> \<exists>ch. snd p = TakeSnapshot ch"
  by (auto simp: take_snapshots_def in_set_enumerate_eq) (metis)

lemma rotation_requests: "p \<in> set (rotate_requests replies) \<Longrightarrow> \<exists>ch. snd p = Rotate ch"
  by (auto simp: rotate_requests_def in_set_enumerate_eq) (metis)

text \<open>Which event queues which task. Every step but that of a worker only adds to the queues.\<close>

definition queued_by :: "'w event \<Rightarrow> 'm task \<Rightarrow> bool" where
  "queued_by e t =
    (case t of
       Parse a b \<Rightarrow> from_network e
     | TakeSnapshot ch \<Rightarrow> e = SnapshotTimer
     | Rotate ch \<Rightarrow> e = CarbonTimer
     | Aggregate d \<Rightarrow> e = Rotated_all (ad_response d)
     | AddSnapshot kvs \<Rightarrow> (case e of PeerMessage c msg \<Rightarrow> True | _ \<Rightarrow> False)
     | _ \<Rightarrow> True)"

lemma step_slots:
  assumes "node_step W e s s'"
  shows "(\<exists>k. e = Work k \<and> k < length (sys_slots s) \<and> sl_queue (sys_slots s ! k) \<noteq> [] \<and> s' = work W k s) \<or>
    ((\<forall>k. e \<noteq> Work k) \<and> (\<exists>ps. sys_slots s' = push_all ps (sys_slots s) \<and> (\<forall>p \<in> set ps. queued_by e (snd p))))"
  using assms
proof (cases rule: node_step_kinds)
  case (quiet ps)
  have "queued_by e (snd p)" if "p \<in> set ps" for p
    using quiet(1,13,14) that by (cases "snd p"; cases e) (fastforce simp: queued_by_def)+
  with quiet show ?thesis by blast
next
  case round_start
  then show ?thesis by (auto simp: start_round_def Let_def queued_by_def dest!: snapshot_requests)
next
  case (round_end replies)
  then show ?thesis by (auto intro: exI [of _ "[]"])
next
  case interval_start
  then show ?thesis by (auto simp: start_interval_def Let_def queued_by_def simp del: upt_Suc dest!: rotation_requests)
next
  case (aggregate iv order)
  obtain ps where ps: "sys_slots s' = push_all ps (sys_slots s)" "\<forall>p \<in> set ps. \<exists>d. snd p = Aggregate d \<and> ad_response d = iv_tx iv"
    using aggregate_interval_slots [of W iv order s] aggregate(6) by blast
  then have "queued_by e (snd p)" if "p \<in> set ps" for p using that aggregate(1) by (force simp: queued_by_def)
  with ps(1) aggregate(1) show ?thesis by auto
next
  case (collect iv acc msgs)
  then show ?thesis by (auto intro: exI [of _ "[]"])
qed auto

section \<open>Channels\<close>

text \<open>
  Every rotation request has its own reply channel, which is awaited by the interval that asked
  for the rotation.
\<close>

definition slot_channels :: "'m slot \<Rightarrow> chan_id list" where
  "slot_channels sl = rot_answered sl @ rot_pending sl"

definition slot_ok :: "chan_id \<Rightarrow> chan_id list \<Rightarrow> 'm slot \<Rightarrow> bool" where
  "slot_ok fresh opens sl \<longleftrightarrow> replies_ok fresh opens (rot_answered sl) (rot_pending sl)"

definition intervals_ok :: "'m system \<Rightarrow> bool" where
  "intervals_ok s \<longleftrightarrow> distinct (map iv_tx (sys_intervals s)) \<and>
    (\<forall>iv \<in> set (sys_intervals s). length (iv_replies iv) = length (sys_slots s) \<and> iv_tx iv < sys_fresh s)"

definition channels_ok :: "'m system \<Rightarrow> bool" where
  "channels_ok s \<longleftrightarrow> intervals_ok s \<and>
    (\<forall>k < length (sys_slots s). slot_ok (sys_fresh s) (open_replies s k) (sys_slots s ! k))"

lemma slot_ok_mono:
  "slot_ok fresh opens sl \<Longrightarrow> fresh \<le> fresh' \<Longrightarrow> slot_channels sl' = slot_channels sl \<Longrightarrow>
    set (rot_pending sl') \<subseteq> set (rot_pending sl) \<Longrightarrow> slot_ok fresh' opens sl'"
  unfolding slot_ok_def slot_channels_def by (rule replies_ok_mono)

lemma slot_channels_push:
  assumes "k < length slots" and "\<And>p. p \<in> set ps \<Longrightarrow> rot_of (snd p) = []"
  shows "slot_channels (push_all ps slots ! k) = slot_channels (slots ! k)"
    and "rot_pending (push_all ps slots ! k) = rot_pending (slots ! k)"
    and "rot_answered (push_all ps slots ! k) = rot_answered (slots ! k)"
  using assms by (auto simp: slot_channels_def nth_push_all rot_pending_def rot_answered_def)

lemma channels_ok_push:
  assumes "channels_ok s" and "sys_slots s' = push_all ps (sys_slots s)" and "\<And>p. p \<in> set ps \<Longrightarrow> rot_of (snd p) = []"
    and "sys_intervals s' = sys_intervals s" and "sys_fresh s \<le> sys_fresh s'"
  shows "channels_ok s'"
proof -
  have "slot_ok (sys_fresh s') (open_replies s' k) (sys_slots s' ! k)" if "k < length (sys_slots s)" for k
  proof (rule slot_ok_mono)
    show "slot_ok (sys_fresh s) (open_replies s' k) (sys_slots s ! k)"
      using assms(1,4) that by (simp add: channels_ok_def open_replies_def)
  qed (simp_all add: assms(2,5) slot_channels_push [OF that assms(3)])
  with assms show ?thesis by (auto simp: channels_ok_def intervals_ok_def)
qed

lemma open_reply_alive:
  "intervals_ok s \<Longrightarrow> k < length (sys_slots s) \<Longrightarrow> ch \<in> set (open_replies s k) \<Longrightarrow> sys_alive s ch"
  by (fastforce simp: open_replies_def sys_alive_def list_ex_iff intervals_ok_def)

lemma rotate_alive:
  assumes "channels_ok s" and "k < length (sys_slots s)" and "Rotate ch \<in> set (sl_queue (sys_slots s ! k))"
  shows "sys_alive s ch"
proof -
  have "ch \<in> set (rot_pending (sys_slots s ! k))" using assms(3) by (force simp: rot_pending_def)
  with assms show ?thesis by (intro open_reply_alive [of s k]) (auto simp: channels_ok_def slot_ok_def replies_ok_def)
qed

lemma slot_channels_work:
  assumes "channels_ok s" and "k < length (sys_slots s)" and "sl_queue (sys_slots s ! k) \<noteq> []" and "j < length (sys_slots s)"
  shows "slot_channels (sys_slots (work W k s) ! j) = slot_channels (sys_slots s ! j) \<and>
    set (rot_pending (sys_slots (work W k s) ! j)) \<subseteq> set (rot_pending (sys_slots s ! j))"
proof -
  obtain t q where q: "sl_queue (sys_slots s ! k) = t # q" using assms(3) by (cases "sl_queue (sys_slots s ! k)") auto
  have "sys_alive s ch" if "t = Rotate ch" for ch
    using assms(1,2) that by (intro rotate_alive [of s k]) (simp_all add: q)
  then have "rotation_log (outbox (run (w_lib W) (sys_alive s) t w)) = rotation_log (outbox w) @ map (\<lambda>ch. (ch, long (runner w))) (rot_of t)" for w
    by (cases t) (simp_all add: rotation_log_run rot_of_def)
  then show ?thesis
    using assms(2,4) by (simp add: slot_work slot_channels_def rot_answered_def rot_pending_def q comp_def)
qed

lemma channels_ok_work:
  assumes "channels_ok s" and "k < length (sys_slots s)" and "sl_queue (sys_slots s ! k) \<noteq> []"
  shows "channels_ok (work W k s)"
proof -
  have "slot_ok (sys_fresh s) (open_replies s j) (sys_slots (work W k s) ! j)" if "j < length (sys_slots s)" for j
  proof (rule slot_ok_mono)
    show "slot_ok (sys_fresh s) (open_replies s j) (sys_slots s ! j)" using assms(1) that by (simp add: channels_ok_def)
  qed (use slot_channels_work [OF assms that, of W] in simp_all)
  with assms(1) show ?thesis by (simp add: channels_ok_def intervals_ok_def open_replies_def)
qed

lemma slot_ok_request:
  assumes "slot_ok fresh opens sl" and "fresh \<le> ch" and "ch < fresh'"
  shows "slot_ok fresh' (opens @ [ch]) (sl\<lparr>sl_queue := sl_queue sl @ [Rotate ch]\<rparr>)"
  using replies_ok_request [OF assms [unfolded slot_ok_def]] by (simp add: slot_ok_def rot_answered_def rot_pending_def)

lemma slot_start_interval:
  assumes "k < length (sys_slots s)"
  shows "sys_slots (start_interval W s) ! k =
    (sys_slots s ! k)\<lparr>sl_queue := sl_queue (sys_slots s ! k) @ [Rotate (sys_fresh s + 1 + k)]\<rparr>"
  using assms by (simp add: start_interval_def Let_def nth_push_all rotate_requests_def requests_for del: upt_Suc)

lemma open_replies_start_interval:
  "k < length (sys_slots s) \<Longrightarrow> open_replies (start_interval W s) k = open_replies s k @ [sys_fresh s + 1 + k]"
  by (simp add: open_replies_def del: upt_Suc)

lemma channels_ok_start_interval:
  assumes "channels_ok s"
  shows "channels_ok (start_interval W s)"
proof -
  have "slot_ok (sys_fresh (start_interval W s)) (open_replies (start_interval W s) k) (sys_slots (start_interval W s) ! k)"
    if k: "k < length (sys_slots s)" for k
  proof -
    have "slot_ok (sys_fresh s) (open_replies s k) (sys_slots s ! k)" using assms k by (simp add: channels_ok_def)
    then have "slot_ok (sys_fresh s + 1 + length (sys_slots s)) (open_replies s k @ [sys_fresh s + 1 + k])
        ((sys_slots s ! k)\<lparr>sl_queue := sl_queue (sys_slots s ! k) @ [Rotate (sys_fresh s + 1 + k)]\<rparr>)"
      by (rule slot_ok_request) (simp_all add: k)
    then show ?thesis using k by (simp add: slot_start_interval open_replies_start_interval)
  qed
  moreover have "intervals_ok (start_interval W s)"
    using assms by (fastforce simp: channels_ok_def intervals_ok_def simp del: upt_Suc)
  ultimately show ?thesis by (simp add: channels_ok_def)
qed

text \<open>An interval that no longer waits: its channels are answered and leave the open ones.\<close>

lemma slot_ok_answered:
  "slot_ok fresh opens sl \<Longrightarrow> slot_channels sl' = slot_channels sl \<Longrightarrow> rot_pending sl' = rot_pending sl \<Longrightarrow>
    distinct opens' \<Longrightarrow> set opens' = set opens - {ch} \<Longrightarrow> ch \<in> set (rot_answered sl) \<Longrightarrow> slot_ok fresh opens' sl'"
  unfolding slot_ok_def by (rule replies_ok_closed) (simp_all add: slot_channels_def)

lemma answered_channel:
  assumes "None \<notin> set (interval_answers iv slots)" and "k < length slots" and "length (iv_replies iv) = length slots"
  shows "iv_replies iv ! k \<in> set (rot_answered (slots ! k))"
proof -
  have "interval_answers iv slots ! k \<in> set (interval_answers iv slots)"
    using assms(2,3) by (intro nth_mem) (simp add: interval_answers_def)
  moreover have "interval_answers iv slots ! k = rotation_answer (iv_replies iv ! k) (outbox (sl_worker (slots ! k)))"
    using assms(2,3) by (simp add: interval_answers_def)
  ultimately have "rotation_answer (iv_replies iv ! k) (outbox (sl_worker (slots ! k))) \<noteq> None"
    using assms(1) by metis
  then show ?thesis unfolding rotation_answer_def rot_answered_def map_of_eq_None_iff by simp
qed

lemma without_rotating:
  assumes "distinct (map iv_tx ivs)" and "iv \<in> set ivs" and "rotating iv" and "distinct (map f (filter rotating ivs))"
  shows "distinct (map f (filter rotating (without iv ivs)))"
    and "set (map f (filter rotating (without iv ivs))) = set (map f (filter rotating ivs)) - {f iv}"
proof -
  have *: "filter rotating (without iv ivs) = filter (\<lambda>v. iv_tx v \<noteq> iv_tx iv) (filter rotating ivs)"
    by (simp add: conj_commute)
  show "distinct (map f (filter rotating (without iv ivs)))"
    unfolding * using assms(4) by (rule distinct_map_filter)
  have "iv_tx v = iv_tx iv \<longleftrightarrow> v = iv" if "v \<in> set ivs" for v
    using assms(1,2) that by (auto simp: distinct_map inj_on_def)
  moreover have "f v = f iv \<longleftrightarrow> v = iv" if "v \<in> set ivs" "rotating v" for v
    using assms(2-4) that by (auto simp: distinct_map inj_on_def)
  ultimately show "set (map f (filter rotating (without iv ivs))) = set (map f (filter rotating ivs)) - {f iv}"
    by auto
qed

lemma interval_if_simps [simp]:
  "iv_tx (if b then v\<lparr>iv_phase := ph\<rparr> else v) = iv_tx v"
  "iv_replies (if b then v\<lparr>iv_phase := ph\<rparr> else v) = iv_replies v"
  "iv_options (if b then v\<lparr>iv_phase := ph\<rparr> else v) = iv_options v"
  by simp_all

lemma filter_rotating_collecting:
  "filter rotating (map (\<lambda>v. if iv_tx v = iv_tx iv then v\<lparr>iv_phase := Collecting acc msgs\<rparr> else v) ivs) =
    filter rotating (without iv ivs)"
  by (induction ivs) auto

lemma channels_ok_closed:
  assumes ok: "channels_ok s" and iv: "iv \<in> set (sys_intervals s)" "rotating iv"
    and answered: "None \<notin> set (interval_answers iv (sys_slots s))"
    and slots: "sys_slots s' = push_all ps (sys_slots s)" "\<And>p. p \<in> set ps \<Longrightarrow> rot_of (snd p) = []"
    and ivs: "filter rotating (sys_intervals s') = filter rotating (without iv (sys_intervals s))" "intervals_ok s'"
    and fresh: "sys_fresh s' = sys_fresh s"
  shows "channels_ok s'"
proof -
  have "slot_ok (sys_fresh s') (open_replies s' k) (sys_slots s' ! k)" if k: "k < length (sys_slots s)" for k
  proof -
    have ok_k: "slot_ok (sys_fresh s) (open_replies s k) (sys_slots s ! k)" using ok k by (simp add: channels_ok_def)
    have txs: "distinct (map iv_tx (sys_intervals s))" "length (iv_replies iv) = length (sys_slots s)"
      using ok iv(1) by (auto simp: channels_ok_def intervals_ok_def)
    have opens: "distinct (open_replies s' k)" "set (open_replies s' k) = set (open_replies s k) - {iv_replies iv ! k}"
      using without_rotating [OF txs(1) iv, of "\<lambda>v. iv_replies v ! k"] ok_k
      by (simp_all add: slot_ok_def replies_ok_def open_replies_def ivs(1))
    show ?thesis
      unfolding slots(1) fresh
      by (rule slot_ok_answered [OF ok_k slot_channels_push(1,2) [OF k slots(2)] opens answered_channel [OF answered k txs(2)]])
  qed
  with ivs(2) slots(1) show ?thesis by (simp add: channels_ok_def)
qed

lemma channels_ok_aggregate:
  assumes "channels_ok s" and "iv \<in> set (sys_intervals s)" and "rotating iv"
    and "None \<notin> set (interval_answers iv (sys_slots s))" and "mset order = mset [0..<length (sys_slots s)]"
  shows "channels_ok (aggregate_interval W iv order s)"
proof -
  have ok: "intervals_ok s" "length (iv_replies iv) = length (sys_slots s)"
    using assms(1,2) by (auto simp: channels_ok_def intervals_ok_def)
  from answers_present [OF assms(4,5) ok(2)] show ?thesis
  proof (cases rule: aggregate_interval_kinds [where W = W])
    case (gone c)
    show ?thesis
      by (rule channels_ok_closed [OF assms(1-4), of _ "[]"])
        (use ok(1) in \<open>auto simp: gone intervals_ok_def distinct_map_filter\<close>)
  next
    case (dispatched c st acc)
    have "rot_of (snd p) = []" if "p \<in> set (agg_queued st)" for p
      using dispatch_queued [OF dispatched(3) _ that] by auto
    note no_rot = this
    show ?thesis
      by (rule channels_ok_closed [OF assms(1-4), of _ "agg_queued st"])
        (use ok(1) no_rot in \<open>auto simp: dispatched(4) intervals_ok_def filter_rotating_collecting comp_def\<close>)
  qed
qed

lemma snapshot_requests_rot: "p \<in> set (take_snapshots replies) \<Longrightarrow> rot_of (snd p) = []"
  using snapshot_requests [of p replies] by auto

lemma without_collecting:
  assumes "distinct (map iv_tx ivs)" and "iv \<in> set ivs" and "\<not> rotating iv"
  shows "filter rotating (without iv ivs) = filter rotating ivs"
proof -
  have "iv_tx v \<noteq> iv_tx iv" if "v \<in> set ivs" "rotating v" for v
    using assms that by (auto simp: distinct_map inj_on_def)
  then show ?thesis by (auto intro!: filter_cong)
qed

lemma channels_ok_step:
  assumes "channels_ok s" and "node_step W e s s'"
  shows "channels_ok s'"
  using assms(2)
proof (cases rule: node_step_kinds)
  case (quiet ps)
  show ?thesis by (rule channels_ok_push [OF assms(1) quiet(2)]) (use quiet in auto)
next
  case (work k)
  with assms(1) show ?thesis by (simp add: channels_ok_work)
next
  case round_start
  show ?thesis
    unfolding round_start(2)
    by (rule channels_ok_push [OF assms(1), of _ "take_snapshots [sys_fresh s..<sys_fresh s + length (sys_slots s)]"])
      (simp_all add: start_round_def Let_def snapshot_requests_rot)
next
  case (round_end replies)
  show ?thesis by (rule channels_ok_push [OF assms(1), of _ "[]"]) (use round_end in auto)
next
  case interval_start
  with assms(1) show ?thesis by (simp add: channels_ok_start_interval)
next
  case (aggregate iv order)
  with assms(1) show ?thesis by (simp add: channels_ok_aggregate)
next
  case (collect iv acc msgs)
  have "distinct (map iv_tx (sys_intervals s))" using assms(1) by (simp add: channels_ok_def intervals_ok_def)
  from without_collecting [OF this collect(2)] collect(3) assms(1) show ?thesis
    unfolding collect(5)
    by (auto simp: channels_ok_def intervals_ok_def open_replies_def distinct_map_filter)
qed

lemma boot_slots:
  assumes "node_init W s" and "sl \<in> set (sys_slots s)"
  shows "sl = boot_slot (worker_new (w_cfg W))"
  using assms by (auto simp: node_init_def node_start_def boot_def start_workers_def Let_def split: if_splits)

lemma channels_ok_init:
  assumes "node_init W s"
  shows "channels_ok s"
proof -
  have "slot_ok 0 [] (sys_slots s ! k)" if "k < length (sys_slots s)" for k
    unfolding boot_slots [OF assms nth_mem [OF that]]
    by (simp add: slot_ok_def replies_ok_def rot_answered_def rot_pending_def boot_slot_def worker_new_def)
  moreover have "sys_intervals s = []" "sys_fresh s = 0" using assms by (auto simp: node_init_def boot_def)
  ultimately show ?thesis by (simp add: channels_ok_def intervals_ok_def open_replies_def)
qed

interpretation channels: invariant "node_init W" "node_step W" channels_ok for W
  by unfold_locales (rule channels_ok_init, assumption, rule channels_ok_step)

end
