(* ===== verification/Batches.thy ===== *)
theory Batches
  imports Channels
begin

text \<open>
  What a leader passes on to carbon in an interval, in every interleaving: exactly the values of the cache that it accumulated. In the common mode
  the values are computed by the workers between their other tasks; the interval ends when no
  task that could send another value is left.
\<close>

section \<open>Values\<close>

text \<open>The values that a queued task will send on a channel.\<close>

definition task_values :: "'m metric_lib \<Rightarrow> chan_id \<Rightarrow> 'm task \<Rightarrow> (bytes \<times> f64) list" where
  "task_values lib tx t = (case t of Aggregate d \<Rightarrow> if ad_response d = tx then aggregate_values lib d else [] | _ \<Rightarrow> [])"

definition slot_values :: "'m metric_lib \<Rightarrow> chan_id \<Rightarrow> 'm slot \<Rightarrow> (bytes \<times> f64) list" where
  "slot_values lib tx sl = backend_values tx (outbox (sl_worker sl)) @ concat (map (task_values lib tx) (sl_queue sl))"

definition all_values :: "'m metric_lib \<Rightarrow> chan_id \<Rightarrow> 'm system \<Rightarrow> (bytes \<times> f64) multiset" where
  "all_values lib tx s = (\<Sum>k<length (sys_slots s). mset (slot_values lib tx (sys_slots s ! k)))"

text \<open>A channel of values on which nothing has been sent and nothing is going to be.\<close>

definition silent :: "chan_id \<Rightarrow> 'm slot \<Rightarrow> bool" where
  "silent tx sl \<longleftrightarrow> (\<forall>msg \<in> set (outbox (sl_worker sl)). \<not> for_backend tx msg) \<and> (\<forall>t \<in> set (sl_queue sl). \<not> values_for tx t)"

definition interval_values_ok :: "'m metric_lib \<Rightarrow> 'm system \<Rightarrow> 'm interval \<Rightarrow> bool" where
  "interval_values_ok lib s iv \<longleftrightarrow>
    (case iv_phase iv of
       Rotating \<Rightarrow> \<forall>sl \<in> set (sys_slots s). silent (iv_tx iv) sl
     | Collecting acc msgs \<Rightarrow> is_leader (iv_options iv) \<and>
         mset (backend_values (iv_tx iv) msgs) + all_values lib (iv_tx iv) s = mset (entry_values lib (iv_options iv) (iv_tx iv) acc))"

definition batch_ok :: "'m metric_lib \<Rightarrow> 'm batch \<Rightarrow> bool" where
  "batch_ok lib b \<longleftrightarrow> mset (bt_values b) = mset (entry_values lib (bt_options b) (bt_tx b) (bt_cache b)) \<and>
    distinct (map fst (bt_cache b))"

definition values_ok :: "'m metric_lib \<Rightarrow> 'm system \<Rightarrow> bool" where
  "values_ok lib s \<longleftrightarrow>
    (\<forall>iv \<in> set (sys_intervals s). interval_values_ok lib s iv \<and> distinct (map fst (phase_cache (iv_phase iv)))) \<and>
    (\<forall>sl \<in> set (sys_slots s). \<forall>tx \<ge> sys_fresh s. silent tx sl) \<and>
    (\<forall>sl \<in> set (sys_slots s). \<forall>d. Aggregate d \<in> set (sl_queue sl) \<longrightarrow>
       (\<exists>iv \<in> set (sys_intervals s). \<not> rotating iv \<and> iv_tx iv = ad_response d)) \<and>
    (\<forall>b \<in> set (sys_batches s). batch_ok lib b)"

lemma task_values_simps [simp]:
  "ordinary t \<Longrightarrow> task_values lib tx t = []" "task_values lib tx (Rotate ch) = []" "task_values lib tx (TakeSnapshot ch) = []"
  "task_values lib tx (Aggregate d) = (if ad_response d = tx then aggregate_values lib d else [])"
  by (cases t; simp add: task_values_def)+

lemma values_for_simps [simp]:
  "ordinary t \<Longrightarrow> \<not> values_for tx t" "\<not> values_for tx (Rotate ch)" "\<not> values_for tx (TakeSnapshot ch)"
  "values_for tx (Aggregate d) \<longleftrightarrow> ad_response d = tx"
  by (cases t; simp add: values_for_def)+

lemma task_values_none: "\<not> values_for tx t \<Longrightarrow> task_values lib tx t = []"
  by (cases t) (simp_all add: task_values_def values_for_def)

lemma backend_values_sent:
  "backend_values tx (map (\<lambda>(name, value). Aggregated ch name value) kvs) = (if ch = tx then kvs else [])"
  by (induction kvs) (auto simp: backend_values_def for_backend_def message_value_def)

lemma backend_values_answers [simp]: "backend_values tx [Snapshot ch m] = []" "backend_values tx [Rotated ch m] = []"
  by (simp_all add: backend_values_def for_backend_def)

text \<open>Running a task turns the values it will send into values that it sent.\<close>

lemma backend_values_run:
  assumes "\<And>d. t = Aggregate d \<Longrightarrow> alive (ad_response d)"
  shows "backend_values tx (outbox (run lib alive t w)) = backend_values tx (outbox w) @ task_values lib tx t"
  using assms by (cases t) (simp_all add: run_effects backend_values_sent)

lemma for_backend_run:
  "msg \<in> set (outbox (run lib alive t w)) \<Longrightarrow> for_backend tx msg \<Longrightarrow> msg \<in> set (outbox w) \<or> values_for tx t"
  by (cases t) (auto simp: run_effects for_backend_def split: if_splits)

lemma slot_values_push:
  "k < length slots \<Longrightarrow> slot_values lib tx (push_all ps slots ! k) = slot_values lib tx (slots ! k) @
    concat (map (task_values lib tx) (map snd (filter (\<lambda>p. fst p = k) ps)))"
  by (simp add: slot_values_def nth_push_all)

lemma all_values_push:
  assumes "\<forall>p \<in> set ps. fst p < length (sys_slots s)"
  shows "all_values lib tx (s\<lparr>sys_slots := push_all ps (sys_slots s)\<rparr>) =
    all_values lib tx s + mset (concat (map (\<lambda>p. task_values lib tx (snd p)) ps))"
proof -
  have "(\<Sum>k<n. mset (concat (map (\<lambda>p. task_values lib tx (snd p)) (filter (\<lambda>p. fst p = k) ps)))) =
      mset (concat (map (\<lambda>p. task_values lib tx (snd p)) ps))" if "\<forall>p \<in> set ps. fst p < n" for n
    using that
  proof (induction ps)
    case (Cons p ps)
    have "(\<Sum>k<n. mset (concat (map (\<lambda>p. task_values lib tx (snd p)) (filter (\<lambda>p. fst p = k) (p # ps))))) =
        (\<Sum>k<n. (if k = fst p then mset (task_values lib tx (snd p)) else {#}) +
          mset (concat (map (\<lambda>p. task_values lib tx (snd p)) (filter (\<lambda>p. fst p = k) ps))))"
      by (intro sum.cong) (auto simp del: mset_concat)
    also have "\<dots> = mset (task_values lib tx (snd p)) + mset (concat (map (\<lambda>p. task_values lib tx (snd p)) ps))"
      using Cons by (simp add: sum.distrib del: mset_concat)
    finally show ?case by (simp del: mset_concat)
  qed simp
  from this [OF assms] show ?thesis
    by (simp add: all_values_def slot_values_push sum.distrib comp_def del: mset_concat)
qed

lemma silent_push:
  assumes "k < length slots" and "silent tx (slots ! k)" and "\<And>p. p \<in> set ps \<Longrightarrow> \<not> values_for tx (snd p)"
  shows "silent tx (push_all ps slots ! k)"
  using assms by (auto simp: silent_def nth_push_all)

lemma silent_values: "silent tx sl \<Longrightarrow> slot_values lib tx sl = []"
  by (auto simp: silent_def slot_values_def task_values_none backend_values_none)

lemma set_push_all:
  "sl \<in> set (push_all ps slots) \<Longrightarrow> \<exists>k < length slots. sl = push_all ps slots ! k"
  by (metis in_set_conv_nth length_push_all)

lemma push_no_values:
  assumes "sys_slots s' = push_all ps (sys_slots s)" and "\<And>p. p \<in> set ps \<Longrightarrow> \<not> values_for tx (snd p)"
  shows "all_values lib tx s' = all_values lib tx s"
    and "(\<forall>sl \<in> set (sys_slots s). silent tx sl) \<Longrightarrow> sl' \<in> set (sys_slots s') \<Longrightarrow> silent tx sl'"
proof -
  have none: "concat (map (task_values lib tx) (map snd (filter P ps))) = []" for P
    using assms(2) by (auto simp: task_values_none)
  have "slot_values lib tx (push_all ps (sys_slots s) ! k) = slot_values lib tx (sys_slots s ! k)" if "k < length (sys_slots s)" for k
    unfolding slot_values_push [OF that] none by simp
  then show "all_values lib tx s' = all_values lib tx s"
    by (simp add: all_values_def assms(1))
  show "silent tx sl'" if "\<forall>sl \<in> set (sys_slots s). silent tx sl" "sl' \<in> set (sys_slots s')"
    using that assms silent_push [of _ "sys_slots s" tx ps] set_push_all [of sl' ps "sys_slots s"] by fastforce
qed

lemma queue_push:
  "sl \<in> set (push_all ps slots) \<Longrightarrow> t \<in> set (sl_queue sl) \<Longrightarrow>
    (\<exists>sl' \<in> set slots. t \<in> set (sl_queue sl')) \<or> (\<exists>p \<in> set ps. snd p = t)"
  by (frule set_push_all) (force simp: nth_push_all)

lemma interval_values_push:
  assumes "interval_values_ok lib s iv" and "sys_slots s' = push_all ps (sys_slots s)"
    and "\<And>p. p \<in> set ps \<Longrightarrow> \<not> values_for (iv_tx iv) (snd p)"
  shows "interval_values_ok lib s' iv"
  using assms(1) push_no_values [OF assms(2), of "iv_tx iv"] assms(3)
  by (simp add: interval_values_ok_def split: phase.splits)

lemma values_ok_push:
  assumes ok: "values_ok lib s" and slots: "sys_slots s' = push_all ps (sys_slots s)"
    and none: "\<And>p tx. p \<in> set ps \<Longrightarrow> \<not> values_for tx (snd p)"
    and same: "sys_intervals s' = sys_intervals s" "sys_fresh s \<le> sys_fresh s'" "sys_batches s' = sys_batches s"
  shows "values_ok lib s'"
proof -
  have "interval_values_ok lib s' iv" if "iv \<in> set (sys_intervals s)" for iv
    using ok that by (intro interval_values_push [OF _ slots none]) (auto simp: values_ok_def)
  moreover have "silent tx sl" if "sys_fresh s' \<le> tx" "sl \<in> set (sys_slots s')" for tx sl
    using ok that same(2) by (intro push_no_values(2) [OF slots none]) (auto simp: values_ok_def)
  moreover have "\<exists>iv \<in> set (sys_intervals s). \<not> rotating iv \<and> iv_tx iv = ad_response d"
    if "sl \<in> set (sys_slots s')" "Aggregate d \<in> set (sl_queue sl)" for sl d
  proof -
    have "\<not> (\<exists>p \<in> set ps. snd p = Aggregate d)" using none by (metis values_for_simps(4))
    with queue_push [of sl ps "sys_slots s" "Aggregate d"] that slots ok show ?thesis by (auto simp: values_ok_def)
  qed
  ultimately show ?thesis using ok by (simp add: values_ok_def same)
qed

lemma values_ok_aggregate:
  "values_ok lib s \<Longrightarrow> sl \<in> set (sys_slots s) \<Longrightarrow> Aggregate d \<in> set (sl_queue sl) \<Longrightarrow>
    \<exists>iv \<in> set (sys_intervals s). \<not> rotating iv \<and> iv_tx iv = ad_response d"
  unfolding values_ok_def by blast

lemma values_alive:
  assumes "values_ok lib s" and "sl \<in> set (sys_slots s)" and "Aggregate d \<in> set (sl_queue sl)"
  shows "sys_alive s (ad_response d)"
proof -
  obtain iv where iv: "iv \<in> set (sys_intervals s)" "\<not> rotating iv" "iv_tx iv = ad_response d"
    using values_ok_aggregate [OF assms] by blast
  then have "is_leader (iv_options iv)"
    using assms(1) by (cases "iv_phase iv") (auto simp: values_ok_def interval_values_ok_def)
  with iv show ?thesis by (auto simp: sys_alive_def list_ex_iff)
qed

lemma silent_run:
  assumes "silent tx sl" and "sl_queue sl = t # q" and "outbox w = outbox (sl_worker sl)"
  shows "silent tx \<lparr>sl_queue = q, sl_worker = run lib alive t w, sl_done = d\<rparr>"
proof -
  have "\<not> for_backend tx msg" if "msg \<in> set (outbox (run lib alive t w))" for msg
    using for_backend_run [OF that, of tx] assms by (auto simp: silent_def)
  with assms(1,2) show ?thesis by (simp add: silent_def)
qed

lemma work_slot_values:
  assumes "values_ok lib s" and "lib = w_lib W" and "k < length (sys_slots s)" and "sl_queue (sys_slots s ! k) \<noteq> []"
    and "j < length (sys_slots s)"
  shows "slot_values lib tx (sys_slots (work W k s) ! j) = slot_values lib tx (sys_slots s ! j)"
    and "silent tx (sys_slots s ! j) \<Longrightarrow> silent tx (sys_slots (work W k s) ! j)"
    and "set (sl_queue (sys_slots (work W k s) ! j)) \<subseteq> set (sl_queue (sys_slots s ! j))"
proof -
  obtain t q where q: "sl_queue (sys_slots s ! k) = t # q" using assms(4) by (cases "sl_queue (sys_slots s ! k)") auto
  have "sys_alive s (ad_response d)" if "t = Aggregate d" for d
    using values_alive [OF assms(1) nth_mem [OF assms(3)], of d] that by (simp add: q)
  then show "slot_values lib tx (sys_slots (work W k s) ! j) = slot_values lib tx (sys_slots s ! j)"
    using assms(3,5) by (simp add: slot_work slot_values_def q backend_values_run assms(2))
  show "silent tx (sys_slots (work W k s) ! j)" if "silent tx (sys_slots s ! j)"
    using assms(3,5) that silent_run [of tx "sys_slots s ! k" t q]
    by (cases "j = k") (simp_all add: slot_work q)
  show "set (sl_queue (sys_slots (work W k s) ! j)) \<subseteq> set (sl_queue (sys_slots s ! j))"
    using assms(3,5) by (auto simp: slot_work q)
qed

lemma values_ok_work:
  assumes "values_ok lib s" and "lib = w_lib W" and "k < length (sys_slots s)" and "sl_queue (sys_slots s ! k) \<noteq> []"
  shows "values_ok lib (work W k s)"
proof -
  note keep = work_slot_values [OF assms]
  have vals: "all_values lib tx (work W k s) = all_values lib tx s" for tx
    by (simp add: all_values_def keep(1))
  have slots: "\<exists>j<length (sys_slots s). sl = sys_slots (work W k s) ! j \<and> sys_slots s ! j \<in> set (sys_slots s)"
    if "sl \<in> set (sys_slots (work W k s))" for sl
    using that by (metis in_set_conv_nth nth_mem sys_work(1))
  have silent: "silent tx sl" if "\<forall>sl \<in> set (sys_slots s). silent tx sl" "sl \<in> set (sys_slots (work W k s))" for tx sl
    using slots [OF that(2)] that(1) keep(2) by blast
  have "interval_values_ok lib (work W k s) iv" if "iv \<in> set (sys_intervals s)" for iv
    using assms(1) that vals silent by (auto simp: values_ok_def interval_values_ok_def split: phase.splits)
  moreover have "\<exists>iv \<in> set (sys_intervals s). \<not> rotating iv \<and> iv_tx iv = ad_response d"
    if sl: "sl \<in> set (sys_slots (work W k s))" and d: "Aggregate d \<in> set (sl_queue sl)" for sl d
    using slots [OF sl] keep(3) d values_ok_aggregate [OF assms(1)] by blast
  moreover have "silent tx sl" if "sys_fresh s \<le> tx" "sl \<in> set (sys_slots (work W k s))" for tx sl
    using assms(1) that by (intro silent) (simp_all add: values_ok_def)
  ultimately show ?thesis using assms(1) by (simp add: values_ok_def)
qed

text \<open>What the dispatcher queues and sends are the values of the accumulated cache.\<close>

lemma dispatch_values:
  assumes "dispatch lib env opts tx n acc st = Inr st'" and "agg_sent st = []" and "agg_queued st = []"
    and "env_alive env tx" and "\<And>i. env_accepts env i"
  shows "mset (backend_values tx (agg_sent st')) + mset (concat (map (\<lambda>p. task_values lib tx (snd p)) (agg_queued st')))
    = mset (entry_values lib opts tx acc)"
proof -
  have resp: "ad_response (task_data opts tx e) = tx" for e :: "bytes \<times> 'a" by (cases e) (simp add: task_data_def)
  have "concat (map (\<lambda>x. task_values lib tx (snd (fst x mod n, Aggregate (task_data opts tx (snd x))))) xs) =
      entry_values lib opts tx (map snd xs)" for xs :: "(nat \<times> bytes \<times> 'a) list"
    by (induction xs) (simp_all add: resp)
  note queued = this [of "enumerate 0 acc"]
  have "concat (map (\<lambda>x. [f x]) xs) = map f xs" for f :: "nat \<times> bytes \<times> 'a \<Rightarrow> nat \<times> 'a task" and xs by (induction xs) simp_all
  then have common: "concat (map (\<lambda>p. task_values lib tx (snd p)) (agg_queued (fold (aggregate_queued env opts tx n) (enumerate 0 acc) st)))
      = entry_values lib opts tx acc"
    using queued by (simp add: fold_agg_queued assms(3,5) comp_def)
  show ?thesis
  proof (cases "agg_mode opts")
    case Single
    with assms show ?thesis
      by (auto simp: dispatch_def fold_aggregate_here_queued backend_values_here simp del: mset_concat)
  next
    case Separate
    with assms show ?thesis
      by (auto simp: dispatch_def fold_aggregate_here_queued backend_values_here simp del: mset_concat split: if_splits)
  next
    case Common
    with assms(1,2) common show ?thesis
      by (auto simp: dispatch_def fold_aggregate_queued_sent simp del: mset_concat split: if_splits)
  qed
qed

lemma values_ok_start_interval:
  assumes "values_ok lib s"
  shows "values_ok lib (start_interval W s)"
proof -
  let ?s = "(start_interval W s)\<lparr>sys_intervals := sys_intervals s\<rparr>"
  have none: "\<not> values_for tx (snd p)" if "p \<in> set (rotate_requests replies)" for p :: "nat \<times> 'a task" and tx replies
    using that by (auto simp: rotate_requests_def in_set_enumerate_eq) (metis values_for_simps(2))
  have ok: "values_ok lib ?s"
    by (rule values_ok_push [OF assms, of _ "rotate_requests [sys_fresh s + 1..<sys_fresh s + 1 + length (sys_slots s)]"])
      (simp_all add: none start_interval_def Let_def del: upt_Suc)
  have slots: "sys_slots (start_interval W s) = push_all (rotate_requests [sys_fresh s + 1..<sys_fresh s + 1 + length (sys_slots s)]) (sys_slots s)"
    by (simp add: start_interval_def Let_def del: upt_Suc)
  have "silent (sys_fresh s) sl" if "sl \<in> set (sys_slots (start_interval W s))" for sl
    using assms that by (intro push_no_values(2) [OF slots none]) (simp_all add: values_ok_def)
  moreover have "interval_values_ok lib (start_interval W s) iv = interval_values_ok lib ?s iv" for iv
    by (simp add: interval_values_ok_def all_values_def split: phase.split)
  ultimately show ?thesis
    using ok by (auto simp: values_ok_def interval_values_ok_def phase_cache_def simp del: upt_Suc)
qed

lemma interval_unique:
  "intervals_ok s \<Longrightarrow> iv \<in> set (sys_intervals s) \<Longrightarrow> v \<in> set (sys_intervals s) \<Longrightarrow> iv_tx v = iv_tx iv \<Longrightarrow> v = iv"
  by (auto simp: intervals_ok_def distinct_map inj_on_def)

lemma values_ok_without:
  assumes ok: "values_ok lib s" and slots: "sys_slots s' = sys_slots s" "sys_fresh s' = sys_fresh s"
    and ivs: "sys_intervals s' = without iv (sys_intervals s)"
    and none: "\<forall>sl \<in> set (sys_slots s). \<forall>t \<in> set (sl_queue sl). \<not> values_for (iv_tx iv) t"
    and batches: "\<forall>b \<in> set (sys_batches s'). batch_ok lib b"
  shows "values_ok lib s'"
proof -
  have "interval_values_ok lib s' v = interval_values_ok lib s v" for v
    by (simp add: interval_values_ok_def all_values_def slots split: phase.split)
  moreover have "\<exists>v \<in> set (sys_intervals s'). \<not> rotating v \<and> iv_tx v = ad_response d"
    if sl: "sl \<in> set (sys_slots s)" and d: "Aggregate d \<in> set (sl_queue sl)" for sl d
  proof -
    have "ad_response d \<noteq> iv_tx iv" using none sl d by (metis values_for_simps(4))
    with values_ok_aggregate [OF ok sl d] show ?thesis by (auto simp: ivs)
  qed
  ultimately show ?thesis using ok batches by (simp add: values_ok_def slots ivs)
qed

lemma values_ok_dispatched:
  assumes ok: "values_ok lib s" and ivok: "intervals_ok s" and iv: "iv \<in> set (sys_intervals s)" "rotating iv" "is_leader (iv_options iv)"
    and acc: "distinct (map fst acc)"
    and vals: "mset (backend_values (iv_tx iv) msgs) + mset (concat (map (\<lambda>p. task_values lib (iv_tx iv) (snd p)) ps))
      = mset (entry_values lib (iv_options iv) (iv_tx iv) acc)"
    and ps: "\<And>p. p \<in> set ps \<Longrightarrow> fst p < length (sys_slots s) \<and> (\<exists>d. snd p = Aggregate d \<and> ad_response d = iv_tx iv)"
    and s': "sys_slots s' = push_all ps (sys_slots s)" "sys_fresh s' = sys_fresh s" "sys_batches s' = sys_batches s"
      "sys_intervals s' = map (\<lambda>v. if iv_tx v = iv_tx iv then v\<lparr>iv_phase := Collecting acc msgs\<rparr> else v) (sys_intervals s)"
  shows "values_ok lib s'"
proof -
  have fresh: "iv_tx iv < sys_fresh s" using ivok iv(1) by (simp add: intervals_ok_def)
  have other: "\<not> values_for tx (snd p)" if "p \<in> set ps" "tx \<noteq> iv_tx iv" for p tx
    using ps [OF that(1)] that(2) by (auto simp: values_for_def)
  have silent_iv: "silent (iv_tx iv) sl" if "sl \<in> set (sys_slots s)" for sl
    using ok iv that by (auto simp: values_ok_def interval_values_ok_def)
  then have "all_values lib (iv_tx iv) s = {#}" by (simp add: all_values_def silent_values)
  moreover have "all_values lib (iv_tx iv) s' = all_values lib (iv_tx iv) (s\<lparr>sys_slots := push_all ps (sys_slots s)\<rparr>)"
    by (simp add: all_values_def s'(1))
  ultimately have new: "interval_values_ok lib s' (iv\<lparr>iv_phase := Collecting acc msgs\<rparr>)"
    using vals all_values_push [of ps s lib "iv_tx iv"] ps iv(3) by (simp add: interval_values_ok_def del: mset_concat)
  have old: "interval_values_ok lib s' v \<and> distinct (map fst (phase_cache (iv_phase v)))"
    if "v \<in> set (sys_intervals s)" "iv_tx v \<noteq> iv_tx iv" for v
    using ok that by (auto intro!: interval_values_push [OF _ s'(1) other] simp: values_ok_def)
  have "interval_values_ok lib s' v \<and> distinct (map fst (phase_cache (iv_phase v)))" if "v \<in> set (sys_intervals s')" for v
    using that new old acc interval_unique [OF ivok iv(1)] by (auto simp: s'(4) phase_cache_def split: if_splits)
  moreover have "silent tx sl" if "sys_fresh s \<le> tx" "sl \<in> set (sys_slots s')" for tx sl
    using ok fresh that by (intro push_no_values(2) [OF s'(1) other]) (auto simp: values_ok_def)
  moreover have "\<exists>v \<in> set (sys_intervals s'). \<not> rotating v \<and> iv_tx v = ad_response d"
    if sl: "sl \<in> set (sys_slots s')" and d: "Aggregate d \<in> set (sl_queue sl)" for sl d
  proof -
    have "(\<exists>v \<in> set (sys_intervals s). \<not> rotating v \<and> iv_tx v = ad_response d) \<or> ad_response d = iv_tx iv"
      using queue_push [OF sl [unfolded s'(1)] d] values_ok_aggregate [OF ok] ps by (metis task.inject(7))
    then obtain v where "v \<in> set (sys_intervals s)" "iv_tx v = ad_response d" "\<not> rotating v \<or> v = iv"
      using iv(1) by metis
    then show ?thesis
      by (intro bexI [of _ "if iv_tx v = iv_tx iv then v\<lparr>iv_phase := Collecting acc msgs\<rparr> else v"]) (auto simp: s'(4))
  qed
  ultimately show ?thesis using ok by (simp add: values_ok_def s'(2,3))
qed

lemma values_ok_aggregate_step:
  assumes ok: "values_ok (w_lib W) s" and ch: "channels_ok s"
    and iv: "iv \<in> set (sys_intervals s)" "rotating iv" "None \<notin> set (interval_answers iv (sys_slots s))"
    and order: "mset order = mset [0..<length (sys_slots s)]"
  shows "values_ok (w_lib W) (aggregate_interval W iv order s)"
proof -
  have ivok: "intervals_ok s" and len: "length (iv_replies iv) = length (sys_slots s)"
    using ch iv(1) by (auto simp: channels_ok_def intervals_ok_def)
  have silent: "\<forall>sl \<in> set (sys_slots s). silent (iv_tx iv) sl"
    using ok iv by (auto simp: values_ok_def interval_values_ok_def)
  from answers_present [OF iv(3) order len] show ?thesis
  proof (cases rule: aggregate_interval_kinds [where W = W])
    case (gone c)
    have "\<forall>sl \<in> set (sys_slots s). \<forall>t \<in> set (sl_queue sl). \<not> values_for (iv_tx iv) t" using silent by (simp add: silent_def)
    then show ?thesis
      by (rule values_ok_without [OF ok, rotated 3]) (use ok in \<open>simp_all add: gone values_ok_def\<close>)
  next
    case (dispatched c st acc)
    have alive: "sys_alive s (iv_tx iv)" using iv(1) dispatched(1) by (auto simp: sys_alive_def list_ex_iff)
    have vals: "mset (backend_values (iv_tx iv) (agg_sent st)) +
        mset (concat (map (\<lambda>p. task_values (w_lib W) (iv_tx iv) (snd p)) (agg_queued st))) =
      mset (entry_values (w_lib W) (iv_options iv) (iv_tx iv) acc)"
      by (rule dispatch_values [OF dispatched(3)]) (simp_all add: alive)
    have "distinct (map fst acc)"
      using hm_wf_put_metrics [of "[]"] unfolding dispatched(2) hm_wf_def hm_keys_def by simp
    moreover have "fst p < length (sys_slots s) \<and> (\<exists>d. snd p = Aggregate d \<and> ad_response d = iv_tx iv)"
      if "p \<in> set (agg_queued st)" for p
      using dispatch_queued [OF dispatched(3) _ that] by (auto simp: task_data_def case_prod_unfold)
    ultimately show ?thesis
      by (rule values_ok_dispatched [OF ok ivok iv(1,2) dispatched(1) _ vals]) (simp_all add: dispatched(4))
  qed
qed

lemma collected_values:
  assumes "values_ok lib s" and "iv \<in> set (sys_intervals s)" and "iv_phase iv = Collecting acc msgs"
    and "\<forall>sl \<in> set (sys_slots s). \<forall>t \<in> set (sl_queue sl). \<not> values_for (iv_tx iv) t"
  shows "mset (backend_values (iv_tx iv) (msgs @ sys_outbox s)) = mset (entry_values lib (iv_options iv) (iv_tx iv) acc)"
proof -
  have "slot_values lib (iv_tx iv) sl = backend_values (iv_tx iv) (outbox (sl_worker sl))" if "sl \<in> set (sys_slots s)" for sl
    using assms(4) that by (simp add: slot_values_def task_values_none)
  then have "all_values lib (iv_tx iv) s = (\<Sum>k<length (sys_slots s). mset (backend_values (iv_tx iv) (outbox (sl_worker (sys_slots s ! k)))))"
    by (simp add: all_values_def)
  moreover have "(\<Sum>k<length slots. mset (backend_values tx (outbox (sl_worker (slots ! k))))) =
      mset (backend_values tx (concat (map (\<lambda>sl. outbox (sl_worker sl)) slots)))" for slots :: "'a slot list" and tx
    by (induction slots) (simp_all add: sum.lessThan_Suc_shift del: sum.lessThan_Suc mset_concat)
  ultimately have "mset (backend_values (iv_tx iv) msgs) + mset (backend_values (iv_tx iv) (sys_outbox s)) =
      mset (entry_values lib (iv_options iv) (iv_tx iv) acc)"
    using assms(1-3) by (auto simp: values_ok_def interval_values_ok_def sys_outbox_def simp del: mset_concat)
  then show ?thesis by simp
qed

lemma values_ok_step:
  assumes ok: "values_ok (w_lib W) s" and ch: "channels_ok s"
    and step: "node_step W e s s'"
  shows "values_ok (w_lib W) s'"
  using step
proof (cases rule: node_step_kinds)
  case (quiet ps)
  show ?thesis by (rule values_ok_push [OF ok quiet(2)]) (use quiet in auto)
next
  case (work k)
  with values_ok_work [OF ok refl] show ?thesis by simp
next
  case round_start
  show ?thesis
    by (rule values_ok_push [OF ok, of _ "take_snapshots [sys_fresh s..<sys_fresh s + length (sys_slots s)]"])
      (use snapshot_requests in \<open>fastforce simp: round_start start_round_def Let_def\<close>)+
next
  case (round_end replies)
  show ?thesis by (rule values_ok_push [OF ok, of _ "[]"]) (simp_all add: round_end)
next
  case interval_start
  with values_ok_start_interval [OF ok] show ?thesis by simp
next
  case (aggregate iv order)
  with values_ok_aggregate_step [OF ok ch aggregate(2-5)] show ?thesis by simp
next
  case (collect iv acc msgs)
  have "distinct (map fst acc)" using ok collect(2,3) by (auto simp: values_ok_def phase_cache_def)
  with collected_values [OF ok collect(2-4)] ok
  have "\<forall>b \<in> set (sys_batches s'). batch_ok (w_lib W) b"
    unfolding collect(5)
    by (cases rule: collect_interval_cases [where W = W and iv = iv and acc = acc and msgs = msgs and s = s])
      (auto simp: batch_ok_def values_ok_def simp del: mset_concat backend_values_append)
  then show ?thesis by (rule values_ok_without [OF ok _ _ _ collect(4), rotated 3]) (simp_all add: collect(5))
qed

lemma values_ok_init: "node_init W s \<Longrightarrow> values_ok lib s"
proof -
  assume init: "node_init W s"
  have "sys_intervals s = []" "sys_batches s = []" using init by (auto simp: node_init_def boot_def)
  moreover have "sl_queue sl = [] \<and> outbox (sl_worker sl) = []" if "sl \<in> set (sys_slots s)" for sl
    unfolding boot_slots [OF init that] by (simp add: boot_slot_def worker_new_def)
  ultimately show ?thesis by (simp add: values_ok_def silent_def)
qed

interpretation vals: invariant "node_init W" "node_step W" "values_ok (w_lib W)" for W
  by unfold_locales (rule values_ok_init, assumption, rule values_ok_step [OF _ channels.reach_inv])

section \<open>Properties\<close>

text \<open>
  Every answer that a worker owes is awaited. As long as a rotation or a computation of
  values is in the queue of a worker, the interval that asked for it is open and holds the
  receiving end of its channel, so the worker never runs into the error branch that loses it.
\<close>

lemma answers_are_awaited:
  assumes "reach (node_init W) (node_step W) s" and "sl \<in> set (sys_slots s)"
  shows "(\<forall>ch. Rotate ch \<in> set (sl_queue sl) \<longrightarrow> sys_alive s ch) \<and>
    (\<forall>d. Aggregate d \<in> set (sl_queue sl) \<longrightarrow> sys_alive s (ad_response d))"
proof -
  obtain k where k: "k < length (sys_slots s)" "sl = sys_slots s ! k" using assms(2) by (auto simp: in_set_conv_nth)
  show ?thesis
    using rotate_alive [OF channels.reach_inv [OF assms(1)] k(1)] values_alive [OF vals.reach_inv [OF assms(1)] assms(2)] k(2)
    by auto
qed

text \<open>
  C10. What goes to carbon is what was aggregated. Every batch that an interval has passed on,
  in any reachable state, consists of exactly the values of its cache, each as often as it is
  computed, and the cache has every name once: no value of another interval, none missing and
  none twice, although the values are computed by other threads meanwhile.
\<close>

theorem batches_are_complete:
  assumes "reach (node_init W) (node_step W) s" and "b \<in> set (sys_batches s)"
  shows "mset (bt_values b) = mset (concat (map (\<lambda>e. aggregate_values (w_lib W) (task_data (bt_options b) (bt_tx b) e)) (bt_cache b))) \<and>
    distinct (map fst (bt_cache b))"
  using vals.reach_inv [OF assms(1)] assms(2) by (simp add: values_ok_def batch_ok_def)

theorem batches_are_complete_witness:
  "\<exists>b \<in> set (sys_batches (sample_state 12)). length (bt_cache b) = 2 \<and> distinct (map fst (bt_cache b)) \<and>
    mset (map fst (bt_values b)) = {#''a'', ''cpu''#}"
proof -
  let ?b = "hd (sys_batches (sample_state 12))"
  have "length (sys_batches (sample_state 12)) = 1 \<and> length (bt_cache ?b) = 2 \<and> map fst (bt_values ?b) = [''a'', ''cpu'']"
    by code_simp
  moreover from this have b: "?b \<in> set (sys_batches (sample_state 12))" by (metis One_nat_def length_0_conv list.set_sel(1) zero_neq_one)
  ultimately show ?thesis
    using batches_are_complete [OF sample_reach [of 12] b] by (intro bexI [OF _ b]) simp
qed

end
