(* ===== verification/Liveness.thy ===== *)
theory Liveness
  imports Batches
begin

text \<open>
  Progress. In a run of the node in which no worker and no interval is neglected forever,
  every queued task is executed, and every carbon interval of a leader ends with its batch,
  whatever else happens in between.
\<close>

section \<open>History\<close>

text \<open>Everything that was ever put into a queue, in order: a step only adds to its end.\<close>

definition hist :: "'m slot \<Rightarrow> 'm task list" where
  "hist sl = sl_done sl @ sl_queue sl"

definition grows :: "'m slot \<Rightarrow> 'm slot \<Rightarrow> bool" where
  "grows sl sl' \<longleftrightarrow> (\<exists>ts. hist sl' = hist sl @ ts) \<and> length (sl_done sl) \<le> length (sl_done sl')"

lemma grows_refl [simp]: "grows sl sl"
  by (simp add: grows_def)

lemma grows_trans: "grows a b \<Longrightarrow> grows b c \<Longrightarrow> grows a c"
  by (auto simp: grows_def)

lemma grows_push: "k < length slots \<Longrightarrow> grows (slots ! k) (push_all ps slots ! k)"
  by (simp add: grows_def hist_def nth_push_all)

lemma length_slots_step: "node_step W e s s' \<Longrightarrow> length (sys_slots s') = length (sys_slots s)"
  using step_slots [of W e s s'] by auto

lemma step_grows:
  assumes "node_step W e s s'" and "k < length (sys_slots s)"
  shows "grows (sys_slots s ! k) (sys_slots s' ! k)"
  using step_slots [OF assms(1)]
proof (elim disjE exE conjE)
  fix j
  assume "j < length (sys_slots s)" "sl_queue (sys_slots s ! j) \<noteq> []" "s' = work W j s"
  with assms(2) show ?thesis by (cases "k = j") (auto simp: slot_work grows_def hist_def)
qed (use assms(2) grows_push in auto)

section \<open>Workers go on\<close>

definition workers_fair :: "(nat \<Rightarrow> 'm system) \<Rightarrow> (nat \<Rightarrow> 'w event) \<Rightarrow> bool" where
  "workers_fair \<sigma> \<epsilon> \<longleftrightarrow> (\<forall>k. weakly_fair (\<lambda>s. k < length (sys_slots s) \<and> sl_queue (sys_slots s ! k) \<noteq> []) (\<lambda>e. e = Work k) \<sigma> \<epsilon>)"

abbreviation node_run :: "('w, 'r, 'm) world \<Rightarrow> (nat \<Rightarrow> 'm system) \<Rightarrow> (nat \<Rightarrow> 'w event) \<Rightarrow> bool" where
  "node_run W \<equiv> is_run (node_init W) (node_step W)"

lemma run_grows:
  assumes "node_run W \<sigma> \<epsilon>" and "i \<le> j" and "k < length (sys_slots (\<sigma> i))"
  shows "grows (sys_slots (\<sigma> i) ! k) (sys_slots (\<sigma> j) ! k) \<and> length (sys_slots (\<sigma> j)) = length (sys_slots (\<sigma> i))"
  using assms(2)
proof (induction rule: dec_induct)
  case base
  show ?case by simp
next
  case (step m)
  with step_grows [OF run_step [OF assms(1)], of k m] length_slots_step [OF run_step [OF assms(1)], of m] assms(3)
  show ?case by (auto intro: grows_trans)
qed

lemma task_executed:
  assumes run: "node_run W \<sigma> \<epsilon>" and fair: "workers_fair \<sigma> \<epsilon>"
    and k: "k < length (sys_slots (\<sigma> i))" and d: "d < length (hist (sys_slots (\<sigma> i) ! k))"
  shows "\<exists>j\<ge>i. d < length (sl_done (sys_slots (\<sigma> j) ! k))"
proof -
  let ?P = "\<lambda>n s. k < length (sys_slots s) \<and> d < length (hist (sys_slots s ! k)) \<and> d < length (sl_done (sys_slots s ! k)) + n"
  let ?Q = "\<lambda>s. d < length (sl_done (sys_slots s ! k))"
  have stage: "\<exists>j\<ge>i. ?Q (\<sigma> j) \<or> (\<exists>m<n. ?P m (\<sigma> j))" if "?P n (\<sigma> i)" for n i
  proof (cases "?Q (\<sigma> i)")
    case True
    then show ?thesis by blast
  next
    case False
    let ?P' = "\<lambda>s. ?P n s \<and> \<not> ?Q s" and ?Q' = "\<lambda>s. ?Q s \<or> (\<exists>m<n. ?P m s)"
    have keep: "?P' s' \<or> ?Q' s'" if "?P' s" "node_step W e s s'" for e s s'
      using that step_grows [of W e s s' k] length_slots_step [OF that(2)] by (auto simp: grows_def)
    have acts: "?Q' s'" if "?P' s" "node_step W e s s'" "e = Work k" for e s s'
    proof -
      have s': "s' = work W k s" using step_slots [OF that(2)] that(3) by auto
      have "length (sl_done (sys_slots s' ! k)) = Suc (length (sl_done (sys_slots s ! k)))"
        using that(1) by (simp add: s' slot_work)
      moreover have "k < length (sys_slots s')" "d < length (hist (sys_slots s' ! k))"
        using that(1) step_grows [OF that(2), of k] length_slots_step [OF that(2)] by (auto simp: grows_def)
      moreover have "0 < n" using that(1) by (cases n) auto
      ultimately show ?thesis using that(1) by (intro disjI2 exI [of _ "n - 1"]) auto
    qed
    have "\<exists>j\<ge>i. ?Q' (\<sigma> j)"
    proof (rule weak_fairness_rule [OF run])
      show "weakly_fair (\<lambda>s. k < length (sys_slots s) \<and> sl_queue (sys_slots s ! k) \<noteq> []) (\<lambda>e. e = Work k) \<sigma> \<epsilon>"
        using fair by (simp add: workers_fair_def)
      show "?P' (\<sigma> i)" using that False by blast
      show "k < length (sys_slots s) \<and> sl_queue (sys_slots s ! k) \<noteq> []" if "?P' s" for s
        using that by (auto simp: hist_def)
    qed (use keep acts in blast)+
    then show ?thesis .
  qed
  have "?P (Suc d) (\<sigma> i)" using k d by simp
  from progress_by_rank [where P = ?P and Q = ?Q and \<sigma> = \<sigma>, OF stage this] show ?thesis .
qed

lemma all_executed:
  assumes "node_run W \<sigma> \<epsilon>" and "workers_fair \<sigma> \<epsilon>"
  shows "\<exists>j\<ge>i. \<forall>k<length (sys_slots (\<sigma> i)). length (hist (sys_slots (\<sigma> i) ! k)) \<le> length (sl_done (sys_slots (\<sigma> j) ! k))"
proof -
  have "\<exists>j\<ge>i. \<forall>k<m. length (hist (sys_slots (\<sigma> i) ! k)) \<le> length (sl_done (sys_slots (\<sigma> j) ! k))"
    if "m \<le> length (sys_slots (\<sigma> i))" for m
    using that
  proof (induction m)
    case (Suc m)
    then obtain j where j: "i \<le> j" "\<forall>k<m. length (hist (sys_slots (\<sigma> i) ! k)) \<le> length (sl_done (sys_slots (\<sigma> j) ! k))"
      by auto
    let ?n = "length (hist (sys_slots (\<sigma> i) ! m))"
    have m: "m < length (sys_slots (\<sigma> i))" using Suc.prems by simp
    obtain j' where j': "j \<le> j'" "?n \<le> length (sl_done (sys_slots (\<sigma> j') ! m))"
    proof (cases ?n)
      case 0
      with that [of j] show thesis by simp
    next
      case (Suc d)
      have "d < length (hist (sys_slots (\<sigma> j) ! m))"
        using run_grows [OF assms(1) j(1) m] Suc by (auto simp: grows_def)
      from task_executed [OF assms _ this] run_grows [OF assms(1) j(1) m] m Suc that show thesis
        by (metis Suc_leI)
    qed
    have "length (hist (sys_slots (\<sigma> i) ! k)) \<le> length (sl_done (sys_slots (\<sigma> j') ! k))" if "k < Suc m" for k
    proof (cases "k = m")
      case False
      with that have km: "k < m" by simp
      then have "length (sl_done (sys_slots (\<sigma> j) ! k)) \<le> length (sl_done (sys_slots (\<sigma> j') ! k))"
        using run_grows [OF assms(1) j'(1), of k] run_grows [OF assms(1) j(1) m] m by (simp add: grows_def)
      with j(2) km show ?thesis by (meson le_trans)
    qed (use j' in simp)
    with j(1) j'(1) show ?case by (meson le_trans)
  qed auto
  then show ?thesis by blast
qed

section \<open>Intervals go on\<close>

text \<open>The rotations that a worker has executed are those that it has answered.\<close>

definition answered_ok :: "'m system \<Rightarrow> bool" where
  "answered_ok s \<longleftrightarrow> (\<forall>sl \<in> set (sys_slots s). concat (map rot_of (sl_done sl)) = rot_answered sl)"

lemma answered_ok_step:
  assumes "answered_ok s" and "channels_ok s" and "node_step W e s s'"
  shows "answered_ok s'"
proof -
  have old: "concat (map rot_of (sl_done (sys_slots s ! j))) = rot_answered (sys_slots s ! j)" if "j < length (sys_slots s)" for j
    using assms(1) that by (simp add: answered_ok_def)
  show ?thesis
    using step_slots [OF assms(3)]
  proof (elim disjE exE conjE)
    fix k
    assume k: "k < length (sys_slots s)" "sl_queue (sys_slots s ! k) \<noteq> []" and s': "s' = work W k s"
    obtain t q where q: "sl_queue (sys_slots s ! k) = t # q" using k(2) by (cases "sl_queue (sys_slots s ! k)") auto
    have "sys_alive s ch" if "t = Rotate ch" for ch
      using assms(2) k(1) that by (intro rotate_alive [of s k]) (simp_all add: q)
    then have log: "map fst (rotation_log (outbox (run (w_lib W) (sys_alive s) t w))) = map fst (rotation_log (outbox w)) @ rot_of t" for w
      by (cases t) (simp_all add: rotation_log_run rot_of_def)
    have "concat (map rot_of (sl_done (sys_slots s' ! j))) = rot_answered (sys_slots s' ! j)" if j: "j < length (sys_slots s)" for j
      using old [OF j] unfolding s' slot_work [OF k(1) j] by (cases "j = k") (simp_all add: q rot_answered_def log)
    then show ?thesis by (simp add: answered_ok_def all_set_conv_all_nth s')
  next
    fix ps
    assume "sys_slots s' = push_all ps (sys_slots s)"
    with old show ?thesis by (simp add: answered_ok_def all_set_conv_all_nth nth_push_all rot_answered_def)
  qed
qed

interpretation answered: invariant "node_init W" "node_step W" answered_ok for W
proof unfold_locales
  fix s
  assume init: "node_init W s"
  have "concat (map rot_of (sl_done sl)) = rot_answered sl" if "sl \<in> set (sys_slots s)" for sl
    unfolding boot_slots [OF init that] by (simp add: boot_slot_def worker_new_def rot_answered_def)
  then show "answered_ok s" by (simp add: answered_ok_def)
next
  fix s e s'
  assume reached: "reach (node_init W) (node_step W) s" and ok: "answered_ok s" and step: "node_step W e s s'"
  show "answered_ok s'" by (rule answered_ok_step [OF ok channels.reach_inv [OF reached] step])
qed

text \<open>An interval stays as it is until its own thread goes on.\<close>

lemma interval_step:
  assumes "node_step W e s s'" and "intervals_ok s" and "iv \<in> set (sys_intervals s)"
  shows "iv \<in> set (sys_intervals s') \<or>
    (\<exists>order. rotating iv \<and> e = Rotated_all (iv_tx iv) \<and> mset order = mset [0..<length (sys_slots s)] \<and>
      None \<notin> set (interval_answers iv (sys_slots s)) \<and> s' = aggregate_interval W iv order s) \<or>
    (\<exists>acc msgs. iv_phase iv = Collecting acc msgs \<and> e = Collected (iv_tx iv) \<and> s' = collect_interval W iv acc msgs s)"
  using assms(1)
proof (cases rule: node_step_kinds)
  case (aggregate v order)
  show ?thesis
  proof (cases "iv_tx v = iv_tx iv")
    case True
    with interval_unique [OF assms(2,3) aggregate(2)] aggregate show ?thesis by auto
  next
    case False
    with assms(3) have "iv \<in> set (sys_intervals (aggregate_interval W v order s))"
      by (force simp: aggregate_interval_def Let_def split: sum.splits prod.splits)
    with aggregate show ?thesis by simp
  qed
next
  case (collect v acc msgs)
  with interval_unique [OF assms(2,3) collect(2)] assms(3) show ?thesis by (cases "iv_tx v = iv_tx iv") auto
qed (use assms(3) in auto)

lemma leader_aggregates:
  assumes mode: "agg_mode (iv_options iv) \<noteq> Separate" and slots: "sys_slots s \<noteq> []" and ok: "intervals_ok s" and iv: "iv \<in> set (sys_intervals s)"
    and leader: "is_leader (iv_options iv)"
    and ans: "None \<notin> set (interval_answers iv (sys_slots s))" "mset order = mset [0..<length (sys_slots s)]"
  shows "\<exists>acc msgs. iv\<lparr>iv_phase := Collecting acc msgs\<rparr> \<in> set (sys_intervals (aggregate_interval W iv order s))"
proof -
  have len: "length (iv_replies iv) = length (sys_slots s)" using ok iv by (simp add: intervals_ok_def)
  let ?rs = "map (\<lambda>i. interval_answers iv (sys_slots s) ! i) order"
  let ?env = "\<lparr>env_alive = sys_alive s, env_accepts = (\<lambda>i. True), env_pool_ok = w_pool_ok W\<rparr>"
  obtain acc c where acc: "accumulate (w_lib W) ?rs ([], sys_stats s) = (Some acc, c)"
    using fst_accumulate [of "w_lib W" ?rs "([], sys_stats s)"] answers_present [OF ans len]
    by (cases "accumulate (w_lib W) ?rs ([], sys_stats s)") auto
  obtain st where "dispatch (w_lib W) ?env (iv_options iv) (iv_tx iv) (length (sys_slots s)) acc
      \<lparr>agg_stats = c, agg_sent = [], agg_queued = []\<rparr> = Inr st"
    using dispatch_ok [OF mode] slots by blast
  with acc leader iv have "iv\<lparr>iv_phase := Collecting acc (agg_sent st)\<rparr> \<in> set (sys_intervals (aggregate_interval W iv order s))"
    by (force simp: aggregate_interval_def aggregator_def Let_def)
  then show ?thesis by blast
qed

text \<open>The thread of a leader's interval ends without its values only in the separate mode.\<close>

lemma leader_gone:
  assumes leader: "is_leader (iv_options iv)" and slots: "sys_slots s \<noteq> []" and iv: "iv \<in> set (sys_intervals s)"
    and ans: "None \<notin> set (map (\<lambda>i. interval_answers iv (sys_slots s) ! i) order)" (is "None \<notin> set ?rs")
    and gone: "iv_tx iv \<notin> iv_tx ` set (sys_intervals (aggregate_interval W iv order s))"
  shows "agg_mode (iv_options iv) = Separate \<and> (w_pool_ok W (multi_threads (iv_options iv)) \<longrightarrow>
    (\<exists>x \<in> set (fold (put_metric (w_lib W)) (arrived ?rs) []). aggregate_values (w_lib W) (task_data (iv_options iv) (iv_tx iv) x) \<noteq> []))"
proof (rule ccontr)
  let ?acc = "fold (put_metric (w_lib W)) (arrived ?rs) []"
  let ?env = "\<lparr>env_alive = sys_alive s, env_accepts = (\<lambda>i. True), env_pool_ok = w_pool_ok W\<rparr>"
  obtain c where acc: "accumulate (w_lib W) ?rs ([], sys_stats s) = (Some ?acc, c)"
    using fst_accumulate [of "w_lib W" ?rs "([], sys_stats s)"] ans by (cases "accumulate (w_lib W) ?rs ([], sys_stats s)") auto
  assume "\<not> ?thesis"
  then obtain st where "dispatch (w_lib W) ?env (iv_options iv) (iv_tx iv) (length (sys_slots s)) ?acc
      \<lparr>agg_stats = c, agg_sent = [], agg_queued = []\<rparr> = Inr st"
    using dispatch_ok [where aopts = "iv_options iv"] slots
    by (cases "agg_mode (iv_options iv)") (auto simp: dispatch_def list_ex_iff)
  with acc leader iv have "iv\<lparr>iv_phase := Collecting ?acc (agg_sent st)\<rparr> \<in> set (sys_intervals (aggregate_interval W iv order s))"
    by (force simp: aggregate_interval_def aggregator_def Let_def)
  from imageI [of _ _ iv_tx, OF this] gone show False by simp
qed

text \<open>Once an interval computes its values, nothing adds to the tasks it waits for.\<close>

lemma no_new_values:
  assumes "node_step W e s s'" and "intervals_ok s" and "iv \<in> set (sys_intervals s)" and "\<not> rotating iv"
  shows "(\<exists>k. e = Work k) \<or> (\<exists>ps. sys_slots s' = push_all ps (sys_slots s) \<and> (\<forall>p \<in> set ps. \<not> values_for (iv_tx iv) (snd p)))"
proof -
  have "e \<noteq> Rotated_all (iv_tx iv)"
    using assms(1) interval_unique [OF assms(2,3)] assms(4) by (cases rule: node_step_kinds) auto
  then have "\<not> values_for (iv_tx iv) t" if "queued_by e t" for t
    using that by (cases t) (auto simp: queued_by_def values_for_def)
  with step_slots [OF assms(1)] show ?thesis by blast
qed

definition rotated_ready :: "'m interval \<Rightarrow> 'm system \<Rightarrow> bool" where
  "rotated_ready iv s \<longleftrightarrow> iv \<in> set (sys_intervals s) \<and> rotating iv \<and> None \<notin> set (interval_answers iv (sys_slots s))"

definition collect_ready :: "'m interval \<Rightarrow> 'm system \<Rightarrow> bool" where
  "collect_ready iv s \<longleftrightarrow> iv \<in> set (sys_intervals s) \<and> \<not> rotating iv \<and>
    (\<forall>sl \<in> set (sys_slots s). \<forall>t \<in> set (sl_queue sl). \<not> values_for (iv_tx iv) t)"

definition intervals_fair :: "(nat \<Rightarrow> 'm system) \<Rightarrow> (nat \<Rightarrow> 'w event) \<Rightarrow> bool" where
  "intervals_fair \<sigma> \<epsilon> \<longleftrightarrow>
    (\<forall>tx. weakly_fair (\<lambda>s. \<exists>iv. iv_tx iv = tx \<and> rotated_ready iv s) (\<lambda>e. e = Rotated_all tx) \<sigma> \<epsilon> \<and>
          weakly_fair (\<lambda>s. \<exists>iv. iv_tx iv = tx \<and> collect_ready iv s) (\<lambda>e. e = Collected tx) \<sigma> \<epsilon>)"

lemma reach_intervals_ok: "reach (node_init W) (node_step W) s \<Longrightarrow> intervals_ok s"
  using channels.reach_inv [of W s] by (simp add: channels_ok_def)

lemma reach_slots:
  assumes "reach (node_init W) (node_step W) s"
  shows "sys_slots s \<noteq> []"
  using assms
proof (induction rule: reach.induct)
  case (reach_init s)
  then show ?case by (auto simp: node_init_def node_start_def boot_def Let_def split: if_splits)
next
  case (reach_step s e s')
  then show ?case using length_slots_step by fastforce
qed

text \<open>An interval that is there now either goes on at some time or is there forever.\<close>

lemma interval_stays:
  assumes run: "node_run W \<sigma> \<epsilon>" and "iv \<in> set (sys_intervals (\<sigma> i))"
    and Q: "\<And>m. iv \<in> set (sys_intervals (\<sigma> m)) \<Longrightarrow> iv \<in> set (sys_intervals (\<sigma> (Suc m))) \<or> Q (\<sigma> (Suc m))"
    and never: "\<not> (\<exists>j\<ge>i. Q (\<sigma> j))" and "i \<le> m"
  shows "iv \<in> set (sys_intervals (\<sigma> m))"
  using \<open>i \<le> m\<close>
proof (induction rule: dec_induct)
  case base
  show ?case by (rule assms(2))
next
  case (step m)
  with Q [of m] never show ?case by auto
qed

lemma answers_grow:
  assumes "node_step W e s s'" and "k < length (sys_slots s)" and "channels_ok s"
  shows "set (rot_answered (sys_slots s ! k)) \<subseteq> set (rot_answered (sys_slots s' ! k))"
  using step_slots [OF assms(1)]
proof (elim disjE exE conjE)
  fix j
  assume "j < length (sys_slots s)" "s' = work W j s"
  with assms(2) show ?thesis by (cases "k = j") (auto simp: slot_work rot_answered_def rotation_log_run)
qed (use assms(2) in \<open>auto simp: nth_push_all rot_answered_def\<close>)

lemma answered_iff:
  assumes "length (iv_replies iv) = length slots"
  shows "None \<notin> set (interval_answers iv slots) \<longleftrightarrow> (\<forall>k<length slots. iv_replies iv ! k \<in> set (rot_answered (slots ! k)))"
proof -
  have "length (interval_answers iv slots) = length slots" using assms by (simp add: interval_answers_def)
  then have "None \<notin> set (interval_answers iv slots) \<longleftrightarrow> (\<forall>k<length slots. interval_answers iv slots ! k \<noteq> None)"
    by (metis in_set_conv_nth)
  also have "\<dots> \<longleftrightarrow> (\<forall>k<length slots. iv_replies iv ! k \<in> set (rot_answered (slots ! k)))"
    using assms by (simp add: interval_answers_def rotation_answer_def rot_answered_def map_of_eq_None_iff del: not_None_eq)
  finally show ?thesis .
qed

lemma rotated_ready_step:
  assumes "node_step W e s s'" and "channels_ok s" and "rotated_ready iv s"
  shows "rotated_ready iv s' \<or> (\<exists>order. mset order = mset [0..<length (sys_slots s)] \<and> e = Rotated_all (iv_tx iv) \<and> s' = aggregate_interval W iv order s)"
proof -
  have iv: "iv \<in> set (sys_intervals s)" "rotating iv" and ok: "intervals_ok s"
    using assms by (simp_all add: rotated_ready_def channels_ok_def)
  have len: "length (iv_replies iv) = length (sys_slots s)" using ok iv(1) by (simp add: intervals_ok_def)
  have len': "length (sys_slots s') = length (sys_slots s)" by (rule length_slots_step [OF assms(1)])
  have "None \<notin> set (interval_answers iv (sys_slots s'))"
    using assms(3) answers_grow [OF assms(1) _ assms(2)] answered_iff [of iv "sys_slots s"] answered_iff [of iv "sys_slots s'"] len len'
    by (auto simp: rotated_ready_def)
  with interval_step [OF assms(1) ok iv(1)] iv(2) show ?thesis by (auto simp: rotated_ready_def)
qed

lemma collect_ready_step:
  assumes "node_step W e s s'" and "intervals_ok s" and "collect_ready iv s"
  shows "collect_ready iv s' \<or> (\<exists>acc msgs. iv_phase iv = Collecting acc msgs \<and> s' = collect_interval W iv acc msgs s)"
proof -
  have iv: "iv \<in> set (sys_intervals s)" "\<not> rotating iv"
    and none: "\<forall>sl \<in> set (sys_slots s). \<forall>t \<in> set (sl_queue sl). \<not> values_for (iv_tx iv) t"
    using assms(3) by (simp_all add: collect_ready_def)
  have "\<forall>sl \<in> set (sys_slots s'). \<forall>t \<in> set (sl_queue sl). \<not> values_for (iv_tx iv) t"
    using no_new_values [OF assms(1,2) iv]
  proof (elim disjE exE conjE)
    fix k
    assume "e = Work k"
    with step_slots [OF assms(1)] have k: "k < length (sys_slots s)" "s' = work W k s" "sl_queue (sys_slots s ! k) \<noteq> []" by auto
    have sub: "set (sl_queue (sys_slots s' ! j)) \<subseteq> set (sl_queue (sys_slots s ! j))" if "j < length (sys_slots s)" for j
      using k that by (cases "j = k") (auto simp: slot_work dest: list.set_sel(2))
    show ?thesis
    proof (intro ballI)
      fix sl t
      assume t: "sl \<in> set (sys_slots s')" "t \<in> set (sl_queue sl)"
      then obtain j where "j < length (sys_slots s)" "sl = sys_slots s' ! j" by (auto simp: in_set_conv_nth k(2))
      with sub t(2) none show "\<not> values_for (iv_tx iv) t" by (metis nth_mem subsetD)
    qed
  next
    fix ps
    assume "sys_slots s' = push_all ps (sys_slots s)" "\<forall>p \<in> set ps. \<not> values_for (iv_tx iv) (snd p)"
    with none show ?thesis using queue_push [of _ ps "sys_slots s"] by (metis (no_types))
  qed
  with interval_step [OF assms(1,2) iv(1)] iv(2) show ?thesis by (auto simp: collect_ready_def)
qed

lemma slot_channels_hist:
  "answered_ok s \<Longrightarrow> k < length (sys_slots s) \<Longrightarrow> slot_channels (sys_slots s ! k) = concat (map rot_of (hist (sys_slots s ! k)))"
  by (simp add: answered_ok_def slot_channels_def hist_def rot_pending_def)

lemma set_prefix_done: "A @ B = H @ ts \<Longrightarrow> length H \<le> length A \<Longrightarrow> set H \<subseteq> set A"
  by (metis append_eq_append_conv_if set_take_subset)

text \<open>After every task that was queued has run, every answer of the interval is there.\<close>

lemma answers_arrive:
  assumes run: "node_run W \<sigma> \<epsilon>" and iv: "iv \<in> set (sys_intervals (\<sigma> i))" "rotating iv" and ij: "i \<le> j"
    and all: "\<forall>k<length (sys_slots (\<sigma> i)). length (hist (sys_slots (\<sigma> i) ! k)) \<le> length (sl_done (sys_slots (\<sigma> j) ! k))"
  shows "None \<notin> set (interval_answers iv (sys_slots (\<sigma> j)))"
proof -
  note ok = channels.reach_inv [OF run_reach [OF run]] and ans = answered.reach_inv [OF run_reach [OF run]]
  have pos: "0 < length (sys_slots (\<sigma> i))" using reach_slots [OF run_reach [OF run]] by simp
  have len: "length (sys_slots (\<sigma> j)) = length (sys_slots (\<sigma> i))" using run_grows [OF run ij pos] by simp
  have "iv_replies iv ! k \<in> set (rot_answered (sys_slots (\<sigma> j) ! k))" if k: "k < length (sys_slots (\<sigma> i))" for k
  proof -
    have "iv_replies iv ! k \<in> set (open_replies (\<sigma> i) k)" using iv by (auto simp: open_replies_def)
    then have "iv_replies iv ! k \<in> set (slot_channels (sys_slots (\<sigma> i) ! k))"
      using ok [of i] k by (auto simp: channels_ok_def slot_ok_def replies_ok_def slot_channels_def)
    then have "iv_replies iv ! k \<in> set (concat (map rot_of (hist (sys_slots (\<sigma> i) ! k))))"
      unfolding slot_channels_hist [OF ans [of i] k] .
    moreover obtain ts where "hist (sys_slots (\<sigma> j) ! k) = hist (sys_slots (\<sigma> i) ! k) @ ts"
      using run_grows [OF run ij k] by (auto simp: grows_def)
    then have "set (hist (sys_slots (\<sigma> i) ! k)) \<subseteq> set (sl_done (sys_slots (\<sigma> j) ! k))"
      using all k by (intro set_prefix_done) (auto simp: hist_def)
    ultimately have "iv_replies iv ! k \<in> set (concat (map rot_of (sl_done (sys_slots (\<sigma> j) ! k))))" by auto
    moreover have "concat (map rot_of (sl_done (sys_slots (\<sigma> j) ! k))) = rot_answered (sys_slots (\<sigma> j) ! k)"
      using ans [of j] k len by (simp add: answered_ok_def)
    ultimately show ?thesis by metis
  qed
  moreover have "length (iv_replies iv) = length (sys_slots (\<sigma> i))"
    using ok [of i] iv(1) by (simp add: channels_ok_def intervals_ok_def)
  ultimately show ?thesis using answered_iff [of iv "sys_slots (\<sigma> j)"] len by simp
qed

lemma interval_collects:
  assumes run: "node_run W \<sigma> \<epsilon>" and fair: "workers_fair \<sigma> \<epsilon>" "intervals_fair \<sigma> \<epsilon>" and mode: "agg_mode (iv_options iv) \<noteq> Separate"
    and iv: "iv \<in> set (sys_intervals (\<sigma> i))" "rotating iv" "is_leader (iv_options iv)"
  shows "\<exists>j\<ge>i. \<exists>acc msgs. iv\<lparr>iv_phase := Collecting acc msgs\<rparr> \<in> set (sys_intervals (\<sigma> j))"
proof (rule ccontr)
  let ?Q = "\<lambda>s. \<exists>acc msgs. iv\<lparr>iv_phase := Collecting acc msgs\<rparr> \<in> set (sys_intervals s)"
  assume never: "\<not> (\<exists>j\<ge>i. ?Q (\<sigma> j))"
  note ok = channels.reach_inv [OF run_reach [OF run]] and reached = run_reach [OF run]
  have agg: "?Q (aggregate_interval W iv order s)"
    if "reach (node_init W) (node_step W) s" "iv \<in> set (sys_intervals s)" "mset order = mset [0..<length (sys_slots s)]"
      "None \<notin> set (interval_answers iv (sys_slots s))" for s order
    by (rule leader_aggregates [OF mode reach_slots [OF that(1)] reach_intervals_ok [OF that(1)] that(2) iv(3) that(4,3)])
  have move: "iv \<in> set (sys_intervals (\<sigma> (Suc m))) \<or> ?Q (\<sigma> (Suc m))" if m: "iv \<in> set (sys_intervals (\<sigma> m))" for m
    using interval_step [OF run_step [OF run] reach_intervals_ok [OF reached] m] agg [OF reached m] iv(2) by force
  have stays: "iv \<in> set (sys_intervals (\<sigma> m))" if "i \<le> m" for m
    by (rule interval_stays [OF run iv(1) move never that])
  obtain j where j: "i \<le> j"
    "\<forall>k<length (sys_slots (\<sigma> i)). length (hist (sys_slots (\<sigma> i) ! k)) \<le> length (sl_done (sys_slots (\<sigma> j) ! k))"
    using all_executed [OF run fair(1)] by blast
  have ready: "rotated_ready iv (\<sigma> j)"
    using stays [OF j(1)] answers_arrive [OF run iv(1,2) j] iv(2) by (simp add: rotated_ready_def)
  have "\<exists>m\<ge>j. ?Q (\<sigma> m)"
  proof (rule weak_fairness_rule [where P = "rotated_ready iv", OF run])
    show "rotated_ready iv (\<sigma> j)" by (rule ready)
    show "weakly_fair (\<lambda>s. \<exists>v. iv_tx v = iv_tx iv \<and> rotated_ready v s) (\<lambda>e. e = Rotated_all (iv_tx iv)) \<sigma> \<epsilon>"
      using fair(2) by (simp add: intervals_fair_def)
    fix e s s'
    assume r: "reach (node_init W) (node_step W) s" and P: "rotated_ready iv s" and st: "node_step W e s s'"
    have there: "iv \<in> set (sys_intervals s)" "None \<notin> set (interval_answers iv (sys_slots s))"
      using P by (simp_all add: rotated_ready_def)
    from rotated_ready_step [OF st channels.reach_inv [OF r] P] agg [OF r there(1) _ there(2)]
    show "rotated_ready iv s' \<or> ?Q s'" by blast
    assume e: "e = Rotated_all (iv_tx iv)"
    from st show "?Q s'"
    proof (cases rule: node_step_kinds)
      case (aggregate v order)
      then have "v = iv" using e by (intro interval_unique [OF reach_intervals_ok [OF r] there(1)]) simp_all
      with aggregate(5,6) agg [OF r there(1) _ there(2)] show ?thesis by simp
    qed (use e in auto)
  qed blast
  with never j(1) show False by (meson le_trans)
qed

text \<open>The tasks that an interval waits for are those that are queued when it starts waiting.\<close>

lemma no_late_values:
  assumes run: "node_run W \<sigma> \<epsilon>" and stays: "\<And>m. i \<le> m \<Longrightarrow> iv \<in> set (sys_intervals (\<sigma> m))" and iv: "\<not> rotating iv"
    and ij: "i \<le> j" and k: "k < length (sys_slots (\<sigma> i))"
  shows "\<forall>t \<in> set (drop (length (hist (sys_slots (\<sigma> i) ! k))) (hist (sys_slots (\<sigma> j) ! k))). \<not> values_for (iv_tx iv) t"
  using ij
proof (induction rule: dec_induct)
  case base
  show ?case by simp
next
  case (step m)
  have km: "k < length (sys_slots (\<sigma> m))" using run_grows [OF run step(1) k] k by simp
  obtain ts where ts: "hist (sys_slots (\<sigma> m) ! k) = hist (sys_slots (\<sigma> i) ! k) @ ts"
    using run_grows [OF run step(1) k] by (auto simp: grows_def)
  from no_new_values [OF run_step [OF run] reach_intervals_ok [OF run_reach [OF run]] stays [OF step(1)] iv]
  have "\<exists>us. hist (sys_slots (\<sigma> (Suc m)) ! k) = hist (sys_slots (\<sigma> m) ! k) @ us \<and> (\<forall>t \<in> set us. \<not> values_for (iv_tx iv) t)"
  proof (elim disjE exE conjE)
    fix l
    assume "\<epsilon> m = Work l"
    with step_slots [OF run_step [OF run, of m]]
    have l: "l < length (sys_slots (\<sigma> m))" "sl_queue (sys_slots (\<sigma> m) ! l) \<noteq> []" "\<sigma> (Suc m) = work W l (\<sigma> m)" by auto
    with km show ?thesis by (intro exI [of _ "[]"]) (cases "k = l"; simp add: slot_work hist_def)
  next
    fix ps
    assume "sys_slots (\<sigma> (Suc m)) = push_all ps (sys_slots (\<sigma> m))" "\<forall>p \<in> set ps. \<not> values_for (iv_tx iv) (snd p)"
    with km show ?thesis by (auto simp: nth_push_all hist_def)
  qed
  with step.IH ts show ?case by auto
qed

text \<open>
  An interval has ended with a batch: it was passed on, or it was lost because it has fewer
  values than there are carbon connections.
\<close>

definition batched :: "('w, 'r, 'm) world \<Rightarrow> 'm interval \<Rightarrow> 'm system \<Rightarrow> bool" where
  "batched W iv s \<longleftrightarrow>
    (\<exists>b \<in> set (sys_batches s). bt_tx b = iv_tx iv \<and> bt_options b = iv_options iv \<and>
      effective_chunks (carbon (w_cfg W)) \<le> length (bt_values b)) \<or>
    (\<exists>b \<in> set (sys_lost s). bt_tx b = iv_tx iv \<and> bt_options b = iv_options iv \<and>
      length (bt_values b) < effective_chunks (carbon (w_cfg W)))"

lemma batched_collect: "batched W iv (collect_interval W iv acc msgs s)"
  by (cases rule: collect_interval_cases [where W = W and iv = iv and acc = acc and msgs = msgs and s = s])
    (auto simp: batched_def)

lemma interval_batched:
  assumes run: "node_run W \<sigma> \<epsilon>" and fair: "workers_fair \<sigma> \<epsilon>" "intervals_fair \<sigma> \<epsilon>"
    and iv: "iv \<in> set (sys_intervals (\<sigma> i))" "\<not> rotating iv"
  shows "\<exists>j\<ge>i. batched W iv (\<sigma> j)"
proof (rule ccontr)
  let ?Q = "batched W iv"
  assume never: "\<not> (\<exists>j\<ge>i. ?Q (\<sigma> j))"
  note reached = run_reach [OF run]
  note coll = batched_collect
  have move: "iv \<in> set (sys_intervals (\<sigma> (Suc m))) \<or> ?Q (\<sigma> (Suc m))" if m: "iv \<in> set (sys_intervals (\<sigma> m))" for m
    using interval_step [OF run_step [OF run] reach_intervals_ok [OF reached] m] coll iv(2) by metis
  have stays: "iv \<in> set (sys_intervals (\<sigma> m))" if "i \<le> m" for m
    by (rule interval_stays [OF run iv(1) move never that])
  obtain j where j: "i \<le> j"
    "\<forall>k<length (sys_slots (\<sigma> i)). length (hist (sys_slots (\<sigma> i) ! k)) \<le> length (sl_done (sys_slots (\<sigma> j) ! k))"
    using all_executed [OF run fair(1)] by blast
  have pos: "0 < length (sys_slots (\<sigma> i))" using reach_slots [OF reached] by simp
  have "\<not> values_for (iv_tx iv) t" if k: "k < length (sys_slots (\<sigma> i))" and t: "t \<in> set (sl_queue (sys_slots (\<sigma> j) ! k))" for k t
    using no_late_values [OF run stays iv(2) j(1) k] j(2) k t by (auto simp: hist_def drop_append)
  then have ready: "collect_ready iv (\<sigma> j)"
    using stays [OF j(1)] iv(2) run_grows [OF run j(1) pos] by (simp add: collect_ready_def) (metis in_set_conv_nth)
  have "\<exists>m\<ge>j. ?Q (\<sigma> m)"
  proof (rule weak_fairness_rule [where P = "collect_ready iv", OF run])
    show "collect_ready iv (\<sigma> j)" by (rule ready)
    show "weakly_fair (\<lambda>s. \<exists>v. iv_tx v = iv_tx iv \<and> collect_ready v s) (\<lambda>e. e = Collected (iv_tx iv)) \<sigma> \<epsilon>"
      using fair(2) by (simp add: intervals_fair_def)
    fix e s s'
    assume r: "reach (node_init W) (node_step W) s" and P: "collect_ready iv s" and st: "node_step W e s s'"
    from collect_ready_step [OF st reach_intervals_ok [OF r] P] coll show "collect_ready iv s' \<or> ?Q s'" by blast
    have there: "iv \<in> set (sys_intervals s)" using P by (simp add: collect_ready_def)
    assume e: "e = Collected (iv_tx iv)"
    from st show "?Q s'"
    proof (cases rule: node_step_kinds)
      case (collect v acc msgs)
      then have "v = iv" using e by (intro interval_unique [OF reach_intervals_ok [OF r] there]) simp_all
      with collect(5) coll show ?thesis by simp
    qed (use e in auto)
  qed blast
  with never j(1) show False by (meson le_trans)
qed

lemma interval_reaches_carbon:
  assumes "node_run W \<sigma> \<epsilon>" and "workers_fair \<sigma> \<epsilon>" and "intervals_fair \<sigma> \<epsilon>" and "agg_mode (iv_options iv) \<noteq> Separate"
    and "iv \<in> set (sys_intervals (\<sigma> i))" and "is_leader (iv_options iv)"
  shows "\<exists>j\<ge>i. batched W iv (\<sigma> j)"
proof (cases "rotating iv")
  case True
  from interval_collects [OF assms(1-5) True assms(6)]
  obtain j acc msgs where j: "i \<le> j" "iv\<lparr>iv_phase := Collecting acc msgs\<rparr> \<in> set (sys_intervals (\<sigma> j))" by blast
  from interval_batched [OF assms(1-3) j(2)] j(1) show ?thesis by (auto simp: batched_def intro: le_trans)
next
  case False
  with interval_batched [OF assms(1-3,5)] show ?thesis by blast
qed

section \<open>A fair run\<close>

lemma exec_weakly_fair:
  assumes "\<not> enabled (exec_state W es s (length es))"
  shows "weakly_fair enabled act (exec_state W es s) (exec_event es)"
  unfolding weakly_fair_def using assms exec_rests [of es _ W s] by (metis le_cases le_trans)

lemma weakly_fair_rests: "\<not> enabled (sample_state 12) \<Longrightarrow> weakly_fair enabled act sample_state sample_event"
  using sample_rests [of "length sample_events"] by (intro exec_weakly_fair) (simp add: sample_events_def [THEN arg_cong, of length])

lemma sample_rest: "length (sys_slots (sample_state 12)) = 1 \<and> sl_queue (sys_slots (sample_state 12) ! 0) = [] \<and>
    sys_intervals (sample_state 12) = []"
  by code_simp

lemma sample_workers_fair: "workers_fair sample_state sample_event"
  unfolding workers_fair_def by (intro allI weakly_fair_rests) (metis less_one sample_rest)

lemma sample_intervals_fair: "intervals_fair sample_state sample_event"
  unfolding intervals_fair_def
  by (intro allI conjI weakly_fair_rests)
    (use sample_rest in \<open>auto simp: rotated_ready_def collect_ready_def\<close>)

section \<open>Properties\<close>

text \<open>
  C28. Every queued task is executed, in its turn. If no worker is neglected forever, then from
  any point of a run on there is a later one at which each worker has executed what it had
  executed and had queued, in that order.
\<close>

theorem queued_tasks_executed:
  assumes "is_run (node_init W) (node_step W) \<sigma> \<epsilon>" and "workers_fair \<sigma> \<epsilon>"
  shows "\<exists>j\<ge>i. \<forall>k<length (sys_slots (\<sigma> i)).
    take (length (hist (sys_slots (\<sigma> i) ! k))) (sl_done (sys_slots (\<sigma> j) ! k)) = hist (sys_slots (\<sigma> i) ! k)"
proof -
  obtain j where j: "i \<le> j"
    "\<forall>k<length (sys_slots (\<sigma> i)). length (hist (sys_slots (\<sigma> i) ! k)) \<le> length (sl_done (sys_slots (\<sigma> j) ! k))"
    using all_executed [OF assms] by blast
  have "take (length (hist (sys_slots (\<sigma> i) ! k))) (sl_done (sys_slots (\<sigma> j) ! k)) = hist (sys_slots (\<sigma> i) ! k)"
    if k: "k < length (sys_slots (\<sigma> i))" for k
  proof -
    obtain ts where "sl_done (sys_slots (\<sigma> j) ! k) @ sl_queue (sys_slots (\<sigma> j) ! k) = hist (sys_slots (\<sigma> i) ! k) @ ts"
      using run_grows [OF assms(1) j(1) k] by (auto simp: grows_def hist_def)
    with j(2) k show ?thesis by (metis append_eq_conv_conj take_append diff_is_0_eq append_Nil2 take_0)
  qed
  with j(1) show ?thesis by blast
qed

theorem queued_tasks_executed_witness:
  "\<exists>j\<ge>9. Rotate 2 \<in> set (sl_done (sys_slots (sample_state j) ! 0))"
proof -
  have s: "length (sys_slots (sample_state 9)) = 1 \<and> sl_queue (sys_slots (sample_state 9) ! 0) = [Rotate 2]" by code_simp
  from queued_tasks_executed [OF sample_run sample_workers_fair, of 9]
  obtain j where "j \<ge> 9" "take (length (hist (sys_slots (sample_state 9) ! 0))) (sl_done (sys_slots (sample_state j) ! 0)) = hist (sys_slots (sample_state 9) ! 0)"
    using s by auto
  moreover have "Rotate 2 \<in> set (hist (sys_slots (sample_state 9) ! 0))" using s by (simp add: hist_def)
  ultimately show ?thesis by (metis in_set_takeD)
qed

text \<open>
  C5. Every interval of the leader ends with its batch. If no worker and no interval is
  neglected forever and the metrics are aggregated in the single or the common mode, then an
  interval that has begun while the node leads ends with a batch of its own, however many
  tasks, intervals and changes of leadership come in between. The batch goes to the carbon
  clients if it has at least as many values as there are connections; with fewer the thread
  panics when it splits the batch, and the batch is lost.
\<close>

theorem leader_interval_reaches_carbon:
  assumes "is_run (node_init W) (node_step W) \<sigma> \<epsilon>" and "workers_fair \<sigma> \<epsilon>" and "intervals_fair \<sigma> \<epsilon>"
    and "iv \<in> set (sys_intervals (\<sigma> i))" and "is_leader (iv_options iv)" and "agg_mode (iv_options iv) \<noteq> Separate"
  shows "\<exists>j\<ge>i. \<exists>b. bt_tx b = iv_tx iv \<and> bt_options b = iv_options iv \<and>
    (b \<in> set (sys_batches (\<sigma> j)) \<and> effective_chunks (carbon (w_cfg W)) \<le> length (bt_values b) \<or>
     b \<in> set (sys_lost (\<sigma> j)) \<and> length (bt_values b) < effective_chunks (carbon (w_cfg W)))"
  using interval_reaches_carbon [OF assms(1-3,6,4,5)] unfolding batched_def by blast

theorem leader_interval_reaches_carbon_witness:
  "length (sys_intervals (sample_state 9)) = 1 \<and>
    (\<exists>j\<ge>9. \<exists>b. bt_tx b = 1 \<and> (b \<in> set (sys_batches (sample_state j)) \<or> b \<in> set (sys_lost (sample_state j)) \<and> bt_values b = []))"
proof -
  let ?iv = "hd (sys_intervals (sample_state 9))"
  have "length (sys_intervals (sample_state 9)) = 1 \<and> iv_tx ?iv = 1 \<and> is_leader (iv_options ?iv) \<and>
      agg_mode (iv_options ?iv) = Single" by code_simp
  moreover from this have "?iv \<in> set (sys_intervals (sample_state 9))"
    by (metis One_nat_def length_0_conv list.set_sel(1) zero_neq_one)
  moreover have "effective_chunks (carbon (w_cfg sample_world)) = 1" by code_simp
  ultimately show ?thesis
    using leader_interval_reaches_carbon [OF sample_run sample_workers_fair sample_intervals_fair, of ?iv 9] by auto
qed


definition follower_world :: "((bytes \<times> nat) which, bytes \<times> nat, nat) world" where
  "follower_world = sample_world\<lparr>w_cfg := (w_cfg sample_world)\<lparr>start_as_leader := False\<rparr>\<rparr>"

definition follower_events :: "(bytes \<times> nat) which event list" where
  "follower_events = [PeerOpen 0, PeerMessage 0 (MSnapshot (Inr [(''a'', 3)])), Work 0, CarbonTimer, Work 0]"

definition follower_state :: "nat system" where
  "follower_state =
    (case node_start (w_cfg follower_world) of
       Inr nd \<Rightarrow> the (node_exec_all follower_world follower_events (boot nd))
     | Inl p \<Rightarrow> undefined)"

lemma follower_reach: "reach (node_init follower_world) (node_step follower_world) follower_state"
proof -
  have start: "(case node_start (w_cfg follower_world) :: panic + nat node of
         Inr nd \<Rightarrow> node_exec_all follower_world follower_events (boot nd) \<noteq> None | Inl p \<Rightarrow> False)"
    by code_simp
  then obtain nd s where nd: "node_start (w_cfg follower_world) = Inr nd" "node_exec_all follower_world follower_events (boot nd) = Some s"
    by (auto split: sum.splits)
  then have "node_init follower_world (boot nd)" using start by (auto simp: node_init_def)
  from node_exec_all_reach [OF nd(2) reach_init [of "node_init follower_world", OF this]] nd show ?thesis
    by (simp add: follower_state_def)
qed


end
