(* ===== verification/Ledger.thy ===== *)
theory Ledger
  imports Channels
begin

text \<open>
  Conservation of metrics in the node as a whole. The specification is a ledger with one
  account for what a node holds: a deposit enters it, and an amount leaves it to carbon or is
  discarded. The system of threads refines the ledger, by every measure of metrics that
  \<open>aggregate\<close> adds up; so what the ledger guarantees holds of the node in every interleaving.
\<close>

section \<open>The specification\<close>

record 'c ledger =
  lg_in :: 'c
  lg_held :: 'c
  lg_delivered :: 'c
  lg_discarded :: 'c

datatype 'c entry = Deposit 'c | Deliver 'c | Discard 'c

definition ledger_init :: "'c::comm_monoid_add ledger \<Rightarrow> bool" where
  "ledger_init l \<longleftrightarrow> l = \<lparr>lg_in = 0, lg_held = 0, lg_delivered = 0, lg_discarded = 0\<rparr>"

inductive ledger_step :: "'c::comm_monoid_add entry \<Rightarrow> 'c ledger \<Rightarrow> 'c ledger \<Rightarrow> bool" where
  deposit: "ledger_step (Deposit x) l (l\<lparr>lg_in := lg_in l + x, lg_held := lg_held l + x\<rparr>)"
| deliver: "lg_held l = h + x \<Longrightarrow> ledger_step (Deliver x) l (l\<lparr>lg_held := h, lg_delivered := lg_delivered l + x\<rparr>)"
| discard: "lg_held l = h + x \<Longrightarrow> ledger_step (Discard x) l (l\<lparr>lg_held := h, lg_discarded := lg_discarded l + x\<rparr>)"

definition balanced :: "'c::comm_monoid_add ledger \<Rightarrow> bool" where
  "balanced l \<longleftrightarrow> lg_in l = lg_held l + lg_delivered l + lg_discarded l"

interpretation ledger: invariant ledger_init ledger_step balanced
proof unfold_locales
  fix l l' :: "'a ledger" and e
  assume "balanced l" "ledger_step e l l'"
  from this(2,1) show "balanced l'" by cases (simp_all add: balanced_def ac_simps)
qed (simp add: ledger_init_def balanced_def)

section \<open>The ledger of a node\<close>

text \<open>
  Where the metrics of a node are, by a measure of them: in the caches of a worker, in an
  answer that the interval has not taken yet, in the cache of an interval whose values are
  being computed, in a batch that went to carbon, or discarded.
\<close>

definition slot_total :: "(bytes \<Rightarrow> 'm \<Rightarrow> 'c::comm_monoid_add) \<Rightarrow> chan_id set \<Rightarrow> 'm slot \<Rightarrow> 'c" where
  "slot_total \<mu> opens sl = entries_total \<mu> (stored (sl_worker sl)) + log_total \<mu> opens (rotation_log (outbox (sl_worker sl)))"

definition held_total :: "(bytes \<Rightarrow> 'm \<Rightarrow> 'c::comm_monoid_add) \<Rightarrow> 'm system \<Rightarrow> 'c" where
  "held_total \<mu> s =
    (\<Sum>k<length (sys_slots s). slot_total \<mu> (set (open_replies s k)) (sys_slots s ! k)) +
    (\<Sum>iv\<leftarrow>sys_intervals s. entries_total \<mu> (phase_cache (iv_phase iv)))"

definition ledger_of :: "(bytes \<Rightarrow> 'm \<Rightarrow> 'c::comm_monoid_add) \<Rightarrow> 'm system \<Rightarrow> 'c ledger" where
  "ledger_of \<mu> s =
    \<lparr>lg_in = entries_total \<mu> (sys_inflow s), lg_held = held_total \<mu> s,
     lg_delivered = (\<Sum>b\<leftarrow>sys_batches s. entries_total \<mu> (bt_cache b)), lg_discarded = entries_total \<mu> (sys_discarded s)\<rparr>"

lemma slot_total_queue [simp]: "slot_total \<mu> opens (sl\<lparr>sl_queue := q\<rparr>) = slot_total \<mu> opens sl"
  by (simp add: slot_total_def)

lemma slot_total_run:
  assumes "additive lib \<mu>" and "\<And>ch. t = Rotate ch \<Longrightarrow> alive ch \<and> ch \<in> opens"
  shows "slot_total \<mu> opens \<lparr>sl_queue = q, sl_worker = run lib alive t w, sl_done = d\<rparr> =
    slot_total \<mu> opens \<lparr>sl_queue = q', sl_worker = w, sl_done = d'\<rparr> + entries_total \<mu> (inflow lib t w)"
  using assms(2) by (cases t) (simp_all add: slot_total_def rotation_log_run stored_def runner_run runner_run_parse
      entries_total_put_metrics [OF assms(1)] entries_total_put_metric [OF assms(1)] ac_simps)

lemma sum_upd:
  fixes f g :: "nat \<Rightarrow> 'c::comm_monoid_add"
  assumes "k < n" and "g k = f k + x" and "\<And>j. j \<noteq> k \<Longrightarrow> j < n \<Longrightarrow> g j = f j"
  shows "(\<Sum>j<n. g j) = (\<Sum>j<n. f j) + x"
proof -
  have "(\<Sum>j\<in>{..<n} - {k}. g j) = (\<Sum>j\<in>{..<n} - {k}. f j)" using assms(3) by (intro sum.cong) auto
  with assms(1,2) show ?thesis by (simp add: sum.remove [of "{..<n}" k] ac_simps)
qed

lemma sum_without:
  fixes f :: "'m interval \<Rightarrow> 'c::comm_monoid_add"
  assumes "distinct (map iv_tx ivs)" and "iv \<in> set ivs"
  shows "(\<Sum>v\<leftarrow>ivs. f v) = (\<Sum>v\<leftarrow>without iv ivs. f v) + f iv"
    and "(\<Sum>v\<leftarrow>map (\<lambda>v. if iv_tx v = iv_tx iv then g v else v) ivs. f v) = (\<Sum>v\<leftarrow>without iv ivs. f v) + f (g iv)"
proof -
  have *: "without iv ivs = ivs \<and> map (\<lambda>v. if iv_tx v = iv_tx iv then g v else v) ivs = ivs" if "iv_tx iv \<notin> set (map iv_tx ivs)" for ivs
    using that by (induction ivs) auto
  from assms have "(\<Sum>v\<leftarrow>ivs. f v) = (\<Sum>v\<leftarrow>without iv ivs. f v) + f iv \<and>
    (\<Sum>v\<leftarrow>map (\<lambda>v. if iv_tx v = iv_tx iv then g v else v) ivs. f v) = (\<Sum>v\<leftarrow>without iv ivs. f v) + f (g iv)"
  proof (induction ivs)
    case (Cons v ivs)
    show ?case
    proof (cases "iv_tx v = iv_tx iv")
      case True
      with Cons.prems have "v = iv" by force
      with Cons.prems * [of ivs] show ?thesis by (simp add: ac_simps)
    next
      case False
      with Cons.prems have "iv \<in> set ivs" by auto
      with False Cons show ?thesis by (simp add: ac_simps)
    qed
  qed simp
  then show "(\<Sum>v\<leftarrow>ivs. f v) = (\<Sum>v\<leftarrow>without iv ivs. f v) + f iv"
    and "(\<Sum>v\<leftarrow>map (\<lambda>v. if iv_tx v = iv_tx iv then g v else v) ivs. f v) = (\<Sum>v\<leftarrow>without iv ivs. f v) + f (g iv)"
    by simp_all
qed

lemma slot_total_open:
  "ch \<notin> fst ` set (rotation_log (outbox (sl_worker sl))) \<Longrightarrow> slot_total \<mu> (insert ch opens) sl = slot_total \<mu> opens sl"
  by (simp add: slot_total_def log_total_open)

lemma slot_total_close:
  assumes "distinct (map fst (rotation_log (outbox (sl_worker sl))))" and "ch \<notin> opens"
    and "rotation_answer ch (outbox (sl_worker sl)) = Some m"
  shows "slot_total \<mu> (insert ch opens) sl = slot_total \<mu> opens sl + entries_total \<mu> m"
  using assms by (simp add: slot_total_def log_total_close rotation_answer_def ac_simps)

lemma held_push:
  assumes "sys_slots s' = push_all ps (sys_slots s)" and "sys_intervals s' = sys_intervals s"
  shows "held_total \<mu> s' = held_total \<mu> s"
  using assms by (simp add: held_total_def open_replies_def nth_push_all)

lemma held_work:
  assumes "additive (w_lib W) \<mu>" and "channels_ok s" and "k < length (sys_slots s)" and "sl_queue (sys_slots s ! k) \<noteq> []"
  shows "\<exists>x. sys_inflow (work W k s) = sys_inflow s @ x \<and> held_total \<mu> (work W k s) = held_total \<mu> s + entries_total \<mu> x"
proof -
  let ?sl = "sys_slots s ! k"
  let ?w = "(sl_worker ?sl)\<lparr>stats := sys_stats s\<rparr>"
  let ?x = "inflow (w_lib W) (hd (sl_queue ?sl)) ?w"
  have "sys_alive s ch \<and> ch \<in> set (open_replies s k)" if "hd (sl_queue ?sl) = Rotate ch" for ch
  proof -
    from that assms(4) have "Rotate ch \<in> set (sl_queue ?sl)" by (metis list.set_sel(1))
    moreover from this have "ch \<in> set (rot_pending ?sl)" by (force simp: rot_pending_def)
    ultimately show ?thesis
      using rotate_alive [OF assms(2,3)] assms(2,3) by (auto simp: channels_ok_def slot_ok_def replies_ok_def)
  qed
  then have "slot_total \<mu> (set (open_replies s k)) (sys_slots (work W k s) ! k) =
      slot_total \<mu> (set (open_replies s k)) \<lparr>sl_queue = [], sl_worker = ?w, sl_done = []\<rparr> + entries_total \<mu> ?x"
    unfolding slot_work [OF assms(3,3)] if_P [OF refl] by (rule slot_total_run [OF assms(1)])
  moreover have "slot_total \<mu> opens \<lparr>sl_queue = [], sl_worker = ?w, sl_done = []\<rparr> = slot_total \<mu> opens ?sl" for opens
    by (simp add: slot_total_def stored_def)
  ultimately have "(\<Sum>j<length (sys_slots s). slot_total \<mu> (set (open_replies s j)) (sys_slots (work W k s) ! j)) =
      (\<Sum>j<length (sys_slots s). slot_total \<mu> (set (open_replies s j)) (sys_slots s ! j)) + entries_total \<mu> ?x"
    using assms(3) by (intro sum_upd [of k]) (simp_all add: slot_work)
  then have "held_total \<mu> (work W k s) = held_total \<mu> s + entries_total \<mu> ?x"
    by (simp add: held_total_def open_replies_def ac_simps)
  then show ?thesis by (intro exI [of _ ?x]) (simp add: work_def Let_def)
qed

lemma held_start_interval:
  assumes "channels_ok s"
  shows "held_total \<mu> (start_interval W s) = held_total \<mu> s"
proof -
  have "slot_total \<mu> (set (open_replies (start_interval W s) k)) (sys_slots (start_interval W s) ! k) =
      slot_total \<mu> (set (open_replies s k)) (sys_slots s ! k)" if k: "k < length (sys_slots s)" for k
  proof -
    have "slot_ok (sys_fresh s) (open_replies s k) (sys_slots s ! k)" using assms k by (simp add: channels_ok_def)
    then have "\<forall>ch \<in> set (rot_answered (sys_slots s ! k)). ch < sys_fresh s"
      by (simp add: slot_ok_def replies_ok_def)
    then have "sys_fresh s + 1 + k \<notin> set (rot_answered (sys_slots s ! k))"
      by (metis add.assoc less_add_same_cancel1 not_less_zero order_less_trans not_add_less1)
    then show ?thesis
      using k slot_total_open [of "sys_fresh s + 1 + k" "sys_slots s ! k" \<mu> "set (open_replies s k)"]
      by (simp add: slot_start_interval open_replies_start_interval rot_answered_def)
  qed
  then show ?thesis by (simp add: held_total_def phase_cache_def del: upt_Suc)
qed

lemma interval_answer:
  assumes "None \<notin> set (interval_answers iv slots)" and "k < length slots" and "length (iv_replies iv) = length slots"
  shows "rotation_answer (iv_replies iv ! k) (outbox (sl_worker (slots ! k))) = Some (the (interval_answers iv slots ! k))"
proof -
  have "interval_answers iv slots ! k \<in> set (interval_answers iv slots)"
    using assms(2,3) by (intro nth_mem) (simp add: interval_answers_def)
  with assms(1) have "interval_answers iv slots ! k \<noteq> None" by metis
  then show ?thesis using assms(2,3) by (simp add: interval_answers_def)
qed

text \<open>The answers that an interval takes are what leaves the workers' outboxes.\<close>

lemma slots_total_closed:
  assumes ok: "channels_ok s" and iv: "iv \<in> set (sys_intervals s)" "rotating iv"
    and answered: "None \<notin> set (interval_answers iv (sys_slots s))"
  shows "(\<Sum>k<length (sys_slots s). slot_total \<mu> (set (open_replies s k)) (sys_slots s ! k)) =
    (\<Sum>k<length (sys_slots s). slot_total \<mu> (set (map (\<lambda>v. iv_replies v ! k) (filter rotating (without iv (sys_intervals s))))) (sys_slots s ! k))
    + entries_total \<mu> (arrived (interval_answers iv (sys_slots s)))"
proof -
  let ?ans = "interval_answers iv (sys_slots s)"
  let ?opens = "\<lambda>k. set (map (\<lambda>v. iv_replies v ! k) (filter rotating (without iv (sys_intervals s))))"
  have txs: "distinct (map iv_tx (sys_intervals s))" "length (iv_replies iv) = length (sys_slots s)"
    using ok iv(1) by (auto simp: channels_ok_def intervals_ok_def)
  have "slot_total \<mu> (set (open_replies s k)) (sys_slots s ! k) =
      slot_total \<mu> (?opens k) (sys_slots s ! k) + entries_total \<mu> (the (?ans ! k))" if k: "k < length (sys_slots s)" for k
  proof -
    have ok_k: "slot_ok (sys_fresh s) (open_replies s k) (sys_slots s ! k)" using ok k by (simp add: channels_ok_def)
    have opens: "?opens k = set (open_replies s k) - {iv_replies iv ! k}"
      using without_rotating(2) [OF txs(1) iv, of "\<lambda>v. iv_replies v ! k"] ok_k by (simp add: slot_ok_def replies_ok_def open_replies_def)
    have "iv_replies iv ! k \<in> set (open_replies s k)" using iv by (auto simp: open_replies_def)
    with opens have split: "set (open_replies s k) = insert (iv_replies iv ! k) (?opens k)" by blast
    have notin: "iv_replies iv ! k \<notin> ?opens k" unfolding opens by blast
    have "distinct (map fst (rotation_log (outbox (sl_worker (sys_slots s ! k)))))"
      using ok_k by (simp add: slot_ok_def replies_ok_def slot_channels_def rot_answered_def)
    then show ?thesis
      unfolding split by (rule slot_total_close [OF _ notin interval_answer [OF answered k txs(2)]])
  qed
  then have "(\<Sum>k<length (sys_slots s). slot_total \<mu> (set (open_replies s k)) (sys_slots s ! k)) =
      (\<Sum>k<length (sys_slots s). slot_total \<mu> (?opens k) (sys_slots s ! k)) + (\<Sum>k<length (sys_slots s). entries_total \<mu> (the (?ans ! k)))"
    by (simp add: sum.distrib)
  moreover have "(\<Sum>k<length (sys_slots s). entries_total \<mu> (the (?ans ! k))) = entries_total \<mu> (arrived ?ans)"
  proof -
    have "entries_total \<mu> (arrived rs) = (\<Sum>k<length rs. entries_total \<mu> (the (rs ! k)))" if "None \<notin> set rs" for rs
      using that
    proof (induction rs)
      case (Cons r rs)
      then show ?case by (cases r) (simp_all add: sum.lessThan_Suc_shift del: sum.lessThan_Suc)
    qed simp
    from this [OF answered] txs(2) show ?thesis by (simp add: interval_answers_def)
  qed
  ultimately show ?thesis by simp
qed

lemma entries_total_order:
  assumes "mset rs = mset rs'"
  shows "entries_total \<mu> (arrived rs) = entries_total \<mu> (arrived rs')"
  by (simp only: entries_total_arrived assms)

text \<open>An interval goes on: its answers are discarded, or held as the cache it accumulated.\<close>

lemma held_aggregate:
  assumes "additive (w_lib W) \<mu>" and ok: "channels_ok s" and iv: "iv \<in> set (sys_intervals s)" "rotating iv"
    and ans: "None \<notin> set (interval_answers iv (sys_slots s))" and order: "mset order = mset [0..<length (sys_slots s)]"
  defines "s' \<equiv> aggregate_interval W iv order s"
  shows "\<exists>x. held_total \<mu> s = held_total \<mu> s' + entries_total \<mu> x \<and> sys_discarded s' = sys_discarded s @ x \<and>
    sys_inflow s' = sys_inflow s \<and> sys_batches s' = sys_batches s"
proof -
  have txs: "distinct (map iv_tx (sys_intervals s))" "length (iv_replies iv) = length (sys_slots s)"
    using ok iv(1) by (auto simp: channels_ok_def intervals_ok_def)
  note closed = slots_total_closed [OF ok iv ans, of \<mu>]
  note total = entries_total_order [OF interval_answers_order [OF order txs(2)], of \<mu>]
  note sums = sum_without [OF txs(1) iv(1), of "\<lambda>v. entries_total \<mu> (phase_cache (iv_phase v))"]
  from answers_present [OF ans order txs(2)] show ?thesis
  proof (cases rule: aggregate_interval_kinds [where W = W])
    case (gone c)
    then show ?thesis
      using closed total sums(1) iv(2)
      by (simp add: s'_def held_total_def open_replies_def phase_cache_def ac_simps del: set_map set_filter)
  next
    case (dispatched c st acc)
    have "entries_total \<mu> acc = entries_total \<mu> (arrived (interval_answers iv (sys_slots s)))"
      using total by (simp add: dispatched(2) entries_total_put_metrics [OF assms(1)])
    then show ?thesis
      using closed sums(1) sums(2) [of "\<lambda>v. v\<lparr>iv_phase := Collecting acc (agg_sent st)\<rparr>"] iv(2)
      by (intro exI [of _ "[]"])
        (simp add: s'_def dispatched(4) held_total_def open_replies_def phase_cache_def filter_rotating_collecting nth_push_all
          ac_simps del: set_map set_filter)
  qed
qed

lemma held_collect:
  assumes "channels_ok s" and "iv \<in> set (sys_intervals s)" and "iv_phase iv = Collecting acc msgs"
  shows "held_total \<mu> s = held_total \<mu> (collect_interval W iv acc msgs s) + entries_total \<mu> acc"
proof -
  have "distinct (map iv_tx (sys_intervals s))" using assms(1) by (simp add: channels_ok_def intervals_ok_def)
  from sum_without(1) [OF this assms(2), of "\<lambda>v. entries_total \<mu> (phase_cache (iv_phase v))"]
    without_collecting [OF this assms(2)] assms(3)
  show ?thesis by (simp add: held_total_def open_replies_def phase_cache_def ac_simps del: set_map)
qed

section \<open>Refinement\<close>

lemma ledger_deposit:
  assumes "sys_inflow s' = sys_inflow s @ x" and "held_total \<mu> s' = held_total \<mu> s + entries_total \<mu> x"
    and "sys_batches s' = sys_batches s" and "sys_discarded s' = sys_discarded s"
  shows "ledger_step (Deposit (entries_total \<mu> x)) (ledger_of \<mu> s) (ledger_of \<mu> s')"
  using ledger_step.deposit [of "entries_total \<mu> x" "ledger_of \<mu> s"] assms by (simp add: ledger_of_def)

lemma ledger_discard:
  assumes "held_total \<mu> s = held_total \<mu> s' + entries_total \<mu> x" and "sys_discarded s' = sys_discarded s @ x"
    and "sys_inflow s' = sys_inflow s" and "sys_batches s' = sys_batches s"
  shows "ledger_step (Discard (entries_total \<mu> x)) (ledger_of \<mu> s) (ledger_of \<mu> s')"
  using ledger_step.discard [of "ledger_of \<mu> s" "held_total \<mu> s'" "entries_total \<mu> x"] assms by (simp add: ledger_of_def)

lemma ledger_deliver:
  assumes "held_total \<mu> s = held_total \<mu> s' + entries_total \<mu> (bt_cache b)" and "sys_batches s' = sys_batches s @ [b]"
    and "sys_inflow s' = sys_inflow s" and "sys_discarded s' = sys_discarded s"
  shows "ledger_step (Deliver (entries_total \<mu> (bt_cache b))) (ledger_of \<mu> s) (ledger_of \<mu> s')"
  using ledger_step.deliver [of "ledger_of \<mu> s" "held_total \<mu> s'" "entries_total \<mu> (bt_cache b)"] assms
  by (simp add: ledger_of_def)

lemma ledger_of_step:
  assumes add: "additive (w_lib W) \<mu>" and ok: "channels_ok s" and step: "node_step W e s s'"
  shows "ledger_of \<mu> s' = ledger_of \<mu> s \<or> (\<exists>f. ledger_step f (ledger_of \<mu> s) (ledger_of \<mu> s'))"
  using step
proof (cases rule: node_step_kinds)
  case (quiet ps)
  with held_push [OF quiet(2,3), of \<mu>] show ?thesis by (simp add: ledger_of_def)
next
  case (work k)
  from held_work [OF add ok work(2,3)] work(4) ledger_deposit [of s' s] show ?thesis by force
next
  case round_start
  then have "held_total \<mu> s' = held_total \<mu> s" by (intro held_push) (simp_all add: start_round_def Let_def)
  with round_start show ?thesis by (simp add: ledger_of_def)
next
  case (round_end replies)
  then have "held_total \<mu> s' = held_total \<mu> s" by (intro held_push [of _ "[]"]) simp_all
  with round_end show ?thesis by (simp add: ledger_of_def)
next
  case interval_start
  with held_start_interval [OF ok, of \<mu> W] show ?thesis by (simp add: ledger_of_def)
next
  case (aggregate iv order)
  from held_aggregate [OF add ok aggregate(2-5)] aggregate(6) ledger_discard [of \<mu> s s'] show ?thesis by force
next
  case (collect iv acc msgs)
  note held = held_collect [OF ok collect(2,3), of \<mu> W]
  show ?thesis
  proof (cases rule: collect_interval_cases [where W = W and iv = iv and acc = acc and msgs = msgs and s = s])
    case (passed b)
    from ledger_deliver [of \<mu> s "collect_interval W iv acc msgs s" b] held passed(3,6,8) show ?thesis by (auto simp: collect(5))
  next
    case (lost b)
    from ledger_discard [of \<mu> s "collect_interval W iv acc msgs s" acc] held lost(6,8) show ?thesis by (auto simp: collect(5))
  qed
qed

lemma ledger_of_init:
  assumes "node_init W s"
  shows "ledger_init (ledger_of \<mu> s)"
proof -
  have "slot_total \<mu> opens (sys_slots s ! k) = 0" if "k < length (sys_slots s)" for k opens
    unfolding boot_slots [OF assms nth_mem [OF that]]
    by (simp add: slot_total_def boot_slot_def worker_new_def stored_def task_runner_new_def)
  moreover have "sys_intervals s = []" "sys_batches s = []" "sys_discarded s = []" "sys_inflow s = []"
    using assms by (auto simp: node_init_def boot_def)
  ultimately show ?thesis by (simp add: ledger_init_def ledger_of_def held_total_def)
qed

text \<open>Runs with a measure that \<open>aggregate\<close> adds up.\<close>

abbreviation measured_init :: "('w, 'r, 'm) world \<Rightarrow> (bytes \<Rightarrow> 'm \<Rightarrow> 'c::comm_monoid_add) \<Rightarrow> 'm system \<Rightarrow> bool" where
  "measured_init W \<mu> s \<equiv> node_init W s \<and> additive (w_lib W) \<mu>"

lemma reach_measured:
  "reach (measured_init W \<mu>) (node_step W) s \<longleftrightarrow> reach (node_init W) (node_step W) s \<and> additive (w_lib W) \<mu>"
proof
  show "reach (node_init W) (node_step W) s \<and> additive (w_lib W) \<mu>" if "reach (measured_init W \<mu>) (node_step W) s"
    using that by (induction rule: reach.induct) (auto intro: reach.intros)
  show "reach (measured_init W \<mu>) (node_step W) s" if "reach (node_init W) (node_step W) s \<and> additive (w_lib W) \<mu>"
  proof -
    from that have "reach (node_init W) (node_step W) s" and add: "additive (w_lib W) \<mu>" by simp_all
    then show ?thesis by (induction rule: reach.induct) (auto intro: reach.intros)
  qed
qed

interpretation node_ledger: refinement "measured_init W \<mu>" "node_step W" ledger_init ledger_step "ledger_of \<mu>" for W \<mu>
  by unfold_locales (auto simp: reach_measured ledger_of_init dest!: ledger_of_step [OF _ channels.reach_inv])

section \<open>Properties\<close>

text \<open>
  C3. The node refines the ledger. By every measure that \<open>aggregate\<close> adds up, a reachable state
  of the threads is a reachable state of the ledger, and each step of a listener, a worker, a
  timer, a peer or an interval is a deposit, a delivery or a discard of some amount, or does
  not touch the account at all. A delivery hands a batch to the carbon clients.
\<close>

theorem node_refines_ledger:
  fixes \<mu> :: "bytes \<Rightarrow> 'm \<Rightarrow> 'c::comm_monoid_add"
  assumes "additive (w_lib W) \<mu>" and "reach (node_init W) (node_step W) s"
  shows "reach ledger_init ledger_step (ledger_of \<mu> s) \<and>
    (\<forall>e s'. node_step W e s s' \<longrightarrow> ledger_of \<mu> s' = ledger_of \<mu> s \<or> (\<exists>f. ledger_step f (ledger_of \<mu> s) (ledger_of \<mu> s')))"
  using node_ledger.abs_reach [of W \<mu> s] node_ledger.abs_step [of W \<mu> s] assms by (auto simp: reach_measured)

theorem node_refines_ledger_witness:
  "reach ledger_init ledger_step (ledger_of (\<lambda>k v. v) (sample_state 12)) \<and>
    ledger_of (\<lambda>k v. v) (sample_state 12) = \<lparr>lg_in = 4, lg_held = 0, lg_delivered = 4, lg_discarded = (0 :: nat)\<rparr> \<and>
    (\<exists>f. ledger_step f (ledger_of (\<lambda>k v. v) (sample_state 11)) (ledger_of (\<lambda>k v. v) (sample_state 12) :: nat ledger))"
proof -
  have "ledger_of (\<lambda>k v. v) (sample_state 12) = \<lparr>lg_in = 4, lg_held = 0, lg_delivered = 4, lg_discarded = (0 :: nat)\<rparr>"
    and "lg_held (ledger_of (\<lambda>k v. v) (sample_state 11)) = (4 :: nat)"
    by code_simp+
  moreover have "node_step sample_world (sample_event 11) (sample_state 11) (sample_state 12)"
    using run_step [OF sample_run, of 11] by simp
  ultimately show ?thesis
    using node_refines_ledger [OF sample_world_additive sample_reach [of 12]]
      node_refines_ledger [OF sample_world_additive sample_reach [of 11]]
    by fastforce
qed

text \<open>
  C9. All that entered a worker is accounted for. In every reachable state, whatever the
  interleaving, what all workers ever took in is, by every measure that \<open>aggregate\<close> adds up,
  what the workers store and have answered to an open interval, what the open intervals have
  accumulated, what was split over carbon clients, and what was discarded.
\<close>

theorem node_conserves_metrics:
  fixes \<mu> :: "bytes \<Rightarrow> 'm \<Rightarrow> 'c::comm_monoid_add"
  assumes "additive (w_lib W) \<mu>" and "reach (node_init W) (node_step W) s"
  shows "entries_total \<mu> (sys_inflow s) =
    (\<Sum>k<length (sys_slots s). slot_total \<mu> (set (open_replies s k)) (sys_slots s ! k)) +
    (\<Sum>iv\<leftarrow>sys_intervals s. entries_total \<mu> (phase_cache (iv_phase iv))) +
    (\<Sum>b\<leftarrow>sys_batches s. entries_total \<mu> (bt_cache b)) + entries_total \<mu> (sys_discarded s)"
proof -
  have "reach ledger_init ledger_step (ledger_of \<mu> s)"
    using assms by (intro node_ledger.abs_reach [of W]) (simp add: reach_measured)
  from ledger.reach_inv [OF this] show ?thesis by (simp add: balanced_def ledger_of_def held_total_def ac_simps)
qed

theorem node_conserves_metrics_witness:
  "(\<Sum>k<length (sys_slots (sample_state 8)). slot_total (\<lambda>k v. v) (set (open_replies (sample_state 8) k)) (sys_slots (sample_state 8) ! k))
    = (4 :: nat)"
proof -
  have "(entries_total (\<lambda>k v. v) (sys_inflow (sample_state 8)), sys_intervals (sample_state 8), sys_batches (sample_state 8),
      sys_discarded (sample_state 8)) = (4 :: nat, [], [], [])"
    by code_simp
  then have "entries_total (\<lambda>k v. v) (sys_inflow (sample_state 8)) = (4 :: nat)" "sys_intervals (sample_state 8) = []"
      "sys_batches (sample_state 8) = []" "sys_discarded (sample_state 8) = []"
    by simp_all
  with node_conserves_metrics [OF sample_world_additive sample_reach [of 8]] show ?thesis by simp
qed

end
