(* ===== verification/Snapshots.thy ===== *)
theory Snapshots
  imports Ledger
begin

text \<open>
  Replication as a node does it, in every interleaving: each worker hands what entered it since
  its last snapshot to the next one, each snapshot round takes one answer from every worker,
  and each peer gets a sender with all answers of a round. So what a node sends to a peer is
  what entered the node, but for what came from peers itself and what the current snapshots
  still lack.
\<close>

section \<open>Channels of snapshots\<close>

definition snap_of :: "'m task \<Rightarrow> chan_id list" where
  "snap_of t = (case t of TakeSnapshot ch \<Rightarrow> [ch] | _ \<Rightarrow> [])"

definition snap_pending :: "'m slot \<Rightarrow> chan_id list" where
  "snap_pending sl = concat (map snap_of (sl_queue sl))"

definition snap_log :: "'m slot \<Rightarrow> (chan_id \<times> 'm cache) list" where
  "snap_log sl = snapshots (outbox (sl_worker sl))"

definition open_snaps :: "'m system \<Rightarrow> nat \<Rightarrow> chan_id list" where
  "open_snaps s k = map (\<lambda>replies. replies ! k) (sys_rounds s)"

definition snaps_ok :: "'m system \<Rightarrow> bool" where
  "snaps_ok s \<longleftrightarrow> (\<forall>replies \<in> set (sys_rounds s). length replies = length (sys_slots s)) \<and>
    (\<forall>k < length (sys_slots s).
      replies_ok (sys_fresh s) (open_snaps s k) (map fst (snap_log (sys_slots s ! k))) (snap_pending (sys_slots s ! k)))"

lemma snap_of_simps [simp]:
  "snap_of (TakeSnapshot ch) = [ch]" "ordinary t \<Longrightarrow> snap_of t = []" "snap_of (Rotate ch) = []" "snap_of (Aggregate d) = []"
  by (cases t; simp add: snap_of_def)+

lemma snapshots_run:
  "snapshots (outbox (run lib alive t w)) = snapshots (outbox w) @
    (case t of TakeSnapshot ch \<Rightarrow> if alive ch then [(ch, short (runner w))] else [] | _ \<Rightarrow> [])"
  by (cases t) (simp_all add: run_effects)

lemma snap_push:
  assumes "k < length slots" and "\<And>p. p \<in> set ps \<Longrightarrow> snap_of (snd p) = []"
  shows "snap_pending (push_all ps slots ! k) = snap_pending (slots ! k)" "snap_log (push_all ps slots ! k) = snap_log (slots ! k)"
  using assms by (auto simp: nth_push_all snap_pending_def snap_log_def)

lemma snaps_ok_push:
  assumes "snaps_ok s" and "sys_slots s' = push_all ps (sys_slots s)" and "\<And>p. p \<in> set ps \<Longrightarrow> snap_of (snd p) = []"
    and "sys_rounds s' = sys_rounds s" and "sys_fresh s \<le> sys_fresh s'"
  shows "snaps_ok s'"
  using assms(1,4,5) unfolding snaps_ok_def assms(2) open_snaps_def
  by (auto simp: snap_push [OF _ assms(3)] intro: replies_ok_mono)

lemma snapshot_alive:
  assumes "snaps_ok s" and "k < length (sys_slots s)" and "TakeSnapshot ch \<in> set (sl_queue (sys_slots s ! k))"
  shows "sys_alive s ch \<and> ch \<in> set (open_snaps s k)"
proof -
  have "ch \<in> set (snap_pending (sys_slots s ! k))" using assms(3) by (force simp: snap_pending_def)
  then have opened: "ch \<in> set (open_snaps s k)" using assms(1,2) by (auto simp: snaps_ok_def replies_ok_def)
  then obtain replies where "replies \<in> set (sys_rounds s)" "ch = replies ! k" by (auto simp: open_snaps_def)
  moreover from this(1) assms(1,2) have "replies ! k \<in> set replies" by (simp add: snaps_ok_def)
  ultimately have "sys_alive s ch" by (auto simp: sys_alive_def list_ex_iff)
  with opened show ?thesis by blast
qed

text \<open>What a worker does to its snapshots: it answers the one that it takes from its queue.\<close>

lemma snap_log_work:
  assumes "snaps_ok s" and "k < length (sys_slots s)" and "sl_queue (sys_slots s ! k) = t # q"
  shows "snap_log (sys_slots (work W k s) ! k) =
    snap_log (sys_slots s ! k) @ map (\<lambda>ch. (ch, short (runner (sl_worker (sys_slots s ! k))))) (snap_of t)"
proof -
  have "sys_alive s ch" if "t = TakeSnapshot ch" for ch
    using snapshot_alive [OF assms(1,2), of ch] that assms(3) by simp
  then show ?thesis
    unfolding slot_work [OF assms(2,2)] by (cases t) (simp_all add: assms(3) snap_log_def snapshots_run snap_of_def)
qed

lemma snaps_ok_work:
  assumes "snaps_ok s" and "k < length (sys_slots s)" and "sl_queue (sys_slots s ! k) \<noteq> []"
  shows "snaps_ok (work W k s)"
proof -
  obtain t q where q: "sl_queue (sys_slots s ! k) = t # q" using assms(3) by (cases "sl_queue (sys_slots s ! k)") auto
  have "replies_ok (sys_fresh s) (open_snaps s j) (map fst (snap_log (sys_slots (work W k s) ! j))) (snap_pending (sys_slots (work W k s) ! j))"
    if "j < length (sys_slots s)" for j
  proof (rule replies_ok_mono)
    show "replies_ok (sys_fresh s) (open_snaps s j) (map fst (snap_log (sys_slots s ! j))) (snap_pending (sys_slots s ! j))"
      using assms(1) that by (simp add: snaps_ok_def)
  next
    show "map fst (snap_log (sys_slots (work W k s) ! j)) @ snap_pending (sys_slots (work W k s) ! j) =
        map fst (snap_log (sys_slots s ! j)) @ snap_pending (sys_slots s ! j)"
    proof (cases "j = k")
      case True
      then show ?thesis
        unfolding True snap_log_work [OF assms(1,2) q]
        by (simp add: slot_work [OF assms(2,2)] snap_pending_def q comp_def)
    qed (simp add: slot_work [OF assms(2) that])
    show "set (snap_pending (sys_slots (work W k s) ! j)) \<subseteq> set (snap_pending (sys_slots s ! j))"
      using q by (auto simp: slot_work [OF assms(2) that] snap_pending_def)
  qed simp
  with assms(1) show ?thesis by (simp add: snaps_ok_def open_snaps_def)
qed

text \<open>A round begins: each worker is asked on a new channel.\<close>

lemma slot_start_round:
  assumes "k < length (sys_slots s)"
  shows "sys_slots (start_round s) ! k = (sys_slots s ! k)\<lparr>sl_queue := sl_queue (sys_slots s ! k) @ [TakeSnapshot (sys_fresh s + k)]\<rparr>"
  using assms by (simp add: start_round_def Let_def nth_push_all take_snapshots_def requests_for)

lemma open_snaps_start_round:
  "k < length (sys_slots s) \<Longrightarrow> open_snaps (start_round s) k = open_snaps s k @ [sys_fresh s + k]"
  by (simp add: open_snaps_def start_round_def Let_def)

lemma snaps_ok_start_round:
  assumes "snaps_ok s"
  shows "snaps_ok (start_round s)"
proof -
  have "replies_ok (sys_fresh (start_round s)) (open_snaps (start_round s) k) (map fst (snap_log (sys_slots (start_round s) ! k)))
      (snap_pending (sys_slots (start_round s) ! k))" if k: "k < length (sys_slots s)" for k
    using replies_ok_request [of "sys_fresh s" "open_snaps s k" "map fst (snap_log (sys_slots s ! k))" "snap_pending (sys_slots s ! k)"
        "sys_fresh s + k" "sys_fresh s + length (sys_slots s)"] assms k
    by (simp add: snaps_ok_def slot_start_round open_snaps_start_round snap_log_def snap_pending_def)
  then show ?thesis using assms by (auto simp: snaps_ok_def start_round_def Let_def)
qed

text \<open>A round ends: its channels are answered and leave the open ones.\<close>

lemma round_answer:
  assumes "None \<notin> set (round_answers replies slots)" and "k < length slots" and "length replies = length slots"
  shows "map_of (snap_log (slots ! k)) (replies ! k) = Some (the (round_answers replies slots ! k))"
proof -
  have "round_answers replies slots ! k \<in> set (round_answers replies slots)"
    using assms(2,3) by (intro nth_mem) (simp add: round_answers_def)
  with assms(1) have "round_answers replies slots ! k \<noteq> None" by metis
  then show ?thesis using assms(2,3) by (simp add: round_answers_def snapshot_answer_def snap_log_def)
qed

lemma open_snaps_closed:
  assumes "replies \<in> set rounds" and "distinct (map f rounds)"
  shows "distinct (map f (filter (\<lambda>r. r \<noteq> replies) rounds))"
    and "set (map f (filter (\<lambda>r. r \<noteq> replies) rounds)) = set (map f rounds) - {f replies}"
  using assms by (auto simp: distinct_map_filter distinct_map inj_on_def)

lemma sys_rounds_end_round [simp]: "sys_rounds (end_round W replies s) = filter (\<lambda>r. r \<noteq> replies) (sys_rounds s)"
  by (simp add: end_round_def split: prod.split sum.split)

lemma open_snaps_end_round:
  assumes "snaps_ok s" and "replies \<in> set (sys_rounds s)" and "k < length (sys_slots s)"
  shows "distinct (open_snaps (end_round W replies s) k)"
    and "set (open_snaps (end_round W replies s) k) = set (open_snaps s k) - {replies ! k}"
proof -
  have "distinct (open_snaps s k)" using assms(1,3) by (simp add: snaps_ok_def replies_ok_def)
  from open_snaps_closed [OF assms(2) this [unfolded open_snaps_def]]
  show "distinct (open_snaps (end_round W replies s) k)"
    and "set (open_snaps (end_round W replies s) k) = set (open_snaps s k) - {replies ! k}"
    by (simp_all only: open_snaps_def sys_rounds_end_round)
qed

lemma snaps_ok_end_round:
  assumes ok: "snaps_ok s" and replies: "replies \<in> set (sys_rounds s)" "None \<notin> set (round_answers replies (sys_slots s))"
  shows "snaps_ok (end_round W replies s)"
proof -
  have n: "length replies = length (sys_slots s)" using ok replies(1) by (simp add: snaps_ok_def)
  have "replies_ok (sys_fresh s) (open_snaps (end_round W replies s) k) (map fst (snap_log (sys_slots s ! k))) (snap_pending (sys_slots s ! k))"
    if k: "k < length (sys_slots s)" for k
  proof (rule replies_ok_closed [OF _ refl refl open_snaps_end_round [OF ok replies(1) k]])
    show "replies_ok (sys_fresh s) (open_snaps s k) (map fst (snap_log (sys_slots s ! k))) (snap_pending (sys_slots s ! k))"
      using ok k by (simp add: snaps_ok_def)
    show "replies ! k \<in> set (map fst (snap_log (sys_slots s ! k)))"
      using map_of_SomeD [OF round_answer [OF replies(2) k n]] by force
  qed
  with ok show ?thesis by (simp add: snaps_ok_def)
qed

lemma rotation_requests_snap: "p \<in> set (rotate_requests replies) \<Longrightarrow> snap_of (snd p) = []"
  using rotation_requests [of p replies] by auto

lemma snaps_ok_step:
  assumes "snaps_ok s" and "node_step W e s s'"
  shows "snaps_ok s'"
  using assms(2)
proof (cases rule: node_step_kinds)
  case (quiet ps)
  show ?thesis by (rule snaps_ok_push [OF assms(1) quiet(2)]) (use quiet in auto)
next
  case (work k)
  with assms(1) show ?thesis by (simp add: snaps_ok_work)
next
  case round_start
  with assms(1) show ?thesis by (simp add: snaps_ok_start_round)
next
  case (round_end replies)
  with assms(1) show ?thesis by (simp add: snaps_ok_end_round)
next
  case interval_start
  show ?thesis
    unfolding interval_start(2)
    by (rule snaps_ok_push [OF assms(1), of _ "rotate_requests [sys_fresh s + 1..<sys_fresh s + 1 + length (sys_slots s)]"])
      (simp_all add: start_interval_def Let_def rotation_requests_snap del: upt_Suc)
next
  case (aggregate iv order)
  obtain ps where ps: "sys_slots s' = push_all ps (sys_slots s)" "\<forall>p \<in> set ps. \<exists>d. snd p = Aggregate d \<and> ad_response d = iv_tx iv"
    using aggregate_interval_slots [of W iv order s] aggregate(6) by blast
  show ?thesis
    by (rule snaps_ok_push [OF assms(1) ps(1)])
      (use ps(2) in \<open>auto simp: aggregate(6) aggregate_interval_def Let_def split: sum.split prod.split\<close>)
next
  case (collect iv acc msgs)
  show ?thesis by (rule snaps_ok_push [OF assms(1), of _ "[]"]) (simp_all add: collect(5))
qed

lemma snaps_ok_init:
  assumes "node_init W s"
  shows "snaps_ok s"
proof -
  have "replies_ok 0 [] (map fst (snap_log (sys_slots s ! k))) (snap_pending (sys_slots s ! k))" if "k < length (sys_slots s)" for k
    unfolding boot_slots [OF assms nth_mem [OF that]]
    by (simp add: replies_ok_def snap_log_def snap_pending_def boot_slot_def worker_new_def)
  moreover have "sys_rounds s = []" "sys_fresh s = 0" using assms by (auto simp: node_init_def boot_def)
  ultimately show ?thesis by (simp add: snaps_ok_def open_snaps_def)
qed

interpretation snaps: invariant "node_init W" "node_step W" snaps_ok for W
  by unfold_locales (rule snaps_ok_init, assumption, rule snaps_ok_step)

section \<open>What the snapshots carry\<close>

text \<open>
  Where the metrics of a worker went, as far as replication goes: they wait in the short cache
  for the next snapshot, were answered to a snapshot request, or came from a peer and are not
  replicated again.
\<close>

definition replicated :: "'m slot \<Rightarrow> (bytes \<times> 'm) list" where
  "replicated sl = concat (map (\<lambda>t. case t of AddSnapshot kvs \<Rightarrow> kvs | _ \<Rightarrow> []) (sl_done sl))"

definition snap_total :: "(bytes \<Rightarrow> 'm \<Rightarrow> 'c::comm_monoid_add) \<Rightarrow> 'm slot \<Rightarrow> 'c" where
  "snap_total \<mu> sl = entries_total \<mu> (short (runner (sl_worker sl))) + log_total \<mu> UNIV (snap_log sl) + entries_total \<mu> (replicated sl)"

definition taken_in :: "(bytes \<Rightarrow> 'm \<Rightarrow> 'c::comm_monoid_add) \<Rightarrow> 'm system \<Rightarrow> bool" where
  "taken_in \<mu> s \<longleftrightarrow> entries_total \<mu> (sys_inflow s) = (\<Sum>k<length (sys_slots s). snap_total \<mu> (sys_slots s ! k))"

lemma snap_total_run:
  assumes "additive lib \<mu>" and "\<And>ch. t = TakeSnapshot ch \<Longrightarrow> alive ch"
  shows "snap_total \<mu> \<lparr>sl_queue = q, sl_worker = run lib alive t (w\<lparr>stats := c\<rparr>), sl_done = d @ [t]\<rparr> =
    snap_total \<mu> \<lparr>sl_queue = q', sl_worker = w, sl_done = d\<rparr> + entries_total \<mu> (inflow lib t (w\<lparr>stats := c\<rparr>))"
  using assms(2) by (cases t) (simp_all add: snap_total_def snap_log_def replicated_def snapshots_run runner_run runner_run_parse
      entries_total_put_metrics [OF assms(1)] entries_total_put_metric [OF assms(1)] ac_simps)

lemma snap_total_slot [simp]: "snap_total \<mu> \<lparr>sl_queue = q, sl_worker = sl_worker sl, sl_done = sl_done sl\<rparr> = snap_total \<mu> sl"
  by (simp add: snap_total_def snap_log_def replicated_def)

lemma taken_in_push:
  assumes "taken_in \<mu> s" and "sys_slots s' = push_all ps (sys_slots s)" and "sys_inflow s' = sys_inflow s"
  shows "taken_in \<mu> s'"
  using assms by (simp add: taken_in_def snap_total_def snap_log_def replicated_def nth_push_all)

lemma taken_in_work:
  assumes "additive (w_lib W) \<mu>" and "snaps_ok s" and "taken_in \<mu> s" and "k < length (sys_slots s)" and "sl_queue (sys_slots s ! k) \<noteq> []"
  shows "taken_in \<mu> (work W k s)"
proof -
  let ?sl = "sys_slots s ! k"
  have alive: "sys_alive s ch" if "hd (sl_queue ?sl) = TakeSnapshot ch" for ch
    using snapshot_alive [OF assms(2,4)] that assms(5) by (metis list.set_sel(1))
  have "snap_total \<mu> (sys_slots (work W k s) ! k) =
      snap_total \<mu> \<lparr>sl_queue = sl_queue ?sl, sl_worker = sl_worker ?sl, sl_done = sl_done ?sl\<rparr> +
      entries_total \<mu> (inflow (w_lib W) (hd (sl_queue ?sl)) ((sl_worker ?sl)\<lparr>stats := sys_stats s\<rparr>))"
    unfolding slot_work [OF assms(4,4)] if_P [OF refl] by (rule snap_total_run [OF assms(1) alive])
  then have "(\<Sum>j<length (sys_slots s). snap_total \<mu> (sys_slots (work W k s) ! j)) =
      (\<Sum>j<length (sys_slots s). snap_total \<mu> (sys_slots s ! j)) +
      entries_total \<mu> (inflow (w_lib W) (hd (sl_queue ?sl)) ((sl_worker ?sl)\<lparr>stats := sys_stats s\<rparr>))"
    using assms(4) by (intro sum_upd [of k]) (simp_all add: slot_work)
  with assms(3) show ?thesis by (simp add: taken_in_def work_def Let_def)
qed

lemma taken_in_step:
  assumes "additive (w_lib W) \<mu>" and "snaps_ok s" and "taken_in \<mu> s" and step: "node_step W e s s'"
  shows "taken_in \<mu> s'"
  using step_slots [OF step]
proof (elim disjE exE conjE)
  fix k assume "k < length (sys_slots s)" "sl_queue (sys_slots s ! k) \<noteq> []" "s' = work W k s"
  with taken_in_work [OF assms(1-3)] show ?thesis by simp
next
  fix ps assume no: "\<forall>k. e \<noteq> Work k" and ps: "sys_slots s' = push_all ps (sys_slots s)"
  have "sys_inflow s' = sys_inflow s"
    using step no by (cases rule: node_step_kinds) (auto simp: aggregate_interval_def Let_def split: sum.split prod.split)
  with assms(3) ps show ?thesis by (rule taken_in_push)
qed

text \<open>What the peer at an address was sent, and what the open rounds have of it so far.\<close>

definition sent_to :: "socket_addr \<Rightarrow> 'm system \<Rightarrow> (bytes \<times> 'm) list" where
  "sent_to a s = concat (map (\<lambda>snd. concat (snap_metrics snd)) (filter (\<lambda>snd. snap_address (snap_options snd) = a) (sys_senders s)))"

definition sent_ok :: "(bytes \<Rightarrow> 'm \<Rightarrow> 'c::comm_monoid_add) \<Rightarrow> socket_addr \<Rightarrow> 'm system \<Rightarrow> bool" where
  "sent_ok \<mu> a s \<longleftrightarrow>
    (\<Sum>k<length (sys_slots s). log_total \<mu> UNIV (snap_log (sys_slots s ! k))) =
    (\<Sum>k<length (sys_slots s). log_total \<mu> (set (open_snaps s k)) (snap_log (sys_slots s ! k))) + entries_total \<mu> (sent_to a s)"

lemma sent_ok_push:
  assumes "sent_ok \<mu> a s" and "sys_slots s' = push_all ps (sys_slots s)" and "sys_rounds s' = sys_rounds s"
    and "sys_senders s' = sys_senders s"
  shows "sent_ok \<mu> a s'"
  using assms by (simp add: sent_ok_def sent_to_def open_snaps_def snap_log_def nth_push_all)

lemma sum_upd2:
  fixes f g f' g' :: "nat \<Rightarrow> 'c::comm_monoid_add"
  assumes "(\<Sum>j<n. f j) = (\<Sum>j<n. g j) + y" and "k < n" and "f' k = f k + x" and "g' k = g k + x"
    and "\<And>j. j \<noteq> k \<Longrightarrow> j < n \<Longrightarrow> f' j = f j \<and> g' j = g j"
  shows "(\<Sum>j<n. f' j) = (\<Sum>j<n. g' j) + y"
  using sum_upd [of k n f' f x] sum_upd [of k n g' g x] assms by (simp add: ac_simps)

lemma sent_ok_work:
  assumes "snaps_ok s" and "sent_ok \<mu> a s" and k: "k < length (sys_slots s)" and "sl_queue (sys_slots s ! k) \<noteq> []"
  shows "sent_ok \<mu> a (work W k s)"
proof -
  obtain t q where q: "sl_queue (sys_slots s ! k) = t # q" using assms(4) by (cases "sl_queue (sys_slots s ! k)") auto
  have opened: "ch \<in> set (open_snaps s k)" if "t = TakeSnapshot ch" for ch
    using snapshot_alive [OF assms(1) k, of ch] that q by simp
  let ?new = "map (\<lambda>ch. (ch, short (runner (sl_worker (sys_slots s ! k))))) (snap_of t)"
  have "log_total \<mu> (set (open_snaps s k)) ?new = log_total \<mu> UNIV ?new"
    using opened by (cases t) (simp_all add: snap_of_def)
  moreover note log = snap_log_work [OF assms(1) k q, of W]
  ultimately have "(\<Sum>j<length (sys_slots s). log_total \<mu> UNIV (snap_log (sys_slots (work W k s) ! j))) =
      (\<Sum>j<length (sys_slots s). log_total \<mu> (set (open_snaps s j)) (snap_log (sys_slots (work W k s) ! j))) + entries_total \<mu> (sent_to a s)"
    by (intro sum_upd2 [OF assms(2) [unfolded sent_ok_def] k, of _ "log_total \<mu> UNIV ?new"]) (simp_all add: slot_work [OF k])
  then show ?thesis by (simp add: sent_ok_def sent_to_def open_snaps_def)
qed

lemma sent_ok_start_round:
  assumes "snaps_ok s" and "sent_ok \<mu> a s"
  shows "sent_ok \<mu> a (start_round s)"
proof -
  have "log_total \<mu> (set (open_snaps (start_round s) k)) (snap_log (sys_slots (start_round s) ! k)) =
      log_total \<mu> (set (open_snaps s k)) (snap_log (sys_slots s ! k))" if k: "k < length (sys_slots s)" for k
  proof -
    have "\<forall>ch \<in> fst ` set (snap_log (sys_slots s ! k)). ch < sys_fresh s"
      using assms(1) k by (simp add: snaps_ok_def replies_ok_def)
    then have "sys_fresh s + k \<notin> fst ` set (snap_log (sys_slots s ! k))" by (meson not_add_less1)
    then show ?thesis using k by (simp add: open_snaps_start_round slot_start_round snap_log_def log_total_open)
  qed
  moreover have "log_total \<mu> UNIV (snap_log (sys_slots (start_round s) ! k)) = log_total \<mu> UNIV (snap_log (sys_slots s ! k))"
    if "k < length (sys_slots s)" for k using that by (simp add: slot_start_round snap_log_def)
  moreover have "sys_senders (start_round s) = sys_senders s" by (simp add: start_round_def Let_def)
  ultimately show ?thesis using assms(2) by (simp add: sent_ok_def sent_to_def)
qed

lemma filter_once: "count_list xs a = 1 \<Longrightarrow> filter (\<lambda>x. x = a) xs = [a]"
proof (induction xs)
  case (Cons x xs)
  then show ?case by (cases "x = a") (auto simp: count_list_0_iff filter_empty_conv)
qed simp

lemma sent_to_end_round:
  assumes "count_list (w_peers W) a = 1" and "None \<notin> set (round_answers replies (sys_slots s))"
  shows "sent_to a (end_round W replies s) =
    sent_to a s @ concat (filter (\<lambda>m. 0 < length m) (map the (round_answers replies (sys_slots s))))"
  by (simp add: end_round_def snapshot_round_def join_snapshots_ok [OF assms(2)] sent_to_def filter_map comp_def filter_once [OF assms(1)])

lemma answers_total:
  "entries_total \<mu> (concat (filter (\<lambda>m. 0 < length m) ms)) = (\<Sum>k<length ms. entries_total \<mu> (ms ! k))"
proof (induction ms)
  case (Cons m ms)
  then show ?case by (cases "m = []") (simp_all add: sum.lessThan_Suc_shift del: sum.lessThan_Suc)
qed simp

lemma sent_ok_end_round:
  assumes ok: "snaps_ok s" and sent: "sent_ok \<mu> a s" and a: "count_list (w_peers W) a = 1"
    and replies: "replies \<in> set (sys_rounds s)" "None \<notin> set (round_answers replies (sys_slots s))"
  shows "sent_ok \<mu> a (end_round W replies s)"
proof -
  let ?s' = "end_round W replies s" and ?ans = "round_answers replies (sys_slots s)"
  have n: "length replies = length (sys_slots s)" using ok replies(1) by (simp add: snaps_ok_def)
  have "log_total \<mu> (set (open_snaps s k)) (snap_log (sys_slots s ! k)) =
      log_total \<mu> (set (open_snaps ?s' k)) (snap_log (sys_slots s ! k)) + entries_total \<mu> (the (?ans ! k))"
    if k: "k < length (sys_slots s)" for k
  proof -
    have "replies ! k \<in> set (open_snaps s k)" using replies(1) by (auto simp: open_snaps_def)
    with open_snaps_end_round(2) [OF ok replies(1) k, of W]
    have "set (open_snaps s k) = insert (replies ! k) (set (open_snaps ?s' k))" and "replies ! k \<notin> set (open_snaps ?s' k)"
      by auto
    moreover have "distinct (map fst (snap_log (sys_slots s ! k)))" using ok k by (simp add: snaps_ok_def replies_ok_def)
    ultimately show ?thesis using log_total_close [OF _ _ round_answer [OF replies(2) k n]] by simp
  qed
  then have "(\<Sum>k<length (sys_slots s). log_total \<mu> (set (open_snaps s k)) (snap_log (sys_slots s ! k))) =
      (\<Sum>k<length (sys_slots s). log_total \<mu> (set (open_snaps ?s' k)) (snap_log (sys_slots s ! k))) +
      (\<Sum>k<length (sys_slots s). entries_total \<mu> (the (?ans ! k)))"
    by (simp add: sum.distrib)
  moreover have "(\<Sum>k<length (sys_slots s). entries_total \<mu> (the (?ans ! k))) =
      entries_total \<mu> (concat (filter (\<lambda>m. 0 < length m) (map the ?ans)))"
    unfolding answers_total using n by (simp add: round_answers_def)
  ultimately show ?thesis
    using sent by (simp add: sent_ok_def sent_to_end_round [OF a replies(2)] ac_simps)
qed

lemma sent_ok_step:
  assumes ok: "snaps_ok s" "sent_ok \<mu> a s" and a: "count_list (w_peers W) a = 1" and "node_step W e s s'"
  shows "sent_ok \<mu> a s'"
  using assms(4)
proof (cases rule: node_step_kinds)
  case (quiet ps)
  then show ?thesis by (intro sent_ok_push [OF ok(2)])
next
  case (work k)
  with sent_ok_work [OF ok] show ?thesis by simp
next
  case round_start
  with sent_ok_start_round [OF ok] show ?thesis by simp
next
  case (round_end replies)
  with sent_ok_end_round [OF ok a] show ?thesis by simp
next
  case interval_start
  then show ?thesis
    by (intro sent_ok_push [OF ok(2), of _ "rotate_requests [sys_fresh s + 1..<sys_fresh s + 1 + length (sys_slots s)]"])
      (simp_all add: start_interval_def Let_def del: upt_Suc)
next
  case (aggregate iv order)
  obtain ps where "sys_slots s' = push_all ps (sys_slots s)" using aggregate_interval_slots [of W iv order s] aggregate(6) by blast
  then show ?thesis
    by (rule sent_ok_push [OF ok(2)]) (simp_all add: aggregate(6) aggregate_interval_def Let_def split: sum.split prod.split)
next
  case (collect iv acc msgs)
  then show ?thesis by (intro sent_ok_push [OF ok(2), of _ "[]"]) (simp_all add: collect(5))
qed

lemma boot_totals:
  assumes "node_init W s"
  shows "taken_in \<mu> s" "sent_ok \<mu> a s"
proof -
  have "snap_total \<mu> (sys_slots s ! k) = 0 \<and> log_total \<mu> opens (snap_log (sys_slots s ! k)) = 0" if "k < length (sys_slots s)" for k opens
    unfolding boot_slots [OF assms nth_mem [OF that]]
    by (simp add: snap_total_def snap_log_def replicated_def boot_slot_def worker_new_def task_runner_new_def)
  moreover have "sys_senders s = []" "sys_inflow s = []" using assms by (auto simp: node_init_def boot_def)
  ultimately show "taken_in \<mu> s" "sent_ok \<mu> a s" by (simp_all add: taken_in_def sent_ok_def sent_to_def)
qed

definition replication_ok :: "('w, 'r, 'm) world \<Rightarrow> (bytes \<Rightarrow> 'm \<Rightarrow> 'c::comm_monoid_add) \<Rightarrow> 'm system \<Rightarrow> bool" where
  "replication_ok W \<mu> s \<longleftrightarrow> taken_in \<mu> s \<and> (\<forall>a. count_list (w_peers W) a = 1 \<longrightarrow> sent_ok \<mu> a s)"

interpretation replication: invariant "measured_init W \<mu>" "node_step W" "replication_ok W \<mu>" for W \<mu>
  by unfold_locales
    (auto simp: replication_ok_def reach_measured boot_totals intro: taken_in_step sent_ok_step dest: snaps.reach_inv)

section \<open>Properties\<close>

text \<open>
  C7. What a node sends to a peer. By every measure that \<open>aggregate\<close> adds up, all that entered
  the workers of a node is, in every reachable state and for every peer that is configured once,
  what the senders to this peer were given, what came from peers as snapshots, what waits in the
  workers for the next snapshot, and what the workers have answered to rounds that are not
  complete. So a peer misses nothing but the two latter, and gets nothing twice.
\<close>

theorem peers_are_sent_everything:
  fixes \<mu> :: "bytes \<Rightarrow> 'm \<Rightarrow> 'c::comm_monoid_add"
  assumes "additive (w_lib W) \<mu>" and "reach (node_init W) (node_step W) s" and "count_list (w_peers W) a = 1"
  shows "entries_total \<mu> (sys_inflow s) =
    entries_total \<mu> (sent_to a s) +
    (\<Sum>k<length (sys_slots s). entries_total \<mu> (replicated (sys_slots s ! k))) +
    (\<Sum>k<length (sys_slots s). entries_total \<mu> (short (runner (sl_worker (sys_slots s ! k))))) +
    (\<Sum>k<length (sys_slots s). log_total \<mu> (set (open_snaps s k)) (snap_log (sys_slots s ! k)))"
proof -
  have "replication_ok W \<mu> s" using assms(1,2) by (intro replication.reach_inv) (simp add: reach_measured)
  then have "taken_in \<mu> s" "sent_ok \<mu> a s" using assms(3) by (simp_all add: replication_ok_def)
  then show ?thesis by (simp add: taken_in_def sent_ok_def snap_total_def sum.distrib ac_simps)
qed

text \<open>A datagram, a snapshot round, and a second datagram whose metric waits for the next one.\<close>

definition peer_world :: "((bytes \<times> nat) which, bytes \<times> nat, nat) world" where
  "peer_world = sample_world\<lparr>w_peers := [localhost 8136]\<rparr>"

definition peer_events :: "(bytes \<times> nat) which event list" where
  "peer_events =
    [Receive 0 (Datagram (''cpu'' @ [CHR 0x0A]) (SocketAddrV4 10 0 0 1 5)), Work 0, SnapshotTimer, Work 0, SnapshotsTaken [0],
     Receive 0 (Datagram (''mem'' @ [CHR 0x0A]) (SocketAddrV4 10 0 0 1 5)), Work 0]"

theorem peers_are_sent_everything_witness:
  "\<exists>s. node_exec_all peer_world peer_events sample_boot = Some s \<and>
    entries_total (\<lambda>k v. v) (sys_inflow s) = (2 :: nat) \<and> entries_total (\<lambda>k v. v) (sent_to (localhost 8136) s) = (1 :: nat) \<and>
    (\<Sum>k<length (sys_slots s). entries_total (\<lambda>k v. v) (short (runner (sl_worker (sys_slots s ! k))))) = (1 :: nat)"
proof -
  let ?total = "entries_total (\<lambda>k v. v) :: (bytes \<times> nat) list \<Rightarrow> nat"
  have cfg: "w_cfg peer_world = w_cfg sample_world" by (simp add: peer_world_def)
  have init: "node_init peer_world sample_boot" using sample_started by (simp add: node_init_def cfg)
  have run: "case node_exec_all peer_world peer_events sample_boot of None \<Rightarrow> False
    | Some s \<Rightarrow> ?total (sys_inflow s) = 2 \<and> ?total (sent_to (localhost 8136) s) = 1 \<and> length (sys_slots s) = 1 \<and>
        replicated (sys_slots s ! 0) = [] \<and> sys_rounds s = []"
    by code_simp
  then obtain s where s: "node_exec_all peer_world peer_events sample_boot = Some s" "?total (sys_inflow s) = 2"
      "?total (sent_to (localhost 8136) s) = 1" "length (sys_slots s) = 1" "replicated (sys_slots s ! 0) = []" "sys_rounds s = []"
    by (auto split: option.splits)
  have "reach (node_init peer_world) (node_step peer_world) s"
    by (rule node_exec_all_reach [OF s(1) reach_init [of "node_init peer_world", OF init]])
  moreover have "additive (w_lib peer_world) (\<lambda>k v. v)" using sample_world_additive by (simp add: peer_world_def)
  moreover have "count_list (w_peers peer_world) (localhost 8136) = 1" by (simp add: peer_world_def)
  ultimately have "?total (sys_inflow s) = ?total (sent_to (localhost 8136) s) + ?total (replicated (sys_slots s ! 0)) +
      ?total (short (runner (sl_worker (sys_slots s ! 0)))) + log_total (\<lambda>k v. v) {} (snap_log (sys_slots s ! 0))"
    using peers_are_sent_everything [of peer_world "\<lambda>k v. v" s "localhost 8136"] s(4,6) by (simp add: open_snaps_def)
  with s show ?thesis by simp
qed

end
