(* ===== verification/Rounds.thy ===== *)
theory Rounds
  imports Liveness Snapshots
begin

text \<open>
  Replication makes progress. In a run of the node in which no worker and no snapshot round is
  neglected forever, every round ends, and when the snapshot timer fires, everything that has
  entered the node by then, but for what came from its peers, is handed to senders sooner or
  later.
\<close>

section \<open>Rounds go on\<close>

text \<open>The snapshots that a worker has taken are those that it has answered.\<close>

definition snapped_ok :: "'m system \<Rightarrow> bool" where
  "snapped_ok s \<longleftrightarrow> (\<forall>k < length (sys_slots s). concat (map snap_of (sl_done (sys_slots s ! k))) = map fst (snap_log (sys_slots s ! k)))"

lemma snap_log_step:
  assumes "snaps_ok s" and "node_step W e s s'" and j: "j < length (sys_slots s)"
  shows "(e = Work j \<and> (\<exists>t q. sl_queue (sys_slots s ! j) = t # q \<and> s' = work W j s \<and>
      sl_done (sys_slots s' ! j) = sl_done (sys_slots s ! j) @ [t] \<and>
      snap_log (sys_slots s' ! j) = snap_log (sys_slots s ! j) @ map (\<lambda>ch. (ch, short (runner (sl_worker (sys_slots s ! j))))) (snap_of t))) \<or>
    (sl_done (sys_slots s' ! j) = sl_done (sys_slots s ! j) \<and> sl_worker (sys_slots s' ! j) = sl_worker (sys_slots s ! j))"
  using step_slots [OF assms(2)]
proof (elim disjE exE conjE)
  fix k
  assume "e = Work k" and k: "k < length (sys_slots s)" "sl_queue (sys_slots s ! k) \<noteq> []" "s' = work W k s"
  moreover obtain t q where q: "sl_queue (sys_slots s ! k) = t # q" using k(2) by (cases "sl_queue (sys_slots s ! k)") auto
  ultimately show ?thesis
    using snap_log_work [OF assms(1) k(1) q] j by (cases "j = k") (simp_all add: slot_work)
qed (use j in \<open>simp add: nth_push_all\<close>)

interpretation snapped: invariant "node_init W" "node_step W" snapped_ok for W
proof unfold_locales
  fix s
  assume init: "node_init W s"
  have "concat (map snap_of (sl_done (sys_slots s ! k))) = map fst (snap_log (sys_slots s ! k))" if "k < length (sys_slots s)" for k
    unfolding boot_slots [OF init nth_mem [OF that]] by (simp add: boot_slot_def worker_new_def snap_log_def)
  then show "snapped_ok s" by (simp add: snapped_ok_def)
next
  fix s e s'
  assume reached: "reach (node_init W) (node_step W) s" and ok: "snapped_ok s" and step: "node_step W e s s'"
  have "concat (map snap_of (sl_done (sys_slots s' ! k))) = map fst (snap_log (sys_slots s' ! k))" if "k < length (sys_slots s)" for k
    using snap_log_step [OF snaps.reach_inv [OF reached] step that] ok that by (auto simp: snapped_ok_def snap_log_def comp_def)
  then show "snapped_ok s'" by (simp add: snapped_ok_def length_slots_step [OF step])
qed

definition round_ready :: "chan_id list \<Rightarrow> 'm system \<Rightarrow> bool" where
  "round_ready replies s \<longleftrightarrow> replies \<in> set (sys_rounds s) \<and> None \<notin> set (round_answers replies (sys_slots s))"

definition rounds_fair :: "(nat \<Rightarrow> 'm system) \<Rightarrow> (nat \<Rightarrow> 'w event) \<Rightarrow> bool" where
  "rounds_fair \<sigma> \<epsilon> \<longleftrightarrow> (\<forall>replies. weakly_fair (round_ready replies) (\<lambda>e. e = SnapshotsTaken replies) \<sigma> \<epsilon>)"

lemma rounds_step:
  assumes "node_step W e s s'"
  shows "(e = SnapshotTimer \<and> s' = start_round s) \<or>
    (\<exists>replies. e = SnapshotsTaken replies \<and> s' = end_round W replies s) \<or>
    (sys_rounds s' = sys_rounds s \<and> sys_fresh s \<le> sys_fresh s' \<and> (\<forall>replies. e \<noteq> SnapshotsTaken replies))"
  using assms
proof (cases rule: node_step_kinds)
  case (quiet ps)
  with assms show ?thesis by (cases e) (auto elim: node_step.cases)
qed (auto simp: aggregate_interval_def start_interval_def Let_def split: sum.split prod.split)

lemma round_answered_iff:
  assumes "length replies = length slots"
  shows "None \<notin> set (round_answers replies slots) \<longleftrightarrow> (\<forall>k<length slots. replies ! k \<in> fst ` set (snap_log (slots ! k)))"
proof -
  have "length (round_answers replies slots) = length slots" using assms by (simp add: round_answers_def)
  then have "None \<notin> set (round_answers replies slots) \<longleftrightarrow> (\<forall>k<length slots. round_answers replies slots ! k \<noteq> None)"
    by (metis in_set_conv_nth)
  also have "\<dots> \<longleftrightarrow> (\<forall>k<length slots. replies ! k \<in> fst ` set (snap_log (slots ! k)))"
    using assms by (simp add: round_answers_def snapshot_answer_def snap_log_def map_of_eq_None_iff del: not_None_eq)
  finally show ?thesis .
qed

lemma log_grows:
  assumes "snaps_ok s" and "node_step W e s s'" and "k < length (sys_slots s)"
  shows "\<exists>new. snap_log (sys_slots s' ! k) = snap_log (sys_slots s ! k) @ new"
  using snap_log_step [OF assms] by (auto simp: snap_log_def)

lemma round_ready_step:
  assumes "snaps_ok s" and "node_step W e s s'" and "round_ready replies s"
  shows "round_ready replies s' \<or> replies \<notin> set (sys_rounds s')"
proof -
  have n: "length replies = length (sys_slots s)" using assms(1,3) by (simp add: snaps_ok_def round_ready_def)
  have "replies ! k \<in> fst ` set (snap_log (sys_slots s' ! k))" if "k < length (sys_slots s)" for k
    using assms(3) round_answered_iff [OF n] that log_grows [OF assms(1,2) that] by (auto simp: round_ready_def image_Un)
  then show ?thesis
    using round_answered_iff [of replies "sys_slots s'"] n length_slots_step [OF assms(2)] by (auto simp: round_ready_def)
qed

text \<open>Once all that was queued has run, every answer of a round is there.\<close>

lemma snapshots_arrive:
  assumes run: "node_run W \<sigma> \<epsilon>" and r: "replies \<in> set (sys_rounds (\<sigma> i))" and ij: "i \<le> j"
    and all: "\<forall>k<length (sys_slots (\<sigma> i)). length (hist (sys_slots (\<sigma> i) ! k)) \<le> length (sl_done (sys_slots (\<sigma> j) ! k))"
  shows "None \<notin> set (round_answers replies (sys_slots (\<sigma> j)))"
proof -
  note ok = snaps.reach_inv [OF run_reach [OF run]] and ans = snapped.reach_inv [OF run_reach [OF run]]
  have pos: "0 < length (sys_slots (\<sigma> i))" using reach_slots [OF run_reach [OF run]] by simp
  have len: "length (sys_slots (\<sigma> j)) = length (sys_slots (\<sigma> i))" using run_grows [OF run ij pos] by simp
  have "replies ! k \<in> fst ` set (snap_log (sys_slots (\<sigma> j) ! k))" if k: "k < length (sys_slots (\<sigma> i))" for k
  proof -
    let ?sl = "sys_slots (\<sigma> i) ! k" and ?sl' = "sys_slots (\<sigma> j) ! k"
    have "replies ! k \<in> set (open_snaps (\<sigma> i) k)" using r by (auto simp: open_snaps_def)
    then have "replies ! k \<in> set (map fst (snap_log ?sl) @ snap_pending ?sl)"
      using ok [of i] k by (auto simp: snaps_ok_def replies_ok_def)
    also have "map fst (snap_log ?sl) @ snap_pending ?sl = concat (map snap_of (hist ?sl))"
      using ans [of i] k by (simp add: snapped_ok_def snap_pending_def hist_def)
    finally have "replies ! k \<in> set (concat (map snap_of (hist ?sl)))" .
    moreover obtain ts where "hist ?sl' = hist ?sl @ ts" using run_grows [OF run ij k] by (auto simp: grows_def)
    then have "set (hist ?sl) \<subseteq> set (sl_done ?sl')" using all k by (intro set_prefix_done) (auto simp: hist_def)
    ultimately have "replies ! k \<in> set (concat (map snap_of (sl_done ?sl')))" by auto
    moreover have "concat (map snap_of (sl_done ?sl')) = map fst (snap_log ?sl')" using ans [of j] k len by (simp add: snapped_ok_def)
    ultimately show ?thesis by (metis list.set_map)
  qed
  moreover have "length replies = length (sys_slots (\<sigma> i))" using ok [of i] r by (simp add: snaps_ok_def)
  ultimately show ?thesis using round_answered_iff [of replies "sys_slots (\<sigma> j)"] len by simp
qed

lemma round_ends:
  assumes run: "node_run W \<sigma> \<epsilon>" and fair: "workers_fair \<sigma> \<epsilon>" "rounds_fair \<sigma> \<epsilon>" and r: "replies \<in> set (sys_rounds (\<sigma> i))"
  shows "\<exists>j\<ge>i. replies \<notin> set (sys_rounds (\<sigma> j))"
proof (rule ccontr)
  assume never: "\<not> (\<exists>j\<ge>i. replies \<notin> set (sys_rounds (\<sigma> j)))"
  obtain j where j: "i \<le> j"
    "\<forall>k<length (sys_slots (\<sigma> i)). length (hist (sys_slots (\<sigma> i) ! k)) \<le> length (sl_done (sys_slots (\<sigma> j) ! k))"
    using all_executed [OF run fair(1)] by blast
  have ready: "round_ready replies (\<sigma> j)"
    using never j(1) snapshots_arrive [OF run r j] by (auto simp: round_ready_def)
  have "\<exists>m\<ge>j. replies \<notin> set (sys_rounds (\<sigma> m))"
  proof (rule weak_fairness_rule [where P = "round_ready replies", OF run])
    show "weakly_fair (round_ready replies) (\<lambda>e. e = SnapshotsTaken replies) \<sigma> \<epsilon>" using fair(2) by (simp add: rounds_fair_def)
    fix e s s'
    assume reached: "reach (node_init W) (node_step W) s" and P: "round_ready replies s" and st: "node_step W e s s'"
    show "round_ready replies s' \<or> replies \<notin> set (sys_rounds s')" by (rule round_ready_step [OF snaps.reach_inv [OF reached] st P])
    assume "e = SnapshotsTaken replies"
    with rounds_step [OF st] show "replies \<notin> set (sys_rounds s')" by auto
  qed (use ready in auto)
  with never j(1) show False by (meson le_trans)
qed

text \<open>A round that is open was opened at a time when its channels were new, so it does not come back.\<close>

lemma fresh_step: "node_step W e s s' \<Longrightarrow> sys_fresh s \<le> sys_fresh s'"
  using rounds_step [of W e s s'] by (auto simp: start_round_def Let_def)

lemma fresh_mono:
  assumes "node_run W \<sigma> \<epsilon>" and "i \<le> j"
  shows "sys_fresh (\<sigma> i) \<le> sys_fresh (\<sigma> j)"
  using assms(2) by (induction rule: dec_induct) (auto intro: le_trans fresh_step [OF run_step [OF assms(1)]])

lemma round_old:
  assumes run: "node_run W \<sigma> \<epsilon>" and "i \<le> j" and "replies \<in> set (sys_rounds (\<sigma> j))"
    and k: "k < length (sys_slots (\<sigma> i))" and old: "replies ! k < sys_fresh (\<sigma> i)"
  shows "replies \<in> set (sys_rounds (\<sigma> i))"
  using assms(2,3)
proof (induction rule: dec_induct)
  case base
  then show ?case .
next
  case (step m)
  have n: "length (sys_slots (\<sigma> m)) = length (sys_slots (\<sigma> i))" using run_grows [OF run step(1) k] by simp
  have "replies \<in> set (sys_rounds (\<sigma> m))"
    using rounds_step [OF run_step [OF run, of m]] step.prems
  proof (elim disjE exE conjE)
    assume "\<sigma> (Suc m) = start_round (\<sigma> m)"
    moreover have "replies \<noteq> [sys_fresh (\<sigma> m)..<sys_fresh (\<sigma> m) + length (sys_slots (\<sigma> m))]"
      using old fresh_mono [OF run step(1)] k n by auto
    ultimately show ?thesis using step.prems by (auto simp: start_round_def Let_def)
  qed auto
  with step.IH show ?case by simp
qed

lemma rounds_end:
  assumes run: "node_run W \<sigma> \<epsilon>" and fair: "workers_fair \<sigma> \<epsilon>" "rounds_fair \<sigma> \<epsilon>"
  shows "\<exists>j\<ge>i. \<forall>replies \<in> set (sys_rounds (\<sigma> i)). \<forall>m\<ge>j. replies \<notin> set (sys_rounds (\<sigma> m))"
proof (rule eventually_all)
  fix replies
  assume r: "replies \<in> set (sys_rounds (\<sigma> i))"
  obtain j where j: "i \<le> j" "replies \<notin> set (sys_rounds (\<sigma> j))" using round_ends [OF assms r] by blast
  have pos: "0 < length (sys_slots (\<sigma> i))" using reach_slots [OF run_reach [OF run]] by simp
  have ok: "snaps_ok (\<sigma> i)" by (rule snaps.reach_inv [OF run_reach [OF run]])
  then have "\<forall>ch \<in> set (open_snaps (\<sigma> i) 0). ch < sys_fresh (\<sigma> i)"
    using pos unfolding snaps_ok_def replies_ok_def by blast
  then have "replies ! 0 < sys_fresh (\<sigma> i)" using r by (simp add: open_snaps_def)
  also have "\<dots> \<le> sys_fresh (\<sigma> j)" by (rule fresh_mono [OF run j(1)])
  finally have "replies ! 0 < sys_fresh (\<sigma> j)" .
  moreover have "0 < length (sys_slots (\<sigma> j))" using run_grows [OF run j(1) pos] pos by simp
  ultimately show "\<exists>j\<ge>i. \<forall>m\<ge>j. replies \<notin> set (sys_rounds (\<sigma> m))" using round_old [OF run] j by blast
qed simp

section \<open>What a snapshot hands on\<close>

text \<open>
  What a worker has of its own: what waits for the next snapshot, and what it has answered. A
  step adds to it, and taking a snapshot moves all of it to the answers.
\<close>

definition own_total :: "(bytes \<Rightarrow> 'm \<Rightarrow> nat) \<Rightarrow> 'm slot \<Rightarrow> nat" where
  "own_total \<mu> sl = entries_total \<mu> (short (runner (sl_worker sl))) + log_total \<mu> UNIV (snap_log sl)"

definition answered_total :: "(bytes \<Rightarrow> 'm \<Rightarrow> nat) \<Rightarrow> 'm slot \<Rightarrow> nat" where
  "answered_total \<mu> sl = log_total \<mu> UNIV (snap_log sl)"

lemma own_total_run:
  fixes \<mu> :: "bytes \<Rightarrow> 'm \<Rightarrow> nat"
  assumes "additive lib \<mu>" and "\<And>ch. t = TakeSnapshot ch \<Longrightarrow> alive ch"
  shows "own_total \<mu> \<lparr>sl_queue = q', sl_worker = w, sl_done = d'\<rparr> \<le>
    own_total \<mu> \<lparr>sl_queue = q, sl_worker = run lib alive t (w\<lparr>stats := c\<rparr>), sl_done = d\<rparr>"
  using assms(2) by (cases t) (simp_all add: own_total_def snap_log_def snapshots_run runner_run runner_run_parse
      entries_total_put_metrics [OF assms(1)] entries_total_put_metric [OF assms(1)])

lemma own_total_step:
  assumes "additive (w_lib W) \<mu>" and "snaps_ok s" and "node_step W e s s'" and j: "j < length (sys_slots s)"
  shows "own_total \<mu> (sys_slots s ! j) \<le> own_total \<mu> (sys_slots s' ! j)"
proof -
  let ?sl = "sys_slots s ! j"
  have eta: "own_total \<mu> \<lparr>sl_queue = q, sl_worker = sl_worker ?sl, sl_done = d\<rparr> = own_total \<mu> ?sl" for q d
    by (simp add: own_total_def snap_log_def)
  from snap_log_step [OF assms(2,3) j] show ?thesis
  proof (elim disjE exE conjE)
    fix t q
    assume q: "sl_queue ?sl = t # q" and s': "s' = work W j s"
    have "sys_alive s ch" if "t = TakeSnapshot ch" for ch using snapshot_alive [OF assms(2) j, of ch] that q by simp
    then show ?thesis
      unfolding s' slot_work [OF j j]
      using own_total_run [OF assms(1), where t = t and alive = "sys_alive s" and w = "sl_worker ?sl" and c = "sys_stats s"]
      by (simp add: q eta)
  qed (simp add: own_total_def snap_log_def)
qed

lemma answered_total_step:
  assumes "snaps_ok s" and "node_step W e s s'" and "j < length (sys_slots s)"
  shows "answered_total \<mu> (sys_slots s ! j) \<le> answered_total \<mu> (sys_slots s' ! j)"
  using log_grows [OF assms] by (auto simp: answered_total_def)

lemma timer_step: "node_step W SnapshotTimer s s' \<Longrightarrow> s' = start_round s"
  by (auto elim: node_step.cases)

text \<open>The request of a round that begins at time \<open>i\<close> stands behind all that was queued at that time.\<close>

lemma snapshot_hands_on:
  assumes add: "additive (w_lib W) \<mu>" and run: "node_run W \<sigma> \<epsilon>" and timer: "\<epsilon> i = SnapshotTimer"
    and k: "k < length (sys_slots (\<sigma> i))" and ij: "Suc i \<le> j"
  shows "(length (sl_done (sys_slots (\<sigma> j) ! k)) \<le> length (hist (sys_slots (\<sigma> i) ! k)) \<and>
      own_total \<mu> (sys_slots (\<sigma> i) ! k) \<le> own_total \<mu> (sys_slots (\<sigma> j) ! k)) \<or>
    own_total \<mu> (sys_slots (\<sigma> i) ! k) \<le> answered_total \<mu> (sys_slots (\<sigma> j) ! k)"
  using ij
proof (induction rule: dec_induct)
  case base
  have "\<sigma> (Suc i) = start_round (\<sigma> i)" using run_step [OF run, of i] timer by (simp add: timer_step)
  with k show ?case by (simp add: slot_start_round own_total_def snap_log_def hist_def)
next
  case (step m)
  let ?sl = "sys_slots (\<sigma> m) ! k" and ?sl' = "sys_slots (\<sigma> (Suc m)) ! k"
  have first: "\<sigma> (Suc i) = start_round (\<sigma> i)" using run_step [OF run, of i] timer by (simp add: timer_step)
  have k1: "k < length (sys_slots (\<sigma> (Suc i)))" using k by (simp add: first)
  have km: "k < length (sys_slots (\<sigma> m))" using run_grows [OF run step(1) k1] k1 by simp
  note ok = snaps.reach_inv [OF run_reach [OF run, of m]] and st = run_step [OF run, of m]
  from step.IH show ?case
  proof (elim disjE conjE)
    assume before: "length (sl_done ?sl) \<le> length (hist (sys_slots (\<sigma> i) ! k))"
      and own: "own_total \<mu> (sys_slots (\<sigma> i) ! k) \<le> own_total \<mu> ?sl"
    show ?thesis
    proof (cases "length (sl_done ?sl') \<le> length (hist (sys_slots (\<sigma> i) ! k))")
      case True
      with own own_total_step [OF add ok st km] show ?thesis by simp
    next
      case False
      with snap_log_step [OF ok st km] before obtain t q where q: "sl_queue ?sl = t # q"
          "snap_log ?sl' = snap_log ?sl @ map (\<lambda>ch. (ch, short (runner (sl_worker ?sl)))) (snap_of t)"
        by auto
      have len: "length (sl_done ?sl) = length (hist (sys_slots (\<sigma> i) ! k))"
        using False before snap_log_step [OF ok st km] by auto
      obtain ts where "hist ?sl = hist (sys_slots (\<sigma> (Suc i)) ! k) @ ts" using run_grows [OF run step(1) k1] by (auto simp: grows_def)
      then have "hist ?sl = hist (sys_slots (\<sigma> i) ! k) @ TakeSnapshot (sys_fresh (\<sigma> i) + k) # ts"
        using k by (simp add: first slot_start_round hist_def)
      then have "t = TakeSnapshot (sys_fresh (\<sigma> i) + k)"
        using len q(1) by (simp add: hist_def [of ?sl] append_eq_append_conv)
      with own q(2) show ?thesis by (simp add: own_total_def answered_total_def)
    qed
  qed (use answered_total_step [OF ok st km, of \<mu>] in simp)
qed

lemma round_hands_on:
  assumes "additive (w_lib W) \<mu>" and run: "node_run W \<sigma> \<epsilon>" and "workers_fair \<sigma> \<epsilon>" and timer: "\<epsilon> i = SnapshotTimer"
  shows "\<exists>j\<ge>i. \<forall>k<length (sys_slots (\<sigma> i)). own_total \<mu> (sys_slots (\<sigma> i) ! k) \<le> answered_total \<mu> (sys_slots (\<sigma> j) ! k)"
proof -
  have first: "\<sigma> (Suc i) = start_round (\<sigma> i)" using run_step [OF run, of i] timer by (simp add: timer_step)
  obtain j where j: "Suc i \<le> j"
    "\<forall>k<length (sys_slots (\<sigma> i)). length (hist (sys_slots (\<sigma> (Suc i)) ! k)) \<le> length (sl_done (sys_slots (\<sigma> j) ! k))"
    using all_executed [OF run assms(3), of "Suc i"] by (auto simp: first)
  have "own_total \<mu> (sys_slots (\<sigma> i) ! k) \<le> answered_total \<mu> (sys_slots (\<sigma> j) ! k)" if k: "k < length (sys_slots (\<sigma> i))" for k
  proof -
    have "length (hist (sys_slots (\<sigma> (Suc i)) ! k)) = Suc (length (hist (sys_slots (\<sigma> i) ! k)))"
      using k by (simp add: first slot_start_round hist_def)
    with j(2) k have "\<not> length (sl_done (sys_slots (\<sigma> j) ! k)) \<le> length (hist (sys_slots (\<sigma> i) ! k))" by auto
    with snapshot_hands_on [OF assms(1) run timer k j(1)] show ?thesis by blast
  qed
  with j(1) show ?thesis by (meson Suc_leD)
qed

text \<open>Once the rounds of some time are closed, the answers of that time have gone to the senders.\<close>

lemma run_log_grows:
  assumes run: "node_run W \<sigma> \<epsilon>" and "i \<le> j" and k: "k < length (sys_slots (\<sigma> i))"
  shows "\<exists>new. snap_log (sys_slots (\<sigma> j) ! k) = snap_log (sys_slots (\<sigma> i) ! k) @ new"
  using assms(2)
proof (induction rule: dec_induct)
  case (step m)
  have "k < length (sys_slots (\<sigma> m))" using run_grows [OF run step(1) k] k by simp
  from log_grows [OF snaps.reach_inv [OF run_reach [OF run]] run_step [OF run] this] step.IH show ?case by auto
qed simp

lemma log_total_disjoint: "fst ` set lg \<inter> opens = {} \<Longrightarrow> log_total \<mu> opens lg = 0"
  by (induction lg) auto

lemma log_total_le: "log_total \<mu> opens lg \<le> log_total (\<mu> :: bytes \<Rightarrow> 'm \<Rightarrow> nat) UNIV lg"
  by (induction lg) auto

lemma closed_answers:
  assumes run: "node_run W \<sigma> \<epsilon>" and "i \<le> j" and k: "k < length (sys_slots (\<sigma> i))"
    and closed: "\<forall>replies \<in> set (sys_rounds (\<sigma> i)). replies \<notin> set (sys_rounds (\<sigma> j))"
  shows "answered_total \<mu> (sys_slots (\<sigma> i) ! k) + log_total \<mu> (set (open_snaps (\<sigma> j) k)) (snap_log (sys_slots (\<sigma> j) ! k))
    \<le> answered_total \<mu> (sys_slots (\<sigma> j) ! k)"
proof -
  obtain new where new: "snap_log (sys_slots (\<sigma> j) ! k) = snap_log (sys_slots (\<sigma> i) ! k) @ new"
    using run_log_grows [OF assms(1-3)] by blast
  have "snaps_ok (\<sigma> i)" by (rule snaps.reach_inv [OF run_reach [OF run]])
  then have old: "\<forall>ch \<in> fst ` set (snap_log (sys_slots (\<sigma> i) ! k)). ch < sys_fresh (\<sigma> i)"
    using k by (simp add: snaps_ok_def replies_ok_def)
  have "ch \<notin> set (open_snaps (\<sigma> j) k)" if "ch \<in> fst ` set (snap_log (sys_slots (\<sigma> i) ! k))" for ch
  proof
    assume "ch \<in> set (open_snaps (\<sigma> j) k)"
    then obtain replies where "replies \<in> set (sys_rounds (\<sigma> j))" "ch = replies ! k" by (auto simp: open_snaps_def)
    moreover from this(2) old that have "replies ! k < sys_fresh (\<sigma> i)" by blast
    ultimately show False using round_old [OF run assms(2) _ k, of replies] closed by metis
  qed
  then have "log_total \<mu> (set (open_snaps (\<sigma> j) k)) (snap_log (sys_slots (\<sigma> i) ! k)) = 0"
    by (intro log_total_disjoint) blast
  with log_total_le [of \<mu> "set (open_snaps (\<sigma> j) k)" new] show ?thesis by (simp add: answered_total_def new)
qed

section \<open>Properties\<close>

text \<open>
  C6. What enters a node reaches its peers. If no worker and no snapshot round is neglected
  forever, then after a tick of the snapshot timer there comes a time at which the senders to a
  peer, which is configured once, were given everything that had entered the workers before the
  tick, by every measure that \<open>aggregate\<close> adds up, but for what had come from peers itself.
\<close>

theorem metrics_reach_peers:
  fixes \<mu> :: "bytes \<Rightarrow> 'm \<Rightarrow> nat"
  assumes "additive (w_lib W) \<mu>" and "is_run (node_init W) (node_step W) \<sigma> \<epsilon>" and "workers_fair \<sigma> \<epsilon>" and "rounds_fair \<sigma> \<epsilon>"
    and "count_list (w_peers W) a = 1" and "\<epsilon> i = SnapshotTimer"
  shows "\<exists>j\<ge>i. entries_total \<mu> (sys_inflow (\<sigma> i)) \<le>
    entries_total \<mu> (sent_to a (\<sigma> j)) + (\<Sum>k<length (sys_slots (\<sigma> i)). entries_total \<mu> (replicated (sys_slots (\<sigma> i) ! k)))"
proof -
  let ?n = "length (sys_slots (\<sigma> i))"
  obtain m where m: "i \<le> m" "\<forall>k<?n. own_total \<mu> (sys_slots (\<sigma> i) ! k) \<le> answered_total \<mu> (sys_slots (\<sigma> m) ! k)"
    using round_hands_on [OF assms(1-3,6)] by blast
  obtain j where j: "m \<le> j" "\<forall>replies \<in> set (sys_rounds (\<sigma> m)). replies \<notin> set (sys_rounds (\<sigma> j))"
    using rounds_end [OF assms(2-4)] by (meson order_refl)
  have pos: "0 < ?n" using reach_slots [OF run_reach [OF assms(2)]] by simp
  have len: "length (sys_slots (\<sigma> m)) = ?n" "length (sys_slots (\<sigma> j)) = ?n"
    using run_grows [OF assms(2) m(1) pos] run_grows [OF assms(2) le_trans [OF m(1) j(1)] pos] by simp_all
  have ok: "replication_ok W \<mu> (\<sigma> t)" for t
    using assms(1) run_reach [OF assms(2)] by (intro replication.reach_inv) (simp add: reach_measured)
  have sent: "(\<Sum>k<?n. answered_total \<mu> (sys_slots (\<sigma> j) ! k)) =
      (\<Sum>k<?n. log_total \<mu> (set (open_snaps (\<sigma> j) k)) (snap_log (sys_slots (\<sigma> j) ! k))) + entries_total \<mu> (sent_to a (\<sigma> j))"
    using ok [of j] assms(5) by (simp add: replication_ok_def sent_ok_def answered_total_def len)
  have "own_total \<mu> (sys_slots (\<sigma> i) ! k) + log_total \<mu> (set (open_snaps (\<sigma> j) k)) (snap_log (sys_slots (\<sigma> j) ! k))
      \<le> answered_total \<mu> (sys_slots (\<sigma> j) ! k)" if "k < ?n" for k
    using closed_answers [OF assms(2) j(1) _ j(2), of k \<mu>] m(2) that len by (auto intro: order_trans)
  then have "(\<Sum>k<?n. own_total \<mu> (sys_slots (\<sigma> i) ! k)) +
      (\<Sum>k<?n. log_total \<mu> (set (open_snaps (\<sigma> j) k)) (snap_log (sys_slots (\<sigma> j) ! k)))
      \<le> (\<Sum>k<?n. answered_total \<mu> (sys_slots (\<sigma> j) ! k))"
    unfolding sum.distrib [symmetric] by (intro sum_mono) simp
  with sent have "(\<Sum>k<?n. own_total \<mu> (sys_slots (\<sigma> i) ! k)) \<le> entries_total \<mu> (sent_to a (\<sigma> j))" by linarith
  moreover have "entries_total \<mu> (sys_inflow (\<sigma> i)) =
      (\<Sum>k<?n. own_total \<mu> (sys_slots (\<sigma> i) ! k)) + (\<Sum>k<?n. entries_total \<mu> (replicated (sys_slots (\<sigma> i) ! k)))"
    using ok [of i] by (simp add: replication_ok_def taken_in_def snap_total_def own_total_def sum.distrib)
  ultimately show ?thesis using m(1) j(1) by (intro exI [of _ j]) simp
qed

theorem metrics_reach_peers_witness:
  "\<exists>j\<ge>2. 1 \<le> entries_total (\<lambda>k v. v) (sent_to (localhost 8136) (exec_state peer_world peer_events sample_boot j))"
proof -
  let ?\<sigma> = "exec_state peer_world peer_events sample_boot"
  have "w_cfg peer_world = w_cfg sample_world" by (simp add: peer_world_def)
  then have init: "node_init peer_world sample_boot" using sample_started by (simp add: node_init_def)
  have complete: "node_exec_all peer_world peer_events sample_boot \<noteq> None" by code_simp
  have last: "let s = ?\<sigma> (length peer_events) in
      sys_conns s 1 = None \<and> length (sys_slots s) = 1 \<and> sl_queue (sys_slots s ! 0) = [] \<and> sys_rounds s = []"
    by code_simp
  then have run: "is_run (node_init peer_world) (node_step peer_world) ?\<sigma> (exec_event peer_events)"
    by (intro exec_run [OF init complete]) (simp add: Let_def)
  have "workers_fair ?\<sigma> (exec_event peer_events)"
    unfolding workers_fair_def by (intro allI exec_weakly_fair) (use last in \<open>auto simp: Let_def neq0_conv [symmetric] simp del: neq0_conv\<close>)
  moreover have "rounds_fair ?\<sigma> (exec_event peer_events)"
    unfolding rounds_fair_def by (intro allI exec_weakly_fair) (use last in \<open>simp add: Let_def round_ready_def\<close>)
  moreover have "additive (w_lib peer_world) (\<lambda>k v. v)" using sample_world_additive by (simp add: peer_world_def)
  moreover have "count_list (w_peers peer_world) (localhost 8136) = 1" by (simp add: peer_world_def)
  moreover have "exec_event peer_events 2 = SnapshotTimer" by (simp add: exec_event_def peer_events_def)
  moreover have "let s = ?\<sigma> 2 in length (sys_slots s) = 1 \<and> replicated (sys_slots s ! 0) = [] \<and> entries_total (\<lambda>k v. v) (sys_inflow s) = 1"
    by code_simp
  ultimately show ?thesis
    using metrics_reach_peers [OF _ run, of "\<lambda>k v. v" "localhost 8136" 2] by (simp add: Let_def)
qed

end
