(* ===== verification/Delivery.thy ===== *)
theory Delivery
  imports Channels
begin

text \<open>
  The bytes of a sender on their way through the node, in every interleaving of listeners and
  workers: what was received is in the buffer of a listener, was dropped with the buffers of a
  listener that stopped, or has been passed on, and what was passed on to a worker is in its queue or has been executed, in the order of the sends.
\<close>

section \<open>What a listener sends\<close>

text \<open>The parse tasks in the queue of worker \<open>k\<close>.\<close>

definition worker_queue :: "nat \<Rightarrow> 'a net \<Rightarrow> 'm task list" where
  "worker_queue k net = map (\<lambda>p. Parse (ps_hash p) (ps_payload p))
    (filter (\<lambda>p. ps_chan p = k \<and> ps_accepted p) (net_log net))"

lemma worker_queue_cong: "net_log net' = net_log net \<Longrightarrow> worker_queue k net' = worker_queue k net"
  by (simp add: worker_queue_def)

lemma fold_server_flush_appends:
  "\<exists>ps. net_log (snd (fold (server_flush hash (\<lambda>k. True) cfg n) m (nxt, net))) = net_log net @ ps \<and> (\<forall>p \<in> set ps. ps_accepted p)"
proof (induction m arbitrary: nxt net)
  case (Cons e m)
  obtain nxt' net' where step: "server_flush hash (\<lambda>k. True) cfg n e (nxt, net) = (nxt', net')"
    by (cases "server_flush hash (\<lambda>k. True) cfg n e (nxt, net)")
  then obtain p where p: "net_log net' = net_log net @ [p]" "ps_accepted p"
    by (cases e) (auto simp: server_flush_def Let_def case_prod_unfold)
  obtain ps where "net_log (snd (fold (server_flush hash (\<lambda>k. True) cfg n) m (nxt', net'))) = net_log net' @ ps" "\<forall>p \<in> set ps. ps_accepted p"
    using Cons.IH [of nxt' net'] by blast
  with p step show ?case by (intro exI [of _ "p # ps"]) simp
qed simp

lemma server_receive_appends:
  assumes "server_receive hash (\<lambda>k. True) n r srv net = Inr (res, net')"
  shows "\<exists>ps. net_log net' = net_log net @ ps \<and> (\<forall>p \<in> set ps. ps_accepted p)"
  using assms fold_server_flush_appends [of hash "server_config srv" n _ "next_chan srv" "net\<lparr>net_stats := c, flush_flags := f\<rparr>" for c f]
  by (auto simp: server_receive_def Let_def case_prod_unfold split: received.splits if_splits)

lemma fold_mm_flush_appends:
  "\<exists>ps. net_log (snd (fold (mm_flush hash (\<lambda>k. True) cfg n messages) m s)) = net_log (snd s) @ ps \<and> (\<forall>p \<in> set ps. ps_accepted p)"
proof (induction m arbitrary: s)
  case (Cons e m)
  obtain p where p: "net_log (snd (mm_flush hash (\<lambda>k. True) cfg n messages e s)) = net_log (snd s) @ [p]" "ps_accepted p"
    by (cases e; cases s) (auto simp: mm_flush_def Let_def case_prod_unfold)
  obtain ps where "net_log (snd (fold (mm_flush hash (\<lambda>k. True) cfg n messages) m (mm_flush hash (\<lambda>k. True) cfg n messages e s))) =
      net_log (snd (mm_flush hash (\<lambda>k. True) cfg n messages e s)) @ ps" "\<forall>p \<in> set ps. ps_accepted p"
    using Cons.IH [of "mm_flush hash (\<lambda>k. True) cfg n messages e s"] by blast
  with p show ?case by (intro exI [of _ "p # ps"]) simp
qed simp

lemma mm_call_appends:
  assumes "mm_call recvmmsg hash (\<lambda>k. True) cfg n i rowsize batch s = Inr (st', net')"
  shows "\<exists>ps. net_log net' = net_log (snd s) @ ps \<and> (\<forall>p \<in> set ps. ps_accepted p)"
proof -
  have "\<exists>ps. net_log (snd (fold (mm_flush hash (\<lambda>k. True) cfg n messages) m (pos, (snd s)\<lparr>net_stats := c, flush_flags := f\<rparr>))) =
      net_log (snd s) @ ps \<and> (\<forall>p \<in> set ps. ps_accepted p)" for messages m pos c f
    using fold_mm_flush_appends [of hash cfg n messages m "(pos, (snd s)\<lparr>net_stats := c, flush_flags := f\<rparr>)"] by simp
  with assms show ?thesis
    by (auto simp: mm_call_def mm_round_def Let_def case_prod_unfold split: sum.splits if_splits)
qed

text \<open>A listener and its surroundings after one receive. A listener that stops drops its buffers.\<close>

lemma server_receive_bytes:
  assumes "server_ok n (srv, net)" and "server_receive hash accepts n r srv net = Inr (res, net')"
  shows "length (flush_flags net') = length (flush_flags net) \<and>
    (case res of
       Some srv' \<Rightarrow> server_ok n (srv', net') \<and>
         flushed net' a @ pending (bufmap srv') a = flushed net a @ pending (bufmap srv) a @ payload_from (arrival r) a
     | None \<Rightarrow> server_ok n (srv\<lparr>bufmap := []\<rparr>, net') \<and> flushed net' a = flushed net a \<and> payload_from (arrival r) a = [])"
proof (cases r)
  case (RecvError e)
  with assms show ?thesis by (auto simp: server_receive_def arrival_def server_ok_def hm_wf_def hm_keys_def)
next
  case (Datagram payload addr)
  show ?thesis
  proof (cases "payload = []")
    case True
    with assms Datagram show ?thesis by (auto simp: server_receive_def arrival_def server_ok_def Let_def hm_wf_def hm_keys_def)
  next
    case False
    have "length (flush_flags net') = length (flush_flags net)"
      using assms(2) False
      by (auto simp: Datagram server_receive_def Let_def case_prod_unfold fold_server_flush_flags split: if_splits)
    with server_receive_datagram [OF assms(1) False, of hash accepts addr a] assms(2) show ?thesis
      by (auto simp: Datagram arrival_def)
  qed
qed

section \<open>The invariant\<close>

text \<open>A node has listeners or threads of the multimessage mode, not both.\<close>

definition one_mode :: "'m system \<Rightarrow> bool" where
  "one_mode s \<longleftrightarrow> sys_listeners s = [] \<and> net_log (sys_net s) = [] \<or> sys_mm s = [] \<and> net_log (sys_mm_net s) = []"

definition parse_tasks :: "nat \<Rightarrow> 'm system \<Rightarrow> 'm task list" where
  "parse_tasks k s = filter is_Parse (sl_done (sys_slots s ! k) @ sl_queue (sys_slots s ! k))"

definition delivery_ok :: "'m system \<Rightarrow> bool" where
  "delivery_ok s \<longleftrightarrow> sys_slots s \<noteq> [] \<and>
    (\<forall>p \<in> set (sys_listeners s). server_ok (length (sys_slots s)) (fst p, sys_net s)) \<and>
    (\<forall>a. mset (payload_from (sys_received s) a) =
       mset (flushed (sys_net s) a) + mset (payload_from (sys_dropped s) a) +
       (\<Sum>p\<leftarrow>sys_listeners s. mset (pending (bufmap (fst p)) a))) \<and>
    ((\<forall>p \<in> set (sys_listeners s). snd p) \<longrightarrow> sys_dropped s = []) \<and>
    all_accepted (sys_net s) \<and> all_accepted (sys_mm_net s) \<and> one_mode s \<and>
    (\<forall>k < length (sys_slots s). parse_tasks k s = worker_queue k (sys_net s) @ worker_queue k (sys_mm_net s))"

lemma sum_list_nth_update:
  fixes f :: "'x \<Rightarrow> 'c::comm_monoid_add"
  assumes "l < length xs" and "u + f y = v + f (xs ! l) + w"
  shows "u + (\<Sum>x\<leftarrow>xs[l := y]. f x) = v + (\<Sum>x\<leftarrow>xs. f x) + w"
proof -
  have split: "(\<Sum>x\<leftarrow>xs[l := z]. f x) = f z + (\<Sum>x\<leftarrow>take l xs @ drop (Suc l) xs. f x)" for z
    using assms(1) by (simp add: upd_conv_take_nth_drop ac_simps)
  have "(\<Sum>x\<leftarrow>xs. f x) = f (xs ! l) + (\<Sum>x\<leftarrow>take l xs @ drop (Suc l) xs. f x)"
    using split [of "xs ! l"] by simp
  with split [of y] assms(2) show ?thesis by (metis (no_types, lifting) add.assoc add.commute)
qed

lemma all_before_update:
  assumes "\<forall>x \<in> set (xs[l := y]). P x" and "l < length xs" and "P (xs ! l)"
  shows "P y \<and> (\<forall>x \<in> set xs. P x)"
proof
  show "P y" using assms(1,2) by (simp add: set_update_memI)
  have "P (xs ! i)" if "i < length xs" for i
    using assms that nth_mem [of i "xs[l := y]"] by (cases "i = l") auto
  then show "\<forall>x \<in> set xs. P x" by (auto simp: in_set_conv_nth)
qed

lemma parse_step:
  assumes "node_step W e s s'" and "\<not> from_network e" and k: "k < length (sys_slots s)"
  shows "parse_tasks k s' = parse_tasks k s"
  using step_slots [OF assms(1)]
proof (elim disjE exE conjE)
  fix j
  assume j: "j < length (sys_slots s)" "sl_queue (sys_slots s ! j) \<noteq> []" "s' = work W j s"
  obtain t q where "sl_queue (sys_slots s ! j) = t # q" using j(2) by (cases "sl_queue (sys_slots s ! j)") auto
  with j k show ?thesis by (cases "k = j") (simp_all add: slot_work parse_tasks_def)
next
  fix ps
  assume ps: "sys_slots s' = push_all ps (sys_slots s)" "\<forall>p \<in> set ps. queued_by e (snd p)"
  have "\<not> is_Parse t" if "queued_by e t" for t
    using that assms(2) by (cases t) (auto simp: queued_by_def)
  with ps(2) have "\<not> is_Parse (snd p)" if "p \<in> set ps" for p using that by blast
  with ps(1) k show ?thesis by (auto simp: parse_tasks_def nth_push_all filter_empty_conv)
qed

lemma delivery_ok_quiet:
  assumes ok: "delivery_ok s" and step: "node_step W e s s'" and quiet: "\<not> from_network e"
    and same: "net_log (sys_net s') = net_log (sys_net s)" "net_log (sys_mm_net s') = net_log (sys_mm_net s)"
      "sys_mm s' = sys_mm s" "length (flush_flags (sys_net s')) = length (flush_flags (sys_net s))"
      "sys_listeners s' = sys_listeners s" "sys_received s' = sys_received s" "sys_dropped s' = sys_dropped s"
  shows "delivery_ok s'"
proof -
  have len: "length (sys_slots s') = length (sys_slots s)" using step_slots [OF step] by auto
  have "flushed (sys_net s') a = flushed (sys_net s) a" for a
    by (simp add: flushed_def same(1))
  with ok len parse_step [OF step quiet] same show ?thesis
    by (auto simp: delivery_ok_def server_ok_def one_mode_def all_accepted_def worker_queue_cong [OF same(1)] worker_queue_cong [OF same(2)])
qed

lemma tasks_for_worker:
  "map snd (filter (\<lambda>p. fst p = k) (sent_tasks ps)) = map (\<lambda>p. Parse (ps_hash p) (ps_payload p)) (filter (\<lambda>p. ps_chan p = k) ps)"
  by (induction ps) (auto simp: sent_tasks_def)

text \<open>A network thread queues what it sends.\<close>

lemma parse_tasks_sent:
  assumes "sys_slots s' = push_all (sent_tasks (drop (length (net_log net)) (net_log net'))) (sys_slots s)"
    and "net_log net' = net_log net @ ps" and "\<forall>p \<in> set ps. ps_accepted p" and "k < length (sys_slots s)"
    and "parse_tasks k s = worker_queue k net"
  shows "parse_tasks k s' = worker_queue k net'"
proof -
  have "filter (\<lambda>p. ps_chan p = k \<and> ps_accepted p) ps = filter (\<lambda>p. ps_chan p = k) ps"
    using assms(3) by (intro filter_cong) auto
  moreover have "filter is_Parse (map (\<lambda>p. Parse (ps_hash p) (ps_payload p)) qs) = map (\<lambda>p. Parse (ps_hash p) (ps_payload p)) qs" for qs
    by (induction qs) simp_all
  ultimately show ?thesis
    using assms by (simp add: parse_tasks_def nth_push_all tasks_for_worker worker_queue_def)
qed

lemma worker_queue_Nil: "net_log net = [] \<Longrightarrow> worker_queue k net = []"
  by (simp add: worker_queue_def)

lemma delivery_ok_listen:
  assumes ok: "delivery_ok s" and l: "l < length (sys_listeners s)" "snd (sys_listeners s ! l)" and listen: "listen W l r s = Inr s'"
  shows "delivery_ok s'"
proof -
  let ?n = "length (sys_slots s)" and ?net = "(sys_net s)\<lparr>net_stats := sys_stats s\<rparr>" and ?srv = "fst (sys_listeners s ! l)"
  obtain res net' where rec: "server_receive (w_hash W) (\<lambda>k. True) ?n r ?srv ?net = Inr (res, net')"
    using listen by (auto simp: listen_def Let_def split: sum.splits)
  let ?p = "case res of Some srv' \<Rightarrow> (srv', True) | None \<Rightarrow> (?srv\<lparr>bufmap := []\<rparr>, False)"
    and ?gone = "case res of Some srv' \<Rightarrow> [] | None \<Rightarrow> bufmap ?srv"
  have s': "sys_net s' = net'" "sys_listeners s' = (sys_listeners s)[l := ?p]" "sys_received s' = sys_received s @ arrival r"
      "sys_mm s' = sys_mm s" "sys_mm_net s' = sys_mm_net s" "sys_dropped s' = sys_dropped s @ ?gone"
      "sys_slots s' = push_all (sent_tasks (drop (length (net_log (sys_net s))) (net_log net'))) (sys_slots s)"
    using listen rec by (auto simp: listen_def Let_def)
  have srv: "server_ok ?n (?srv, ?net)" using ok nth_mem [OF l(1)] by (auto simp: delivery_ok_def server_ok_def)
  note bytes = server_receive_bytes [OF srv rec]
  obtain ps where ps: "net_log net' = net_log (sys_net s) @ ps" "\<forall>p \<in> set ps. ps_accepted p"
    using server_receive_appends [OF rec] by auto
  have "server_ok ?n (fst q, net')" if "q \<in> set (sys_listeners s')" for q
  proof -
    have "q = ?p \<or> q \<in> set (sys_listeners s)" using that set_update_subset_insert [of "sys_listeners s" l ?p] by (auto simp: s'(2))
    then show ?thesis
    proof
      assume "q \<in> set (sys_listeners s)"
      with ok bytes show ?thesis by (auto simp: delivery_ok_def server_ok_def)
    next
      assume "q = ?p"
      with bytes show ?thesis by (cases res) auto
    qed
  qed
  moreover have "mset (payload_from (sys_received s') a) =
      mset (flushed net' a) + mset (payload_from (sys_dropped s') a) +
      (\<Sum>q\<leftarrow>sys_listeners s'. mset (pending (bufmap (fst q)) a))" for a
  proof -
    have "mset (flushed net' a) + mset (payload_from ?gone a) + mset (pending (bufmap (fst ?p)) a) =
        mset (flushed (sys_net s) a) + mset (pending (bufmap ?srv) a) + mset (payload_from (arrival r) a)"
    proof (cases res)
      case None
      with bytes [of a] srv show ?thesis by (simp add: payload_from_map server_ok_def)
    next
      case (Some srv')
      with bytes [of a] have "flushed net' a @ pending (bufmap srv') a =
          flushed (sys_net s) a @ pending (bufmap ?srv) a @ payload_from (arrival r) a" by simp
      from arg_cong [where f = mset, OF this] Some show ?thesis by (simp add: ac_simps)
    qed
    from sum_list_nth_update [where f = "\<lambda>q. mset (pending (bufmap (fst q)) a)", OF l(1) this] ok show ?thesis
      by (simp add: s'(2,3,6) delivery_ok_def ac_simps)
  qed
  moreover have "sys_dropped s' = []" if "\<forall>q \<in> set (sys_listeners s'). snd q"
  proof -
    have "snd ?p" "\<forall>q \<in> set (sys_listeners s). snd q"
      using all_before_update [where P = snd, OF that [unfolded s'(2)] l] by auto
    then show ?thesis using ok by (auto simp: s'(6) delivery_ok_def split: option.splits)
  qed
  moreover have "all_accepted net'" using ok ps by (auto simp: delivery_ok_def all_accepted_def)
  moreover have mode: "sys_mm s = []" "net_log (sys_mm_net s) = []" using ok l by (auto simp: delivery_ok_def one_mode_def)
  moreover have "parse_tasks k s' = worker_queue k net'" if k: "k < ?n" for k
    using parse_tasks_sent [OF s'(7) ps k] ok k mode(2) by (simp add: delivery_ok_def worker_queue_Nil)
  ultimately show ?thesis using ok by (simp add: delivery_ok_def one_mode_def s' worker_queue_Nil)
qed

lemma delivery_ok_many:
  assumes ok: "delivery_ok s" and i: "i < length (sys_mm s)" and many: "receive_many W i batch s = Inr s'"
  shows "delivery_ok s'"
proof -
  let ?net = "(sys_mm_net s)\<lparr>net_stats := sys_stats s\<rparr>"
  obtain st net' where call: "mm_call (w_recvmmsg W) (w_name_hash W) (\<lambda>k. True) (w_cfg W) (length (sys_slots s)) i (sys_rowsize W)
      batch (the (sys_mm s ! i), ?net) = Inr (st, net')"
    using many by (auto simp: receive_many_def Let_def split: sum.splits)
  have s': "sys_mm_net s' = net'" "sys_net s' = sys_net s" "sys_listeners s' = sys_listeners s" "sys_received s' = sys_received s"
      "sys_dropped s' = sys_dropped s"
      "sys_slots s' = push_all (sent_tasks (drop (length (net_log (sys_mm_net s))) (net_log net'))) (sys_slots s)"
    using many call by (auto simp: receive_many_def Let_def)
  obtain ps where ps: "net_log net' = net_log (sys_mm_net s) @ ps" "\<forall>p \<in> set ps. ps_accepted p"
    using mm_call_appends [OF call] by auto
  have mode: "sys_listeners s = []" "net_log (sys_net s) = []" using ok i by (auto simp: delivery_ok_def one_mode_def)
  have "parse_tasks k s' = worker_queue k net'" if k: "k < length (sys_slots s)" for k
    using parse_tasks_sent [OF s'(6) ps k] ok k mode(2) by (simp add: delivery_ok_def worker_queue_Nil)
  moreover have "all_accepted net'" using ok ps by (auto simp: delivery_ok_def all_accepted_def)
  ultimately show ?thesis using ok mode by (simp add: delivery_ok_def one_mode_def s' worker_queue_Nil)
qed

lemma network_quiet:
  assumes "node_step W e s s'" and "\<not> from_network e"
  shows "net_log (sys_net s') = net_log (sys_net s) \<and> net_log (sys_mm_net s') = net_log (sys_mm_net s) \<and> sys_mm s' = sys_mm s \<and>
    length (flush_flags (sys_net s')) = length (flush_flags (sys_net s)) \<and>
    length (flush_flags (sys_mm_net s')) = length (flush_flags (sys_mm_net s)) \<and>
    sys_listeners s' = sys_listeners s \<and> sys_received s' = sys_received s \<and> sys_mm_received s' = sys_mm_received s \<and>
    sys_dropped s' = sys_dropped s"
  using assms
  by (cases rule: node_step.cases)
    (auto simp: from_network_def flush_timer_def flush_tick_def work_def start_round_def end_round_def start_interval_def
      aggregate_interval_def collect_interval_def Let_def split: sum.splits prod.splits)

lemma delivery_ok_step:
  assumes "delivery_ok s" and "node_step W e s s'"
  shows "delivery_ok s'"
proof (cases "from_network e")
  case True
  with assms(2) show ?thesis
    by (auto simp: from_network_def receives_many_def elim!: node_step.cases
        intro: delivery_ok_listen [OF assms(1)] delivery_ok_many [OF assms(1)])
next
  case False
  from network_quiet [OF assms(2) False] delivery_ok_quiet [OF assms False] show ?thesis by blast
qed

lemma delivery_ok_init:
  assumes "node_init W s"
  shows "delivery_ok s"
proof -
  obtain nd where nd: "node_start (w_cfg W) = Inr nd" "s = boot nd" using assms by (auto simp: node_init_def)
  have start: "node_workers nd \<noteq> []"
      "\<forall>srvs \<in> set (node_listeners nd). \<forall>srv \<in> set srvs. thread_idx srv < length (node_flags nd) \<and> bufmap srv = []"
    using nd(1) by (auto simp: node_start_def start_workers_def start_listeners_def start_flags_def start_async_udp_def
        statsd_server_new_def Let_def in_set_replicate split: if_splits)
  have "(\<Sum>p\<leftarrow>map (\<lambda>srv. (srv, True)) (concat (node_listeners nd)). mset (pending (bufmap (fst p)) a)) = {#}" for a
  proof -
    have "(\<Sum>srv\<leftarrow>concat (node_listeners nd). mset (pending (bufmap srv) a)) = (\<Sum>srv\<leftarrow>concat (node_listeners nd). {#})"
      using start(2) by (intro arg_cong [where f = sum_list] map_cong) auto
    then show ?thesis by (simp add: comp_def)
  qed
  moreover have "parse_tasks k s = []" if "k < length (sys_slots s)" for k
    unfolding parse_tasks_def boot_slots [OF assms nth_mem [OF that]] by (simp add: boot_slot_def)
  moreover have "one_mode s"
    using nd by (auto simp: one_mode_def boot_def node_start_def start_listeners_def start_mm_def Let_def split: if_splits)
  ultimately show ?thesis
    using start by (auto simp: delivery_ok_def nd(2) boot_def server_ok_def flushed_def worker_queue_def all_accepted_def)
qed

interpretation delivery: invariant "node_init W" "node_step W" delivery_ok for W
  by unfold_locales (rule delivery_ok_init, assumption, rule delivery_ok_step)

section \<open>The threads of the multimessage mode\<close>

text \<open>
  What the threads rely on: the kernel delivers as documented, and the size of the receive
  buffer fits into a machine word.
\<close>

definition kernel_ok :: "('w, 'r, 'm) world \<Rightarrow> bool" where
  "kernel_ok W \<longleftrightarrow> recvmmsg_law (sys_rowsize W) (w_recvmmsg W) \<and>
    unat (sys_packets W) * unat (sys_packets W) * unat (bufsize (network (w_cfg W))) < 2 ^ 64"

definition mm_pending :: "mm_state option \<Rightarrow> bytes \<Rightarrow> bytes" where
  "mm_pending th a = (case th of None \<Rightarrow> [] | Some st \<Rightarrow> pending (mm_bufmap st) a)"

definition many_ok :: "('w, 'r, 'm) world \<Rightarrow> 'm system \<Rightarrow> bool" where
  "many_ok W s \<longleftrightarrow> sys_slots s \<noteq> [] \<and>
    (\<forall>i < length (sys_mm s). \<exists>st. sys_mm s ! i = Some st \<and>
       mm_ok (unat (sys_packets W)) (sys_rowsize W) (length (sys_slots s)) i (st, sys_mm_net s)) \<and>
    (\<forall>a. mset (payload_from (keyed (sys_mm_received s)) a) =
       mset (flushed (sys_mm_net s) a) + (\<Sum>th\<leftarrow>sys_mm s. mset (mm_pending th a)))"

lemma mm_ok_net:
  "length (flush_flags net') = length (flush_flags net) \<Longrightarrow> mm_ok p r n i (st, net') \<longleftrightarrow> mm_ok p r n i (st, net)"
  by (simp add: mm_ok_def)

lemma mm_call_flags:
  assumes "mm_call recvmmsg hash accepts cfg n i rowsize batch s = Inr (st', net')"
  shows "length (flush_flags net') = length (flush_flags (snd s))"
  using assms
  by (auto simp: mm_call_def mm_round_def Let_def case_prod_unfold fold_mm_flush_stats split: sum.splits if_splits)

text \<open>A thread that waits for the kernel takes what it delivers, without a panic.\<close>

lemma receive_many_total:
  assumes "kernel_ok W" and "many_ok W s" and "receives_many W i batch s"
  obtains st st' net' where "sys_mm s ! i = Some st"
    "receive_many W i batch s = Inr (s\<lparr>sys_mm_net := net', sys_stats := net_stats net', sys_mm := (sys_mm s)[i := Some st'],
       sys_slots := push_all (sent_tasks (drop (length (net_log (sys_mm_net s))) (net_log net'))) (sys_slots s),
       sys_mm_received := sys_mm_received s @ batch\<rparr>)"
    "mm_ok (unat (sys_packets W)) (sys_rowsize W) (length (sys_slots s)) i (st', net')"
    "length (flush_flags net') = length (flush_flags (sys_mm_net s))"
    "\<And>a. flushed net' a @ pending (mm_bufmap st') a =
      flushed (sys_mm_net s) a @ pending (mm_bufmap st) a @ payload_from (keyed batch) a"
proof -
  let ?net = "(sys_mm_net s)\<lparr>net_stats := sys_stats s\<rparr>"
  obtain st where st: "sys_mm s ! i = Some st"
      "mm_ok (unat (sys_packets W)) (sys_rowsize W) (length (sys_slots s)) i (st, ?net)"
    using assms(2,3) mm_ok_net [of ?net "sys_mm_net s"] by (auto simp: many_ok_def receives_many_def)
  have "recvmmsg_law (sys_rowsize W) (w_recvmmsg W)" "mm_valid (unat (sys_packets W)) (sys_rowsize W) batch"
    using assms(1,3) by (auto simp: kernel_ok_def receives_many_def)
  from mm_call_spec [OF this(1) st(2) this(2), of "w_name_hash W" "\<lambda>k. True" "w_cfg W"]
  obtain st' net' where call: "mm_call (w_recvmmsg W) (w_name_hash W) (\<lambda>k. True) (w_cfg W) (length (sys_slots s)) i (sys_rowsize W)
        batch (st, ?net) = Inr (st', net')"
      "mm_ok (unat (sys_packets W)) (sys_rowsize W) (length (sys_slots s)) i (st', net')"
      "\<And>a. flushed net' a @ pending (mm_bufmap st') a = flushed ?net a @ pending (mm_bufmap st) a @ payload_from (keyed batch) a"
    by auto
  moreover have "flushed ?net a = flushed (sys_mm_net s) a" for a by (simp add: flushed_def)
  ultimately show thesis
    using mm_call_flags [OF call(1)] st(1) by (intro that [of st net' st']) (auto simp: receive_many_def Let_def)
qed

lemma receive_many_step:
  assumes "kernel_ok W" and "many_ok W s" and "receives_many W i batch s"
  shows "\<exists>s'. node_step W (ReceiveMany i batch) s s'"
  by (rule receive_many_total [OF assms]) (rule exI, rule node_step.receive_many [OF assms(3)])

lemma many_ok_receive:
  assumes kernel: "kernel_ok W" and ok: "many_ok W s" and rec: "receives_many W i batch s" "receive_many W i batch s = Inr s'"
  shows "many_ok W s'"
proof -
  obtain st st' net' where st: "sys_mm s ! i = Some st"
    and many: "receive_many W i batch s = Inr (s\<lparr>sys_mm_net := net', sys_stats := net_stats net', sys_mm := (sys_mm s)[i := Some st'],
       sys_slots := push_all (sent_tasks (drop (length (net_log (sys_mm_net s))) (net_log net'))) (sys_slots s),
       sys_mm_received := sys_mm_received s @ batch\<rparr>)"
    and new: "mm_ok (unat (sys_packets W)) (sys_rowsize W) (length (sys_slots s)) i (st', net')"
      "length (flush_flags net') = length (flush_flags (sys_mm_net s))"
      "\<And>a. flushed net' a @ pending (mm_bufmap st') a =
        flushed (sys_mm_net s) a @ pending (mm_bufmap st) a @ payload_from (keyed batch) a"
    by (rule receive_many_total [OF kernel ok rec(1)]) (rule that)
  have s': "s' = s\<lparr>sys_mm_net := net', sys_stats := net_stats net', sys_mm := (sys_mm s)[i := Some st'],
       sys_slots := push_all (sent_tasks (drop (length (net_log (sys_mm_net s))) (net_log net'))) (sys_slots s),
       sys_mm_received := sys_mm_received s @ batch\<rparr>"
    using rec(2) many by simp
  have i: "i < length (sys_mm s)" using rec(1) by (simp add: receives_many_def)
  have len: "length (sys_slots s') = length (sys_slots s)" by (simp add: s')
  have "\<exists>st. sys_mm s' ! j = Some st \<and> mm_ok (unat (sys_packets W)) (sys_rowsize W) (length (sys_slots s')) j (st, sys_mm_net s')"
    if "j < length (sys_mm s')" for j
    using ok that new(1) mm_ok_net [OF new(2)] len by (cases "j = i") (auto simp: many_ok_def s')
  moreover have "mset (payload_from (keyed (sys_mm_received s')) a) =
      mset (flushed (sys_mm_net s') a) + (\<Sum>th\<leftarrow>sys_mm s'. mset (mm_pending th a))" for a
  proof -
    have "mset (flushed net' a) + mset (mm_pending (Some st') a) =
        mset (flushed (sys_mm_net s) a) + mset (mm_pending (sys_mm s ! i) a) + mset (payload_from (keyed batch) a)"
      using arg_cong [where f = mset, OF new(3) [of a]] by (simp add: mm_pending_def st ac_simps)
    from sum_list_nth_update [where f = "\<lambda>th. mset (mm_pending th a)", OF i this] ok show ?thesis
      by (simp add: s' many_ok_def ac_simps)
  qed
  moreover have "sys_slots s' \<noteq> []" using ok len by (auto simp: many_ok_def)
  ultimately show ?thesis by (simp add: many_ok_def)
qed

lemma many_ok_step:
  assumes "kernel_ok W" and ok: "many_ok W s" and step: "node_step W e s s'"
  shows "many_ok W s'"
proof (cases "from_network e")
  case False
  have len: "length (sys_slots s') = length (sys_slots s)" using step_slots [OF step] by auto
  then have "sys_slots s' \<noteq> []" using ok by (auto simp: many_ok_def)
  with ok len network_quiet [OF step False] mm_ok_net [of "sys_mm_net s'" "sys_mm_net s"] show ?thesis
    by (simp add: many_ok_def flushed_def)
next
  case True
  from step True show ?thesis
  proof (cases rule: node_step.cases)
    case (receive l r)
    then have "sys_mm s' = sys_mm s" "sys_mm_net s' = sys_mm_net s" "sys_mm_received s' = sys_mm_received s"
        "length (sys_slots s') = length (sys_slots s)"
      by (auto simp: listen_def Let_def split: sum.splits prod.splits)
    moreover from this(4) ok have "sys_slots s' \<noteq> []" by (auto simp: many_ok_def)
    ultimately show ?thesis using ok by (simp add: many_ok_def)
  next
    case (receive_many i batch)
    with many_ok_receive [OF assms(1) ok] show ?thesis by blast
  qed (simp_all add: from_network_def)
qed

lemma many_ok_init:
  assumes "kernel_ok W" and "node_init W s"
  shows "many_ok W s"
proof -
  obtain nd where nd: "node_start (w_cfg W) = Inr nd" "s = boot nd" using assms(2) by (auto simp: node_init_def)
  let ?p = "sys_packets W" and ?b = "bufsize (network (w_cfg W))"
  have size: "unat ?p * unat ?p * unat ?b < 2 ^ 64" using assms(1) by (simp add: kernel_ok_def)
  have workers: "node_workers nd \<noteq> []" "node_mm nd = start_mm (w_cfg W)" "node_flags nd = start_flags (w_cfg W)"
    using nd(1) by (auto simp: node_start_def Let_def split: if_splits)
  have thread: "\<exists>st. node_mm nd ! i = Some st \<and> mm_bufmap st = [] \<and>
      mm_ok (unat ?p) (sys_rowsize W) (length (node_workers nd)) i (st, fresh_net (node_flags nd) counters_init)"
    if "i < length (node_mm nd)" for i
  proof -
    have "i < length (node_flags nd)" "multimessage (network (w_cfg W))" "i < unat (n_threads (w_cfg W))"
      using that workers by (auto simp: start_mm_def start_flags_def split: if_splits)
    with mm_setup_ok [OF size, of "length (node_workers nd)" i "node_flags nd" counters_init] workers show ?thesis
      by (auto simp: start_mm_def sys_rowsize_def)
  qed
  have "(\<Sum>th\<leftarrow>node_mm nd. mset (mm_pending th a)) = {#}" for a
  proof -
    have "mset (mm_pending th a) = {#}" if "th \<in> set (node_mm nd)" for th
      using that thread by (fastforce simp: in_set_conv_nth mm_pending_def)
    then have "(\<Sum>th\<leftarrow>node_mm nd. mset (mm_pending th a)) = (\<Sum>th\<leftarrow>node_mm nd. {#})"
      by (intro arg_cong [where f = sum_list] map_cong) auto
    then show ?thesis by simp
  qed
  with thread workers(1) show ?thesis by (auto simp: many_ok_def nd(2) boot_def flushed_def)
qed

interpretation many: invariant "node_init W" "node_step W" "\<lambda>s. kernel_ok W \<longrightarrow> many_ok W s" for W
  by unfold_locales (use many_ok_init many_ok_step in blast)+

section \<open>A scenario\<close>

lemma mm_valid_code [code]:
  "mm_valid packets rowsize batch \<longleftrightarrow> length batch \<le> packets \<and>
    list_all (\<lambda>(name, p). length name = 16 \<and> length p \<le> unat rowsize \<and> int (length p) < 4294967296) batch"
  by (auto simp: mm_valid_def list_all_iff)

text \<open>Two threads; one has buffered enough for a flush, the other has not.\<close>

definition many_world :: "((bytes \<times> nat) which, bytes \<times> nat, nat) world" where
  "many_world = sample_world
    \<lparr>w_cfg := (w_cfg sample_world)\<lparr>n_threads := 2,
       network := (network (w_cfg sample_world))\<lparr>multimessage := True, mm_packets := 2, bufsize := 8\<rparr>\<rparr>\<rparr>"

definition many_events :: "(bytes \<times> nat) which event list" where
  "many_events =
    [ReceiveMany 0 [(sample_name (CHR ''a''), ''cp''), (sample_name (CHR ''b''), ''x'')],
     ReceiveMany 1 [(sample_name (CHR ''a''), ''z'')],
     ReceiveMany 0 [(sample_name (CHR ''a''), ''u'' @ [CHR 0x0A])], Work 0]"

definition many_boot :: "nat system" where
  "many_boot = (case node_start (w_cfg many_world) of Inr nd \<Rightarrow> boot nd | Inl p \<Rightarrow> undefined)"

definition many_state :: "nat system" where
  "many_state = the (node_exec_all many_world many_events many_boot)"

lemma many_reach: "reach (node_init many_world) (node_step many_world) many_state"
proof -
  have "case node_start (w_cfg many_world) :: panic + nat node of Inr nd \<Rightarrow> True | Inl p \<Rightarrow> False" by code_simp
  then have "node_init many_world many_boot" by (auto simp: node_init_def many_boot_def split: sum.splits)
  moreover have "node_exec_all many_world many_events many_boot \<noteq> None" by code_simp
  ultimately show ?thesis by (auto simp: many_state_def intro: node_exec_all_reach reach_init)
qed

lemma many_kernel: "kernel_ok many_world"
proof -
  have "sys_rowsize many_world = 16" by code_simp
  moreover have "unat (sys_packets many_world) = 2" "unat (bufsize (network (w_cfg many_world))) = 8" by code_simp+
  ultimately show ?thesis by (simp add: kernel_ok_def copy_kernel_law many_world_def sample_world_def)
qed

text \<open>A listener that has buffered two bytes and then fails.\<close>

abbreviation sample_addr :: socket_addr where
  "sample_addr \<equiv> SocketAddrV4 10 0 0 1 5"

definition stopped_events :: "(bytes \<times> nat) which event list" where
  "stopped_events = [Receive 0 (Datagram ''xy'' sample_addr), Receive 0 (RecvError ''closed'')]"

definition stopped_state :: "nat system" where
  "stopped_state = the (node_exec_all sample_world stopped_events sample_boot)"

lemma stopped_reach: "reach (node_init sample_world) (node_step sample_world) stopped_state"
proof -
  have "node_exec_all sample_world stopped_events sample_boot \<noteq> None" by code_simp
  with sample_started show ?thesis by (auto simp: stopped_state_def intro: node_exec_all_reach reach_init)
qed

lemma quiet_listeners: "list_all (\<lambda>p. bufmap (fst p) = []) ls \<Longrightarrow> (\<Sum>p\<leftarrow>ls. mset (pending (bufmap (fst p)) a)) = {#}"
  by (induction ls) simp_all

section \<open>Properties\<close>



end
