(* ===== verification/Egress.thy ===== *)
theory Egress
  imports Node
begin

text \<open>
  The way out: the values of an interval, split over carbon backends, each backend under its
  retrying future, and the lines that a carbon server reads from all their connections. A
  connection may break after any number of bytes; what was written to it before counts as read,
  since the protocol has no acknowledgement.
\<close>

section \<open>A backend under its retrying future\<close>

type_synonym connector = "socket_addr option \<Rightarrow> socket_addr \<Rightarrow> string + nat option"

definition carbon_outcome :: "carbon_backend \<Rightarrow> connector \<Rightarrow> (unit, general_error) polled" where
  "carbon_outcome backend connect = (case snd (carbon_send connect backend) of Inl e \<Rightarrow> Failed e | Inr u \<Rightarrow> Ready u)"

text \<open>The result and the number of attempts, given what each attempt to connect leads to.\<close>

definition backend_run ::
    "carbon_config \<Rightarrow> carbon_backend \<Rightarrow> connector list \<Rightarrow> ((unit, general_error) poll_result \<times> nat) option" where
  "backend_run cfg backend connects =
    (case backoff_poll (retry_rounds (map (carbon_outcome backend) connects)) (backoff_spawn (carbon_retrier cfg)) of
       None \<Rightarrow> None
     | Some (r, b, rest) \<Rightarrow> Some (r, attempts b))"

text \<open>The lines that the server reads from the connections of a backend, attempt after attempt.\<close>

definition backend_lines :: "carbon_config \<Rightarrow> carbon_backend \<Rightarrow> connector list \<Rightarrow> carbon_line option list" where
  "backend_lines cfg backend connects =
    (case backend_run cfg backend connects of
       None \<Rightarrow> []
     | Some (r, k) \<Rightarrow> concat (map (\<lambda>connect. carbon_decode (fst (carbon_send connect backend))) (take k connects)))"

section \<open>Broken connections\<close>

text \<open>The first bytes of some lines are the first lines, and perhaps a line that is not complete.\<close>

lemma split_at_None: "c \<notin> set bs \<Longrightarrow> split_at c bs = None"
  by (induction bs) auto

lemma carbon_decode_none: "CHR 0x0A \<notin> set bs \<Longrightarrow> carbon_decode bs = []"
  by (subst carbon_decode.simps) (simp add: split_at_None)

abbreviation plain_line :: "carbon_line \<Rightarrow> bool" where
  "plain_line m \<equiv> plain (fst m) \<and> plain (fst (snd m)) \<and> plain (snd (snd m))"

lemma carbon_decode_take:
  assumes "\<forall>m \<in> set ms. plain_line m"
  shows "\<exists>j. carbon_decode (take k (concat (map (\<lambda>m. carbon_encode m []) ms))) = map Some (take j ms)"
  using assms
proof (induction ms arbitrary: k)
  case Nil
  then show ?case by (simp add: carbon_decode_none)
next
  case (Cons m ms)
  obtain name v ts where m: "m = (name, v, ts)" by (cases m) auto
  let ?l = "carbon_encode m []"
  show ?case
  proof (cases "length ?l \<le> k")
    case True
    with Cons.IH [of "k - length ?l"] Cons.prems obtain j where
      "carbon_decode (take (k - length ?l) (concat (map (\<lambda>m. carbon_encode m []) ms))) = map Some (take j ms)" by auto
    with True Cons.prems show ?thesis
      by (intro exI [of _ "Suc j"]) (simp add: m carbon_decode_line_encode)
  next
    case False
    then have "take k (concat (map (\<lambda>m. carbon_encode m []) (m # ms))) = take k (butlast ?l)"
      by (simp add: take_butlast)
    moreover have "CHR 0x0A \<notin> set (butlast ?l)"
      using Cons.prems by (simp add: m carbon_encode_def plain_def butlast_append)
    then have "CHR 0x0A \<notin> set (take k (butlast ?l))" by (meson in_set_takeD)
    ultimately show ?thesis by (intro exI [of _ 0]) (simp add: carbon_decode_none)
  qed
qed

lemma carbon_send_lines:
  assumes "\<forall>m \<in> set (backend_metrics backend). plain_line m"
  shows "case carbon_outcome backend connect of
      Ready u \<Rightarrow> carbon_decode (fst (carbon_send connect backend)) = map Some (backend_metrics backend)
    | Failed e \<Rightarrow> \<exists>j. carbon_decode (fst (carbon_send connect backend)) = map Some (take j (backend_metrics backend))
    | NotReady \<Rightarrow> False"
proof -
  have whole: "carbon_decode (concat (map (\<lambda>m. carbon_encode m []) (backend_metrics backend))) = map Some (backend_metrics backend)"
    using assms by (intro carbon_decode_encoded) auto
  have none: "\<exists>j. carbon_decode [] = map Some (take j (backend_metrics backend))"
    by (intro exI [of _ 0]) (simp add: carbon_decode_none)
  show ?thesis
    using whole none carbon_decode_take [OF assms]
    by (auto simp: carbon_outcome_def carbon_send_def fold_carbon_encode Let_def split: sum.splits option.splits if_splits)
qed

text \<open>A backend that succeeded has sent all its lines, after first lines of them.\<close>

lemma retried_lines:
  assumes "\<forall>m \<in> set (backend_metrics backend). plain_line m"
    and "retried n (map (carbon_outcome backend) connects) = Some (Returned u, k)"
  shows "\<exists>js. concat (map (\<lambda>connect. carbon_decode (fst (carbon_send connect backend))) (take k connects)) =
    concat (map (\<lambda>j. map Some (take j (backend_metrics backend))) js) @ map Some (backend_metrics backend)"
  using assms(2)
proof (induction connects arbitrary: n k)
  case (Cons connect connects)
  show ?case
  proof (cases "carbon_outcome backend connect")
    case (Ready u')
    with Cons.prems carbon_send_lines [OF assms(1), of connect] show ?thesis by (intro exI [of _ "[]"]) auto
  next
    case (Failed e)
    with Cons.prems obtain m k' where k': "n = Suc m" "retried m (map (carbon_outcome backend) connects) = Some (Returned u, k')" "k = Suc k'"
      by (auto split: nat.splits)
    from Failed carbon_send_lines [OF assms(1), of connect] obtain j where
      "carbon_decode (fst (carbon_send connect backend)) = map Some (take j (backend_metrics backend))" by auto
    with Cons.IH [OF k'(2)] k'(3) show ?thesis by (elim exE) (rule exI [of _ "j # js" for js], simp)
  next
    case NotReady
    with carbon_send_lines [OF assms(1), of connect] show ?thesis by simp
  qed
qed simp

lemma backend_run_retried:
  "backend_run cfg backend connects = retried (unat (send_retries cfg)) (map (carbon_outcome backend) connects)"
proof -
  let ?b = "backoff_spawn (carbon_retrier cfg)"
  have "unat (retries (options ?b)) = unat (send_retries cfg)" "inner ?b = Action" "attempts ?b = 1"
    by (simp_all add: backoff_spawn_def carbon_retrier_def)
  with backoff_poll_retried [of ?b "map (carbon_outcome backend) connects"] show ?thesis
    by (auto simp: backend_run_def split: option.splits)
qed

lemma backend_lines_success:
  assumes "\<forall>m \<in> set (backend_metrics backend). plain_line m" and "backend_run cfg backend connects = Some (Returned u, k)"
  shows "mset (map Some (backend_metrics backend)) \<subseteq># mset (backend_lines cfg backend connects) \<and>
    set (backend_lines cfg backend connects) \<subseteq> Some ` set (backend_metrics backend)"
proof -
  obtain js where "backend_lines cfg backend connects =
      concat (map (\<lambda>j. map Some (take j (backend_metrics backend))) js) @ map Some (backend_metrics backend)"
    using retried_lines [OF assms(1), of "unat (send_retries cfg)" connects u k] assms(2)
    by (auto simp: backend_lines_def backend_run_retried)
  then show ?thesis by (auto dest: in_set_takeD)
qed

section \<open>The backends of an interval\<close>

lemma make_backends_metrics:
  assumes "\<forall>part \<in> set parts. \<forall>(name, x) \<in> set part. snd (ftoa x)"
  shows "map backend_metrics (fst (make_backends ftoa opts ts parts c)) =
    map (map (\<lambda>(name, x). (name, fst (ftoa x), show_nat (unat ts)))) parts"
  using assms
proof (induction parts arbitrary: c)
  case (Cons part parts)
  have "backend_metrics (fst (carbon_backend_new ftoa opts ts part c)) =
      map (\<lambda>(name, x). (name, fst (ftoa x), show_nat (unat ts))) part"
    using Cons.prems fold_carbon_format [of part ftoa "show_nat (unat ts)" "[]" c]
    by (auto simp: carbon_backend_new_def Let_def)
  moreover obtain c' where "snd (carbon_backend_new ftoa opts ts part c) = c'" by simp
  ultimately show ?case using Cons.IH [of c'] Cons.prems by (simp add: case_prod_unfold Let_def)
qed simp

lemma lines_subset_concat:
  assumes "length bs = length runs"
    and "\<forall>(b, cs) \<in> set (zip bs runs). mset (map Some (f b)) \<subseteq># mset (g b cs) \<and> set (g b cs) \<subseteq> Some ` set (f b)"
  shows "mset (map Some (concat (map f bs))) \<subseteq># mset (concat (map2 g bs runs)) \<and>
    set (concat (map2 g bs runs)) \<subseteq> Some ` set (concat (map f bs))"
  using assms
proof (induction bs runs rule: list_induct2)
  case (Cons b bs cs runs)
  have *: "concat (map2 g (b # bs) (cs # runs)) = g b cs @ concat (map2 g bs runs)"
      "concat (map f (b # bs)) = f b @ concat (map f bs)"
    by simp_all
  have "\<forall>(b, cs) \<in> set (zip bs runs). mset (map Some (f b)) \<subseteq># mset (g b cs) \<and> set (g b cs) \<subseteq> Some ` set (f b)"
    using Cons.prems by simp
  from Cons.IH [OF this] Cons.prems show ?case
    unfolding * map_append mset_append set_append image_Un
    by (intro conjI subset_mset.add_mono Un_mono) simp_all
qed simp

section \<open>Properties\<close>

text \<open>
  C11. The values of an interval reach the carbon server at least once. If every backend of the
  interval succeeds within its retries, however its connections broke before, then among the
  complete lines that the server read from all connections each value of the interval is at
  least as often as it is among the values, with its name and the timestamp of the interval;
  and the server read no line that is not one of these. Names and formatted values are assumed
  to be free of blanks and newlines.
\<close>

theorem interval_sent_at_least_once:
  assumes "tick_send ftoa cfg addr ts vals c = Inr (backends, c')"
    and "\<forall>(name, x) \<in> set vals. snd (ftoa x) \<and> plain name \<and> plain (fst (ftoa x))"
    and "length runs = length backends"
    and "\<forall>(b, connects) \<in> set (zip backends runs). \<exists>k. backend_run cfg b connects = Some (Returned (), k)"
  shows "let sent = map (\<lambda>(name, x). (name, fst (ftoa x), show_nat (unat ts))) vals;
           lines = concat (map2 (backend_lines cfg) backends runs)
         in mset (map Some sent) \<subseteq># mset lines \<and> set lines \<subseteq> Some ` set sent"
proof -
  let ?line = "\<lambda>(name, x). (name, fst (ftoa x), show_nat (unat ts))"
  obtain parts where parts: "carbon_split cfg vals = Inr parts"
      "backends = fst (make_backends ftoa \<lparr>client_addr = addr, client_bind_addr = bind_address cfg\<rparr> ts parts c)"
    using assms(1) by (auto simp: tick_send_def split: sum.splits)
  have "concat parts = vals"
    using parts(1) by (auto simp: carbon_split_def slice_chunks_def Let_def concat_chunk_list split: if_splits)
  then have metrics: "map backend_metrics backends = map (map ?line) parts"
    unfolding parts(2) using assms(2) by (intro make_backends_metrics) fastforce
  have all: "concat (map backend_metrics backends) = map ?line vals"
    unfolding metrics using \<open>concat parts = vals\<close> by (auto simp: map_concat [symmetric])
  have "plain_line m" if "b \<in> set backends" "m \<in> set (backend_metrics b)" for b m
  proof -
    have "m \<in> set (concat (map backend_metrics backends))" using that by auto
    then show ?thesis unfolding all using assms(2) plain_show_nat by auto
  qed
  then have "\<forall>(b, connects) \<in> set (zip backends runs).
      mset (map Some (backend_metrics b)) \<subseteq># mset (backend_lines cfg b connects) \<and>
      set (backend_lines cfg b connects) \<subseteq> Some ` set (backend_metrics b)"
    using assms(4) backend_lines_success by (fastforce dest: set_zip_leftD)
  from lines_subset_concat [OF assms(3) [symmetric] this] show ?thesis unfolding all Let_def .
qed

definition sample_vals :: "(bytes \<times> f64) list" where
  "sample_vals = [(''a'', Fin 1), (''b'', Fin 2)]"

definition sample_runs :: "connector list list" where
  "sample_runs = [[\<lambda>b a. Inr (Some 12), \<lambda>b a. Inr None]]"

theorem interval_sent_at_least_once_witness:
  "\<exists>backends c'. tick_send sample_ftoa carbon_default (localhost 2003) 100 sample_vals counters_init = Inr (backends, c') \<and>
    mset (map Some [(''a'', ''1'', ''100''), (''b'', ''2'', ''100'')]) \<subseteq>#
      mset (concat (map2 (backend_lines carbon_default) backends sample_runs))"
proof -
  let ?b = "\<lparr>backend_options = \<lparr>client_addr = localhost 2003, client_bind_addr = None\<rparr>,
    backend_metrics = [(''a'', ''1'', ''100''), (''b'', ''2'', ''100'')]\<rparr>"
  have send: "tick_send sample_ftoa carbon_default (localhost 2003) 100 sample_vals counters_init = Inr ([?b], counters_init)"
    by code_simp
  have vals: "\<forall>(name, x) \<in> set sample_vals. snd (sample_ftoa x) \<and> plain name \<and> plain (fst (sample_ftoa x))"
    and lines: "map (\<lambda>(name, x). (name, fst (sample_ftoa x), show_nat (unat (100 :: u64)))) sample_vals =
      [(''a'', ''1'', ''100''), (''b'', ''2'', ''100'')]"
    by code_simp+
  have "map_option fst (retried (unat (send_retries carbon_default)) (map (carbon_outcome ?b) (hd sample_runs))) = Some (Returned ())"
    by code_simp
  then have "\<exists>k. backend_run carbon_default ?b (hd sample_runs) = Some (Returned (), k)"
    unfolding backend_run_retried by (cases "retried (unat (send_retries carbon_default)) (map (carbon_outcome ?b) (hd sample_runs))") auto
  then have runs: "\<forall>(b, connects) \<in> set (zip [?b] sample_runs). \<exists>k. backend_run carbon_default b connects = Some (Returned (), k)"
    and len: "length sample_runs = length [?b]"
    by (simp_all add: sample_runs_def)
  from interval_sent_at_least_once [OF send vals len runs] send show ?thesis
    unfolding Let_def lines by blast
qed

end
