(* ===== verification/Typing.thy ===== *)
theory Typing
  imports Snapshots
begin

text \<open>
  The type invariant of a node: the shape of its state, which the code relies on and which no
  type of the program expresses. Every cache, wherever it is on its way through the node, has
  each name once; a stream buffer has each sender once; requests have one channel for each
  worker; and the number of workers never changes.
\<close>

section \<open>Well-formed states\<close>

definition slot_wf :: "'m slot \<Rightarrow> bool" where
  "slot_wf sl \<longleftrightarrow> runner_wf (runner (sl_worker sl)) \<and>
    (\<forall>(ch, m) \<in> set (rotation_log (outbox (sl_worker sl)) @ snap_log sl). hm_wf m)"

definition system_wf :: "('w, 'r, 'm) world \<Rightarrow> 'm system \<Rightarrow> bool" where
  "system_wf W s \<longleftrightarrow> sys_slots s \<noteq> [] \<and> length (sys_slots s) = unat (w_threads (w_cfg W)) \<and>
    (\<forall>sl \<in> set (sys_slots s). slot_wf sl) \<and>
    (\<forall>iv \<in> set (sys_intervals s). length (iv_replies iv) = length (sys_slots s) \<and> hm_wf (phase_cache (iv_phase iv))) \<and>
    (\<forall>replies \<in> set (sys_rounds s). length replies = length (sys_slots s)) \<and>
    (\<forall>b \<in> set (sys_batches s). hm_wf (bt_cache b)) \<and>
    (\<forall>x \<in> set (sys_senders s). \<forall>m \<in> set (snap_metrics x). m \<noteq> [] \<and> hm_wf m)"

lemma slot_wf_queue [simp]: "slot_wf (sl\<lparr>sl_queue := q\<rparr>) = slot_wf sl"
  by (simp add: slot_wf_def snap_log_def)

lemma slot_wf_run:
  assumes "slot_wf \<lparr>sl_queue = q, sl_worker = w, sl_done = d\<rparr>"
  shows "slot_wf \<lparr>sl_queue = q', sl_worker = run lib alive t (w\<lparr>stats := c\<rparr>), sl_done = d'\<rparr>"
proof -
  have wf: "runner_wf (runner w)" using assms by (simp add: slot_wf_def)
  then have "runner_wf (runner (run lib alive t (w\<lparr>stats := c\<rparr>)))" by (intro runner_wf_run) simp
  with assms wf show ?thesis
    by (cases t) (auto simp: slot_wf_def snap_log_def rotation_log_run snapshots_run runner_wf_def)
qed

lemma system_wf_push:
  assumes "system_wf W s" and "sys_slots s' = push_all ps (sys_slots s)" and "sys_intervals s' = sys_intervals s"
    and "sys_rounds s' = sys_rounds s" and "sys_batches s' = sys_batches s" and "sys_senders s' = sys_senders s"
  shows "system_wf W s'"
proof -
  have "slot_wf sl" if "sl \<in> set (push_all ps (sys_slots s))" for sl
  proof -
    from that obtain k where "k < length (sys_slots s)" "sl = push_all ps (sys_slots s) ! k" by (auto simp: in_set_conv_nth)
    then show ?thesis using assms(1) by (simp add: nth_push_all system_wf_def)
  qed
  moreover have "length (push_all ps (sys_slots s)) = length (sys_slots s)" by simp
  then have "push_all ps (sys_slots s) \<noteq> []" using assms(1) unfolding system_wf_def by (metis length_0_conv)
  ultimately show ?thesis using assms by (simp add: system_wf_def)
qed

lemma system_wf_work:
  assumes "system_wf W s" and k: "k < length (sys_slots s)"
  shows "system_wf W (work W k s)"
proof -
  let ?sl = "sys_slots s ! k"
  have "slot_wf ?sl" using assms by (simp add: system_wf_def)
  then have "slot_wf \<lparr>sl_queue = sl_queue ?sl, sl_worker = sl_worker ?sl, sl_done = sl_done ?sl\<rparr>"
    by (simp add: slot_wf_def snap_log_def)
  then have new: "slot_wf (sys_slots (work W k s) ! k)" unfolding slot_work [OF k k] if_P [OF refl] by (rule slot_wf_run)
  have "slot_wf sl" if "sl \<in> set (sys_slots (work W k s))" for sl
  proof -
    from that obtain j where j: "j < length (sys_slots s)" "sl = sys_slots (work W k s) ! j" by (auto simp: in_set_conv_nth)
    then show ?thesis using new assms(1) by (cases "j = k") (simp_all add: slot_work [OF k] system_wf_def)
  qed
  moreover have "sys_slots (work W k s) \<noteq> []" using k by (auto dest: arg_cong [where f = length])
  moreover have "sys_senders (work W k s) = sys_senders s" by simp
  ultimately show ?thesis using assms(1) by (simp add: system_wf_def)
qed

lemma system_wf_end_round:
  assumes wf: "system_wf W s" and replies: "replies \<in> set (sys_rounds s)" "None \<notin> set (round_answers replies (sys_slots s))"
  shows "system_wf W (end_round W replies s)"
proof -
  have n: "length replies = length (sys_slots s)" using wf replies(1) by (simp add: system_wf_def)
  have "hm_wf m" if "Some m \<in> set (round_answers replies (sys_slots s))" for m
  proof -
    from that obtain k where k: "k < length (sys_slots s)" "round_answers replies (sys_slots s) ! k = Some m"
      using n by (auto simp: in_set_conv_nth round_answers_def)
    with map_of_SomeD [OF round_answer [OF replies(2) k(1) n]] have "(replies ! k, m) \<in> set (snap_log (sys_slots s ! k))" by simp
    then show ?thesis using wf k(1) by (fastforce simp: system_wf_def slot_wf_def)
  qed
  then have "hm_wf (the a)" if "a \<in> set (round_answers replies (sys_slots s))" for a
    using that replies(2) by (cases a) auto
  with wf show ?thesis
    by (auto simp: end_round_def snapshot_round_def join_snapshots_ok [OF replies(2)] system_wf_def)
qed

lemma system_wf_aggregate:
  assumes wf: "system_wf W s" and iv: "iv \<in> set (sys_intervals s)"
    and ans: "None \<notin> set (interval_answers iv (sys_slots s))" "mset order = mset [0..<length (sys_slots s)]"
  shows "system_wf W (aggregate_interval W iv order s)"
proof -
  have "length (iv_replies iv) = length (sys_slots s)" using wf iv by (simp add: system_wf_def)
  from answers_present [OF ans this] show ?thesis
  proof (cases rule: aggregate_interval_kinds [where W = W])
    case (gone c)
    with wf show ?thesis by (auto simp: system_wf_def)
  next
    case (dispatched c st acc)
    have "system_wf W (s\<lparr>sys_slots := push_all (agg_queued st) (sys_slots s)\<rparr>)" by (rule system_wf_push [OF wf]) simp_all
    moreover have "hm_wf acc" unfolding dispatched(2) by simp
    ultimately show ?thesis by (auto simp: dispatched(4) system_wf_def phase_cache_def)
  qed
qed

lemma system_wf_step:
  assumes wf: "system_wf W s" and "node_step W e s s'"
  shows "system_wf W s'"
  using assms(2)
proof (cases rule: node_step_kinds)
  case (quiet ps)
  then show ?thesis by (intro system_wf_push [OF wf])
next
  case (work k)
  with wf show ?thesis by (simp add: system_wf_work)
next
  case round_start
  have "system_wf W (s\<lparr>sys_slots := sys_slots (start_round s)\<rparr>)"
    by (rule system_wf_push [OF wf, of _ "take_snapshots [sys_fresh s..<sys_fresh s + length (sys_slots s)]"])
      (simp_all add: start_round_def Let_def)
  then show ?thesis unfolding round_start(2) by (auto simp: system_wf_def start_round_def Let_def)
next
  case (round_end replies)
  with wf show ?thesis by (simp add: system_wf_end_round)
next
  case interval_start
  have "system_wf W (s\<lparr>sys_slots := sys_slots (start_interval W s)\<rparr>)"
    by (rule system_wf_push [OF wf, of _ "rotate_requests [sys_fresh s + 1..<sys_fresh s + 1 + length (sys_slots s)]"])
      (simp_all add: start_interval_def Let_def del: upt_Suc)
  then show ?thesis
    unfolding interval_start(2) by (auto simp: system_wf_def start_interval_def phase_cache_def Let_def simp del: upt_Suc)
next
  case (aggregate iv order)
  with wf show ?thesis by (simp add: system_wf_aggregate)
next
  case (collect iv acc msgs)
  then have "hm_wf acc" using wf by (fastforce simp: system_wf_def phase_cache_def)
  with wf show ?thesis unfolding collect(5) by (auto simp: system_wf_def collect_interval_def Let_def split: sum.split)
qed

lemma system_wf_init:
  assumes "node_init W s"
  shows "system_wf W s"
proof -
  have "slot_wf sl" if "sl \<in> set (sys_slots s)" for sl
    unfolding boot_slots [OF assms that] using runner_wf_new [of "w_cfg W"]
    by (simp add: slot_wf_def snap_log_def boot_slot_def) (simp add: worker_new_def rotation_log_def)
  with assms show ?thesis
    by (auto simp: system_wf_def node_init_def boot_def node_start_def start_workers_def Let_def split: if_splits)
qed

interpretation typing: invariant "node_init W" "node_step W" "system_wf W" for W
  by unfold_locales (rule system_wf_init, assumption, rule system_wf_step)

section \<open>Properties\<close>

text \<open>
  C8. The type invariant of a node. In every reachable state the node has as many workers as it
  was configured with, and at least one; in the caches of a worker, in its answers to rotations
  and snapshots, in the cache of an interval, in a batch and in what a sender carries no name
  occurs twice; no worker has two buffers for a sender or one that survived five rotations; no
  sender carries an empty cache; and each open interval and round has one channel per worker.
\<close>

theorem node_well_typed:
  assumes "reach (node_init W) (node_step W) s"
  shows "sys_slots s \<noteq> [] \<and> length (sys_slots s) = unat (w_threads (w_cfg W)) \<and>
    (\<forall>sl \<in> set (sys_slots s). runner_wf (runner (sl_worker sl)) \<and>
      (\<forall>(ch, m) \<in> set (rotation_log (outbox (sl_worker sl)) @ snap_log sl). hm_wf m)) \<and>
    (\<forall>iv \<in> set (sys_intervals s). length (iv_replies iv) = length (sys_slots s) \<and> hm_wf (phase_cache (iv_phase iv))) \<and>
    (\<forall>replies \<in> set (sys_rounds s). length replies = length (sys_slots s)) \<and>
    (\<forall>b \<in> set (sys_batches s). hm_wf (bt_cache b)) \<and>
    (\<forall>x \<in> set (sys_senders s). \<forall>m \<in> set (snap_metrics x). m \<noteq> [] \<and> hm_wf m)"
  using typing.reach_inv [OF assms] by (simp add: system_wf_def slot_wf_def)

theorem node_well_typed_witness:
  "\<exists>b. sys_batches (sample_state 12) = [b] \<and> hm_wf (bt_cache b) \<and> length (sys_slots (sample_state 12)) = 1"
proof -
  have "length (sys_batches (sample_state 12)) = 1" by code_simp
  then obtain b where "sys_batches (sample_state 12) = [b]" by (auto simp: length_Suc_conv)
  moreover have "unat (w_threads (w_cfg sample_world)) = 1" by (simp add: sample_world_def)
  ultimately show ?thesis using node_well_typed [OF sample_reach [of 12]] by simp
qed

end
