(* ===== verification/Sockets.thy ===== *)
theory Sockets
  imports Config
begin

text \<open>
  The sockets that a node opens: \<open>bound_stream\<close> and \<open>reusing_listener\<close> of \<^verbatim>\<open>src/util.rs\<close>, the UDP
  sockets of \<^verbatim>\<open>src/udp.rs\<close> and the hook of \<^verbatim>\<open>src/raft.rs\<close>. The operating system is a parameter:
  what it answers to a call on a socket that is in a certain state.
\<close>

section \<open>Calls\<close>

datatype sock_kind = Tcp | Udp

datatype sock_role = Plain | Listening nat | Stream

text \<open>A socket, of the IPv4 family where a builder made it, and what has been done to it.\<close>

record sock =
  sk_kind :: sock_kind
  sk_reuse_address :: bool
  sk_reuse_port :: bool
  sk_bound :: "socket_addr option"
  sk_role :: sock_role
  sk_nonblocking :: bool
  sk_registered :: bool

definition new_v4 :: "sock_kind \<Rightarrow> sock" where
  "new_v4 kind =
    \<lparr>sk_kind = kind, sk_reuse_address = False, sk_reuse_port = False, sk_bound = None, sk_role = Plain,
     sk_nonblocking = False, sk_registered = False\<rparr>"

datatype sock_call =
    New
  | Reuse_address bool
  | Reuse_port bool
  | Bind socket_addr
  | Listen nat
  | To_stream
  | Set_nonblocking bool
  | Register
  | Try_clone

primrec sock_effect :: "sock_call \<Rightarrow> sock \<Rightarrow> sock" where
  "sock_effect New s = s"
| "sock_effect (Reuse_address b) s = s\<lparr>sk_reuse_address := b\<rparr>"
| "sock_effect (Reuse_port b) s = s\<lparr>sk_reuse_port := b\<rparr>"
| "sock_effect (Bind addr) s = s\<lparr>sk_bound := Some addr\<rparr>"
| "sock_effect (Listen backlog) s = s\<lparr>sk_role := Listening backlog\<rparr>"
| "sock_effect To_stream s = s\<lparr>sk_role := Stream\<rparr>"
| "sock_effect (Set_nonblocking b) s = s\<lparr>sk_nonblocking := b\<rparr>"
| "sock_effect Register s = s\<lparr>sk_registered := True\<rparr>"
| "sock_effect Try_clone s = s"

text \<open>The error of a call, if it fails.\<close>

type_synonym os = "sock \<Rightarrow> sock_call \<Rightarrow> string option"

text \<open>Calls in sequence, each with a \<open>?\<close>: the first error ends them.\<close>

fun sock_calls :: "os \<Rightarrow> sock_call list \<Rightarrow> sock \<Rightarrow> string + sock" where
  "sock_calls os [] s = Inr s"
| "sock_calls os (call # calls) s =
    (case os s call of
       Some e \<Rightarrow> Inl e
     | None \<Rightarrow> sock_calls os calls (sock_effect call s))"

section \<open>Sockets of the node\<close>

text \<open>A TCP client socket that is bound to an address before it connects.\<close>

definition bound_stream :: "os \<Rightarrow> socket_addr \<Rightarrow> string + sock" where
  "bound_stream os addr = sock_calls os [New, Bind addr, To_stream] (new_v4 Tcp)"

text \<open>The listener of the peer server.\<close>

definition reusing_listener :: "os \<Rightarrow> socket_addr \<Rightarrow> string + sock" where
  "reusing_listener os addr =
    sock_calls os [New, Reuse_address True, Bind addr, Listen 65536, Set_nonblocking True, Register] (new_v4 Tcp)"

text \<open>
  The hook that the Raft library calls with a new client socket, and whether the descriptor of
  that socket is still open afterwards. \<open>from_raw_fd\<close> makes a second owner of the descriptor. On
  success the assignment to \<open>*socket\<close> drops the first owner, on an error the return drops the
  second; either closes the descriptor.
\<close>

definition raft_conn_hook :: "os \<Rightarrow> socket_addr option \<Rightarrow> sock \<Rightarrow> (string + sock) \<times> bool" where
  "raft_conn_hook os bind_to socket =
    (case bind_to of
       None \<Rightarrow> (Inr socket, True)
     | Some addr \<Rightarrow> (sock_calls os [Bind addr, To_stream] socket, False))"

text \<open>Every UDP socket is opened with \<open>unwrap\<close>: an error of any call is a panic.\<close>

definition unwrapped :: "string + 'a \<Rightarrow> panic + 'a" where
  "unwrapped r = (case r of Inl e \<Rightarrow> Inl (Panic e) | Inr x \<Rightarrow> Inr x)"

definition udp_calls :: "socket_addr \<Rightarrow> sock_call list" where
  "udp_calls addr = [New, Reuse_address True, Reuse_port True, Bind addr]"

text \<open>Every network thread gets a clone of every socket of a pool.\<close>

definition cloned :: "os \<Rightarrow> nat \<Rightarrow> sock list \<Rightarrow> panic + sock list" where
  "cloned os threads pool =
    (if threads = 0 then Inr []
     else case map (\<lambda>s. the (os s Try_clone)) (filter (\<lambda>s. os s Try_clone \<noteq> None) pool) of
       e # _ \<Rightarrow> Inl (Panic e)
     | [] \<Rightarrow> Inr (concat (replicate threads pool)))"

text \<open>The multimessage mode has one socket.\<close>

definition sync_udp_socket :: "os \<Rightarrow> socket_addr \<Rightarrow> bool \<Rightarrow> nat \<Rightarrow> panic + sock list" where
  "sync_udp_socket os addr mm_nonblocking threads =
    (case unwrapped (sock_calls os (udp_calls addr @ [Set_nonblocking mm_nonblocking]) (new_v4 Udp)) of
       Inl p \<Rightarrow> Inl p
     | Inr sck \<Rightarrow> cloned os threads [sck])"

text \<open>The pool of the asynchronous mode.\<close>

fun async_udp_sockets :: "os \<Rightarrow> socket_addr \<Rightarrow> nat \<Rightarrow> panic + sock list" where
  "async_udp_sockets os addr 0 = Inr []"
| "async_udp_sockets os addr (Suc n) =
    (case unwrapped (sock_calls os (udp_calls addr) (new_v4 Udp)) of
       Inl p \<Rightarrow> Inl p
     | Inr sck \<Rightarrow> (case async_udp_sockets os addr n of Inl p \<Rightarrow> Inl p | Inr pool \<Rightarrow> Inr (sck # pool)))"

section \<open>What the calls achieve\<close>

lemma sock_calls_Inr_iff:
  "sock_calls os calls s = Inr s' \<longleftrightarrow>
    s' = fold sock_effect calls s \<and> (\<forall>k < length calls. os (fold sock_effect (take k calls) s) (calls ! k) = None)"
  by (induction calls arbitrary: s) (auto simp: All_less_Suc2 split: option.split)

text \<open>A call that the system refuses on every socket fails the whole sequence.\<close>

lemma sock_calls_refused:
  assumes "call \<in> set calls" and "\<And>s. os s call \<noteq> None"
  shows "\<exists>e. sock_calls os calls s = Inl e"
  using assms(1)
proof (induction calls arbitrary: s)
  case (Cons c calls)
  then show ?case using assms(2) [of s] by (auto split: option.split)
qed simp

lemma reusing_listener_ok:
  "reusing_listener os addr = Inr l \<Longrightarrow> sk_kind l = Tcp \<and> sk_bound l = Some addr \<and> sk_role l = Listening 65536 \<and>
    sk_reuse_address l \<and> sk_nonblocking l \<and> sk_registered l"
  by (simp add: reusing_listener_def sock_calls_Inr_iff new_v4_def del: sock_calls.simps)

lemma bound_stream_ok:
  "bound_stream os addr = Inr s \<Longrightarrow> sk_kind s = Tcp \<and> sk_bound s = Some addr \<and> sk_role s = Stream"
  by (simp add: bound_stream_def sock_calls_Inr_iff new_v4_def del: sock_calls.simps)

lemma async_udp_sockets_ok:
  "sock_calls os (udp_calls addr) (new_v4 Udp) = Inr sck \<Longrightarrow> async_udp_sockets os addr n = Inr (replicate n sck)"
  by (induction n) (simp_all add: unwrapped_def)

section \<open>Address families\<close>

text \<open>
  The builders make IPv4 sockets; the system does not bind such a socket to an address of the
  other family.
\<close>

definition is_v6 :: "socket_addr \<Rightarrow> bool" where
  "is_v6 a = (case a of SocketAddrV4 _ _ _ _ _ \<Rightarrow> False | SocketAddrV6 _ _ _ _ \<Rightarrow> True)"

definition family_law :: "os \<Rightarrow> bool" where
  "family_law os \<longleftrightarrow> (\<forall>s a. is_v6 a \<longrightarrow> os s (Bind a) \<noteq> None)"

definition sample_os :: os where
  "sample_os s call = (case call of Bind a \<Rightarrow> if is_v6 a then Some ''EAFNOSUPPORT'' else None | _ \<Rightarrow> None)"

lemma sample_os_family: "family_law sample_os"
  by (simp add: family_law_def sample_os_def)

section \<open>Properties\<close>

text \<open>
  A node cannot be reached over IPv6, although addresses of that family can be configured
  and are resolved: with a system that keeps the families apart, neither the peer listener nor
  a bound client socket nor a UDP socket can be opened for such an address, and in either UDP
  mode the attempt is a panic.
\<close>

lemma ipv6_sockets_fail:
  assumes "family_law os" and "is_v6 addr" and "0 < n"
  shows "(\<exists>e. reusing_listener os addr = Inl e) \<and> (\<exists>e. bound_stream os addr = Inl e) \<and>
    (\<exists>p. sync_udp_socket os addr mm_nonblocking n = Inl p) \<and> (\<exists>p. async_udp_sockets os addr n = Inl p)"
proof -
  have fails: "\<exists>e. sock_calls os calls s = Inl e" if "Bind addr \<in> set calls" for calls s
    using that assms(1,2) by (intro sock_calls_refused [of "Bind addr"]) (auto simp: family_law_def)
  have udp: "\<exists>e. sock_calls os (udp_calls addr) s = Inl e"
      "\<exists>e. sock_calls os (udp_calls addr @ [Set_nonblocking mm_nonblocking]) s = Inl e" for s
    by (rule fails, simp add: udp_calls_def)+
  obtain k where "n = Suc k" using assms(3) by (cases n) auto
  then have "\<exists>p. async_udp_sockets os addr n = Inl p"
    using udp(1) [of "new_v4 Udp"] by (auto simp: unwrapped_def)
  moreover have "\<exists>p. sync_udp_socket os addr mm_nonblocking n = Inl p"
    using udp(2) [of "new_v4 Udp"] by (auto simp: sync_udp_socket_def unwrapped_def)
  moreover have "\<exists>e. reusing_listener os addr = Inl e" "\<exists>e. bound_stream os addr = Inl e"
    unfolding reusing_listener_def bound_stream_def by (rule fails, simp)+
  ultimately show ?thesis by blast
qed

end
