(* ===== verification/Replication.thy ===== *)
theory Replication
  imports Node Sockets
begin

text \<open>
  The two ends of replication as \<^verbatim>\<open>src/main.rs\<close> starts them: the peer server of \<^verbatim>\<open>src/peer.rs\<close>
  with its listening socket, under the retrying future; the snapshot client with the addresses
  of its peers; and a snapshot sender under its own retrying future. A message that was written
  to the connection without an error counts as received by the peer: the protocol has no
  acknowledgement.
\<close>

section \<open>The peer server\<close>

record native_server =
  ns_listen :: socket_addr
  ns_chans :: nat

definition native_server_new :: "socket_addr \<Rightarrow> nat \<Rightarrow> native_server" where
  "native_server_new addr n = \<lparr>ns_listen = addr, ns_chans = n\<rparr>"

text \<open>
  The stream of incoming connections: each is an error of accepting or the items that the
  connection will deliver. Connections are served by tasks of their own, each with its own
  cycle through the workers; only an error of accepting ends the server.
\<close>

fun serve_incoming ::
    "('w, 'r, 'm) capnp_lib \<Rightarrow> nat \<Rightarrow> (string + (string + 'w) list) list
      \<Rightarrow> ((nat \<times> 'm task) list \<times> conn_end) list \<times> peer_error option" where
  "serve_incoming cl n [] = ([], None)"
| "serve_incoming cl n (Inl e # incoming) = ([], Some (peer_error.Io e))"
| "serve_incoming cl n (Inr items # incoming) =
    (let (conns, res) = serve_incoming cl n incoming in (peer_connection cl n 0 items # conns, res))"

definition native_server_run ::
    "os \<Rightarrow> ('w, 'r, 'm) capnp_lib \<Rightarrow> native_server \<Rightarrow> (string + (string + 'w) list) list
      \<Rightarrow> ((nat \<times> 'm task) list \<times> conn_end) list \<times> peer_error option" where
  "native_server_run os cl srv incoming =
    (case reusing_listener os (ns_listen srv) of
       Inl e \<Rightarrow> ([], Some (peer_error.Io e))
     | Inr listener \<Rightarrow> serve_incoming cl (ns_chans srv) incoming)"

text \<open>
  A run of the server as the retrying future sees it: it fails or goes on.
\<close>

definition run_outcome :: "'a \<times> peer_error option \<Rightarrow> (unit, peer_error) polled" where
  "run_outcome res = (case snd res of None \<Rightarrow> NotReady | Some e \<Rightarrow> Failed e)"

section \<open>The snapshot client\<close>

text \<open>\<open>NativeProtocolSnapshot::new\<close> resolves every node, and panics where that fails.\<close>

record native_snapshot =
  nsn_nodes :: "socket_addr list"
  nsn_bind :: "socket_addr option"
  nsn_interval :: u64

fun resolve_all :: "(string \<Rightarrow> panic + socket_addr) \<Rightarrow> string list \<Rightarrow> panic + socket_addr list" where
  "resolve_all resolve [] = Inr []"
| "resolve_all resolve (node # rest) =
    (case resolve node of
       Inl p \<Rightarrow> Inl p
     | Inr addr \<Rightarrow> (case resolve_all resolve rest of Inl p \<Rightarrow> Inl p | Inr peers \<Rightarrow> Inr (addr # peers)))"

definition native_snapshot_new ::
    "(string \<Rightarrow> panic + socket_addr) \<Rightarrow> string list \<Rightarrow> socket_addr option \<Rightarrow> u64 \<Rightarrow> panic + native_snapshot" where
  "native_snapshot_new resolve nodes bind_to interval =
    map_sum id (\<lambda>peers. \<lparr>nsn_nodes = peers, nsn_bind = bind_to, nsn_interval = interval\<rparr>) (resolve_all resolve nodes)"

section \<open>A sender under its retrying future\<close>

text \<open>
  One attempt: its bind goes through \<open>bound_stream\<close>, and connecting and sending may fail.
  Whether the message of an attempt that failed while sending has arrived is not known to the
  sender.
\<close>

record 'w attempt =
  at_os :: os
  at_connect :: "socket_addr \<Rightarrow> string option"
  at_send :: "'w \<Rightarrow> string option"
  at_arrives :: bool

definition bind_error :: "os \<Rightarrow> socket_addr \<Rightarrow> string option" where
  "bind_error os addr = (case bound_stream os addr of Inl e \<Rightarrow> Some e | Inr s \<Rightarrow> None)"

definition sender_attempt ::
    "('w, 'r, 'm) capnp_lib \<Rightarrow> 'm snapshot_sender \<Rightarrow> 'w attempt \<Rightarrow> counters \<Rightarrow> (panic + peer_error + 'w) \<times> counters" where
  "sender_attempt cl s a c = snapshot_send cl (bind_error (at_os a)) (at_connect a) (at_send a) s c"

text \<open>What the retrying future sees of it, a panic ending the future, and what the peer receives.\<close>

definition sender_outcome ::
    "('w, 'r, 'm) capnp_lib \<Rightarrow> 'm snapshot_sender \<Rightarrow> 'w attempt \<Rightarrow> (panic + 'w, peer_error) polled" where
  "sender_outcome cl s a =
    (case fst (sender_attempt cl s a counters_init) of
       Inl p \<Rightarrow> Ready (Inl p)
     | Inr (Inl e) \<Rightarrow> Failed e
     | Inr (Inr msg) \<Rightarrow> Ready (Inr msg))"

definition received_messages ::
    "('w, 'r, 'm) capnp_lib \<Rightarrow> 'm snapshot_sender \<Rightarrow> 'w attempt \<Rightarrow> 'w list" where
  "received_messages cl s a =
    (case sender_outcome cl s a of
       Ready (Inr msg) \<Rightarrow> [msg]
     | Failed (Capnp e) \<Rightarrow>
         (case snapshot_message cl (snap_metrics s) of Inr msg \<Rightarrow> if at_arrives a then [msg] else [] | Inl p \<Rightarrow> [])
     | _ \<Rightarrow> [])"

text \<open>The sender under \<open>peer_client_ret\<close>: its result and how many attempts it made.\<close>

definition sender_run ::
    "('w, 'r, 'm) capnp_lib \<Rightarrow> 'm snapshot_sender \<Rightarrow> 'w attempt list \<Rightarrow> ((panic + 'w, peer_error) poll_result \<times> nat) option" where
  "sender_run cl s tries =
    (case backoff_poll (retry_rounds (map (sender_outcome cl s) tries)) (backoff_spawn peer_client_ret) of
       None \<Rightarrow> None
     | Some (r, b, rest) \<Rightarrow> Some (r, attempts b))"

section \<open>Lemmas\<close>

lemma serve_incoming_spec:
  "serve_incoming cl n incoming =
    (map (peer_connection cl n 0 \<circ> projr) (takeWhile (Not \<circ> isl) incoming),
     case dropWhile (Not \<circ> isl) incoming of [] \<Rightarrow> None | r # _ \<Rightarrow> Some (peer_error.Io (projl r)))"
  by (induction cl n incoming rule: serve_incoming.induct) (simp_all add: case_prod_unfold)

lemma resolve_all_Inr_iff:
  "resolve_all resolve nodes = Inr peers \<longleftrightarrow> map resolve nodes = map Inr peers"
proof (induction nodes arbitrary: peers)
  case (Cons node rest)
  then show ?case by (cases "resolve node"; cases "resolve_all resolve rest") (auto simp: Cons_eq_map_conv)
qed auto

lemma retried_failures:
  "length errs \<le> n \<Longrightarrow> retried n (map Failed errs @ outcomes) =
    map_option (map_prod id ((+) (length errs))) (retried (n - length errs) outcomes)"
proof (induction errs arbitrary: n)
  case (Cons e errs)
  then obtain m where "n = Suc m" "length errs \<le> m" by (cases n) auto
  with Cons.IH [of m] show ?case
    by (cases "retried (m - length errs) outcomes") auto
next
  case Nil
  then show ?case by (cases "retried n outcomes") auto
qed

text \<open>The sender follows the reference loop, with three retries.\<close>

lemma sender_run_retried: "sender_run cl s tries = retried 3 (map (sender_outcome cl s) tries)"
proof -
  have "unat (retries (options (backoff_spawn peer_client_ret))) = 3" "inner (backoff_spawn peer_client_ret) = Action"
      "attempts (backoff_spawn peer_client_ret) = 1"
    by (simp_all add: backoff_spawn_def peer_client_ret_def)
  with backoff_poll_retried [of "backoff_spawn peer_client_ret" "map (sender_outcome cl s) tries"] show ?thesis
    by (auto simp: sender_run_def split: option.splits)
qed

lemma sender_outcome_cases:
  assumes "snapshot_message cl (snap_metrics s) = Inr msg"
  shows "sender_outcome cl s a = Ready (Inr msg) \<and> received_messages cl s a = [msg] \<or>
    (\<exists>e. sender_outcome cl s a = Failed e) \<and>
      (received_messages cl s a = [] \<or> at_arrives a \<and> received_messages cl s a = [msg])"
proof -
  have "sender_outcome cl s a = Ready (Inr msg) \<or> (\<exists>e. sender_outcome cl s a = Failed e)"
    by (auto simp: sender_outcome_def sender_attempt_def snapshot_send_def assms Let_def split: option.splits)
  then show ?thesis by (auto simp: received_messages_def assms split: peer_error.splits if_splits)
qed

lemma retried_messages:
  assumes "snapshot_message cl (snap_metrics s) = Inr msg" and "retried n (map (sender_outcome cl s) tries) = Some (r, k)"
  shows "\<exists>j. concat (map (received_messages cl s) (take k tries)) = replicate j msg \<and> j \<le> k \<and>
    ((r = Returned (Inr msg) \<and> 1 \<le> j) \<or> (\<exists>e. r = GaveUp e)) \<and>
    ((\<forall>a \<in> set tries. \<not> at_arrives a) \<longrightarrow> j = (if r = Returned (Inr msg) then 1 else 0))"
  using assms(2)
proof (induction tries arbitrary: n k)
  case (Cons a tries)
  from sender_outcome_cases [OF assms(1), of a] show ?case
  proof
    assume "sender_outcome cl s a = Ready (Inr msg) \<and> received_messages cl s a = [msg]"
    with Cons.prems show ?thesis by (intro exI [of _ 1]) auto
  next
    assume "(\<exists>e. sender_outcome cl s a = Failed e) \<and>
      (received_messages cl s a = [] \<or> at_arrives a \<and> received_messages cl s a = [msg])"
    then obtain e i where e: "sender_outcome cl s a = Failed e"
      and i: "received_messages cl s a = replicate i msg" "i \<le> 1" "\<not> at_arrives a \<longrightarrow> i = 0"
      by (metis One_nat_def le_numeral_extra(4) less_eq_nat.simps(1) replicate_0 replicate_Suc)
    show ?thesis
    proof (cases n)
      case 0
      with e Cons.prems have "r = GaveUp e" "k = 1" by auto
      with i show ?thesis by (intro exI [of _ i]) auto
    next
      case (Suc m)
      with e Cons.prems obtain k' where k': "retried m (map (sender_outcome cl s) tries) = Some (r, k')" "k = Suc k'" by auto
      from Cons.IH [OF k'(1)] obtain j where "concat (map (received_messages cl s) (take k' tries)) = replicate j msg" "j \<le> k'"
          "(r = Returned (Inr msg) \<and> 1 \<le> j) \<or> (\<exists>e. r = GaveUp e)"
          "(\<forall>a \<in> set tries. \<not> at_arrives a) \<longrightarrow> j = (if r = Returned (Inr msg) then 1 else 0)"
        by blast
      with i k'(2) show ?thesis by (intro exI [of _ "i + j"]) (auto simp: replicate_add)
    qed
  qed
qed simp

section \<open>Properties\<close>

text \<open>
  C16. The peer server. It serves every connection that it accepted before the first error of
  accepting, each independently of the others and from the first worker on; that error is its
  result, as is an error of opening the listener, after which no connection is served. Under
  its retrying future it is started again after every failure, up to \<open>2 ^ 64 - 1\<close> of them, one
  millisecond later.
\<close>

theorem peer_server_serves:
  assumes "length runs < 2 ^ 64" and "\<forall>run \<in> set runs. snd (native_server_run (fst run) cl srv (snd run)) \<noteq> None"
    and "snd (native_server_run os cl srv incoming) = None"
  shows "native_server_run os' cl srv incoming' =
      (case reusing_listener os' (ns_listen srv) of
         Inl e \<Rightarrow> ([], Some (peer_error.Io e))
       | Inr l \<Rightarrow> (map (peer_connection cl (ns_chans srv) 0 \<circ> projr) (takeWhile (Not \<circ> isl) incoming'),
           case dropWhile (Not \<circ> isl) incoming' of [] \<Rightarrow> None | r # _ \<Rightarrow> Some (peer_error.Io (projl r)))) \<and>
    (\<exists>b rest. backoff_poll (retry_rounds (map (\<lambda>run. run_outcome (native_server_run (fst run) cl srv (snd run))) (runs @ [(os, incoming)])))
        (backoff_spawn peer_server_ret) = Some (Pending, b, rest) \<and>
      attempts b = length runs + 1 \<and> waits b = replicate (length runs) 1)"
proof -
  let ?b = "backoff_spawn peer_server_ret"
  let ?outs = "map (\<lambda>run. run_outcome (native_server_run (fst run) cl srv (snd run))) (runs @ [(os, incoming)])"
  let ?errs = "map (\<lambda>run. the (snd (native_server_run (fst run) cl srv (snd run)))) runs"
  have outs: "?outs = map Failed ?errs @ [NotReady]"
    using assms(2,3) by (auto simp: run_outcome_def split: option.split)
  have "unat (retries (options ?b)) = 2 ^ 64 - 1"
    by (simp add: backoff_spawn_def peer_server_ret_def unsigned_minus_1_eq_mask mask_eq_exp_minus_1)
  with assms(1) have "length ?errs \<le> unat (retries (options ?b))" by simp
  then have retry: "retried (unat (retries (options ?b))) ?outs = Some (Pending, length runs + 1)"
    unfolding outs retried_failures [OF \<open>length ?errs \<le> unat (retries (options ?b))\<close>] by simp
  have delay: "retry_delay peer_server_ret = 1" by code_simp
  have b: "inner ?b = Action" "attempts ?b = 1" "waits ?b = []" "options ?b = peer_server_ret"
    by (simp_all add: backoff_spawn_def)
  from backoff_poll_retried [OF b(1), of ?outs] show ?thesis
    unfolding retry by (simp add: b delay native_server_run_def serve_incoming_spec split: sum.split)
qed

theorem peer_server_serves_witness:
  "\<exists>b rest. backoff_poll (retry_rounds (map (\<lambda>run. run_outcome
      (native_server_run (fst run) sample_capnp (native_server_new (localhost 8136) 4) (snd run)))
      ([(\<lambda>s call. Some ''EADDRINUSE'', []), (sample_os, [Inl ''EMFILE''])] @ [(sample_os, [Inr []])])))
      (backoff_spawn peer_server_ret) = Some (Pending, b, rest) \<and> attempts b = 3 \<and> waits b = [1, 1]"
proof -
  have runs: "\<forall>run \<in> set [(\<lambda>s call. Some ''EADDRINUSE'', []), (sample_os, [Inl ''EMFILE''])].
      snd (native_server_run (fst run) sample_capnp (native_server_new (localhost 8136) 4) (snd run)) \<noteq> None"
    and last: "snd (native_server_run sample_os sample_capnp (native_server_new (localhost 8136) 4) [Inr []]) = None"
    by (simp_all add: native_server_run_def native_server_new_def reusing_listener_def sample_os_def is_v6_def)
  from peer_server_serves [OF _ runs last, THEN conjunct2] show ?thesis
    by (simp add: numeral_3_eq_3 del: retry_rounds_simps backoff_poll.simps map_append)
qed

text \<open>
  C15. A snapshot is sent at least once or given up after four attempts, and arrives at most
  four times. If no attempt that failed has delivered its message, it arrives exactly once
  where the sender succeeded and not at all where it gave up. The snapshot is assumed to fit
  into a message.
\<close>

theorem snapshot_sent_at_least_once:
  assumes "snapshot_message cl (snap_metrics s) = Inr msg" and "sender_run cl s tries = Some (r, k)"
  shows "\<exists>j. concat (map (received_messages cl s) (take k tries)) = replicate j msg \<and> j \<le> k \<and> k \<le> 4 \<and>
    ((r = Returned (Inr msg) \<and> 1 \<le> j) \<or> (\<exists>e. r = GaveUp e \<and> k = 4)) \<and>
    ((\<forall>a \<in> set tries. \<not> at_arrives a) \<longrightarrow> j = (if r = Returned (Inr msg) then 1 else 0))"
proof -
  have retry: "retried 3 (map (sender_outcome cl s) tries) = Some (r, k)"
    using assms(2) by (simp add: sender_run_retried)
  from retried_messages [OF assms(1) retry] retried_bounds [OF retry] show ?thesis by auto
qed

definition refusing :: "(bytes \<times> nat) which attempt" where
  "refusing = \<lparr>at_os = sample_os, at_connect = (\<lambda>a. Some ''ECONNREFUSED''), at_send = (\<lambda>m. None), at_arrives = False\<rparr>"

definition breaking :: "(bytes \<times> nat) which attempt" where
  "breaking = \<lparr>at_os = sample_os, at_connect = (\<lambda>a. None), at_send = (\<lambda>m. Some ''EPIPE''), at_arrives = True\<rparr>"

definition working :: "(bytes \<times> nat) which attempt" where
  "working = \<lparr>at_os = sample_os, at_connect = (\<lambda>a. None), at_send = (\<lambda>m. None), at_arrives = False\<rparr>"

definition sample_sender :: "nat snapshot_sender" where
  "sample_sender = \<lparr>snap_metrics = [[(''a'', 3)]], snap_options = \<lparr>snap_address = localhost 1, snap_bind = None\<rparr>\<rparr>"

theorem snapshot_sent_at_least_once_witness:
  "\<exists>r k. sender_run sample_capnp sample_sender [refusing, breaking, working] = Some (r, k) \<and>
    (\<exists>j. concat (map (received_messages sample_capnp sample_sender) (take k [refusing, breaking, working])) =
      replicate j (MSnapshot (Inr [(''a'', 3)])) \<and> j \<le> k \<and> k \<le> 4)"
proof -
  have msg: "snapshot_message sample_capnp (snap_metrics sample_sender) = Inr (MSnapshot (Inr [(''a'', 3)]))"
    by (simp add: snapshot_message_fits sample_sender_def sample_capnp_def)
  have "sender_run sample_capnp sample_sender [refusing, breaking, working] \<noteq> None"
    unfolding sender_run_retried by code_simp
  then obtain r k where "sender_run sample_capnp sample_sender [refusing, breaking, working] = Some (r, k)" by auto
  with snapshot_sent_at_least_once [OF msg this] show ?thesis by blast
qed

text \<open>
  C39. All snapshots land on the first worker. A sender opens a connection of its own for its
  one message, and every connection starts its cycle through the workers anew; so whatever the
  number of workers, each snapshot becomes one \<open>AddSnapshot\<close> task with the metrics of the sender
  in the queue of worker \<open>0\<close>.
\<close>

theorem snapshots_land_on_first_worker:
  assumes "capnp_law cl ok" and "0 < n"
    and "\<forall>s \<in> set senders. length (concat (snap_metrics s)) < 2 ^ 32 \<and>
      (\<forall>(name, m) \<in> set (concat (snap_metrics s)). ok name m)"
  shows "\<exists>msgs. map (\<lambda>s. snapshot_message cl (snap_metrics s)) senders = map Inr msgs \<and>
    serve_incoming cl n (map (\<lambda>msg. Inr [Inr msg]) msgs) =
      (map (\<lambda>s. ([(0, AddSnapshot (concat (snap_metrics s)))], Closed)) senders, None)"
  using assms(3)
proof (induction senders)
  case (Cons s senders)
  then obtain msgs where msgs: "map (\<lambda>s. snapshot_message cl (snap_metrics s)) senders = map Inr msgs"
      "serve_incoming cl n (map (\<lambda>msg. Inr [Inr msg]) msgs) =
        (map (\<lambda>s. ([(0, AddSnapshot (concat (snap_metrics s)))], Closed)) senders, None)"
    by auto
  from peer_connection_snapshot [OF assms(1) _ _ assms(2), of "snap_metrics s" 0] Cons.prems
  obtain msg where "snapshot_message cl (snap_metrics s) = Inr msg"
      "peer_connection cl n 0 [Inr msg] = ([(0, AddSnapshot (concat (snap_metrics s)))], Closed)"
    by auto
  with msgs show ?case by (intro exI [of _ "msg # msgs"]) (simp del: peer_connection.simps)
qed simp

theorem snapshots_land_on_first_worker_witness:
  "\<exists>msgs. serve_incoming sample_capnp 4 (map (\<lambda>msg. Inr [Inr msg]) msgs) =
    (replicate 3 ([(0, AddSnapshot [(''a'', 3)])], Closed), None)"
  using snapshots_land_on_first_worker [OF sample_capnp_law, of 4 "replicate 3 sample_sender"]
  by (auto simp: sample_sender_def)

end
