(* ===== verification/Cluster.thy ===== *)
theory Cluster
  imports Snapshots Replication
begin

text \<open>
  Several nodes that replicate to each other. Each node is the system of threads of its own
  world; between them are the snapshot senders that a node made, each with its attempts under
  the retrying future, and the messages that these put on the network. A message reaches the
  node that listens at the address of the sender, over a connection of its own, at any later
  time. Nothing else comes in over the peer port.
\<close>

section \<open>State\<close>

text \<open>
  How far a sender got: the attempts it made, the copies of its message that the network took,
  those of them that arrived, and whether it has ended.
\<close>

record progress =
  pr_attempts :: nat
  pr_copies :: nat
  pr_arrived :: nat
  pr_over :: bool

definition progress_new :: progress where
  "progress_new = \<lparr>pr_attempts = 0, pr_copies = 0, pr_arrived = 0, pr_over = False\<rparr>"

text \<open>The nodes, and the progress of each sender of each node.\<close>

record 'm cluster =
  cl_nodes :: "'m system list"
  cl_progress :: "nat \<Rightarrow> nat \<Rightarrow> progress"

section \<open>Steps\<close>

text \<open>A sender ends with its first success, with a panic, or when its retries are used up.\<close>

definition attempted :: "('w, 'r, 'm) capnp_lib \<Rightarrow> 'm snapshot_sender \<Rightarrow> 'w attempt \<Rightarrow> progress \<Rightarrow> progress" where
  "attempted cl s a p =
    p\<lparr>pr_attempts := pr_attempts p + 1, pr_copies := pr_copies p + length (received_messages cl s a),
      pr_over := (case sender_outcome cl s a of Failed e \<Rightarrow> unat (retries peer_client_ret) \<le> pr_attempts p | _ \<Rightarrow> True)\<rparr>"

definition set_progress :: "nat \<Rightarrow> nat \<Rightarrow> progress \<Rightarrow> 'm cluster \<Rightarrow> 'm cluster" where
  "set_progress i k p c = c\<lparr>cl_progress := (cl_progress c)(i := (cl_progress c i)(k := p))\<rparr>"

definition set_node :: "nat \<Rightarrow> 'm system \<Rightarrow> 'm cluster \<Rightarrow> 'm cluster" where
  "set_node i s c = c\<lparr>cl_nodes := (cl_nodes c)[i := s]\<rparr>"

definition local_event :: "'w event \<Rightarrow> bool" where
  "local_event e =
    (case e of PeerOpen c \<Rightarrow> False | PeerMessage c msg \<Rightarrow> False | PeerClose c \<Rightarrow> False | SendError \<Rightarrow> False | _ \<Rightarrow> True)"

abbreviation listens :: "('w, 'r, 'm) world \<Rightarrow> socket_addr" where
  "listens W \<equiv> peer_listen (network (w_cfg W))"

abbreviation sender_of :: "'m cluster \<Rightarrow> nat \<Rightarrow> nat \<Rightarrow> 'm snapshot_sender" where
  "sender_of c i k \<equiv> sys_senders (cl_nodes c ! i) ! k"

abbreviation goes_to :: "'m snapshot_sender \<Rightarrow> socket_addr" where
  "goes_to s \<equiv> snap_address (snap_options s)"

datatype 'w cluster_event = Local nat "'w event" | Attempt nat nat "'w attempt" | Arrive nat nat nat nat

inductive cluster_step :: "('w, 'r, 'm) world list \<Rightarrow> 'w cluster_event \<Rightarrow> 'm cluster \<Rightarrow> 'm cluster \<Rightarrow> bool" for Ws where
  local_step: "i < length Ws \<Longrightarrow> local_event e \<Longrightarrow> node_step (Ws ! i) e (cl_nodes c ! i) s \<Longrightarrow>
    cluster_step Ws (Local i e) c (set_node i s c)"
| attempt: "i < length Ws \<Longrightarrow> k < length (sys_senders (cl_nodes c ! i)) \<Longrightarrow> \<not> pr_over (cl_progress c i k) \<Longrightarrow>
    s = (cl_nodes c ! i)\<lparr>sys_stats := snd (sender_attempt (w_capnp (Ws ! i)) (sender_of c i k) a (sys_stats (cl_nodes c ! i)))\<rparr> \<Longrightarrow>
    cluster_step Ws (Attempt i k a) c
      (set_progress i k (attempted (w_capnp (Ws ! i)) (sender_of c i k) a (cl_progress c i k)) (set_node i s c))"
| arrive: "i < length Ws \<Longrightarrow> j < length Ws \<Longrightarrow> pr_arrived (cl_progress c i k) < pr_copies (cl_progress c i k) \<Longrightarrow>
    goes_to (sender_of c i k) = listens (Ws ! j) \<Longrightarrow>
    snapshot_message (w_capnp (Ws ! i)) (snap_metrics (sender_of c i k)) = Inr msg \<Longrightarrow>
    node_step (Ws ! j) (PeerOpen conn) (cl_nodes c ! j) s1 \<Longrightarrow>
    node_step (Ws ! j) (PeerMessage conn msg) s1 s2 \<Longrightarrow> node_step (Ws ! j) (PeerClose conn) s2 s3 \<Longrightarrow>
    cluster_step Ws (Arrive i k j conn) c
      (set_progress i k ((cl_progress c i k)\<lparr>pr_arrived := pr_arrived (cl_progress c i k) + 1\<rparr>) (set_node j s3 c))"

definition cluster_init :: "('w, 'r, 'm) world list \<Rightarrow> 'm cluster \<Rightarrow> bool" where
  "cluster_init Ws c \<longleftrightarrow> length (cl_nodes c) = length Ws \<and> (\<forall>i < length Ws. node_init (Ws ! i) (cl_nodes c ! i)) \<and>
    cl_progress c = (\<lambda>i k. progress_new)"

lemma set_simps [simp]:
  "cl_nodes (set_node i s c) = (cl_nodes c)[i := s]" "cl_progress (set_node i s c) = cl_progress c"
  "cl_nodes (set_progress i k p c) = cl_nodes c"
  "cl_progress (set_progress i k p c) j l = (if j = i \<and> l = k then p else cl_progress c j l)"
  by (simp_all add: set_node_def set_progress_def)

section \<open>Every node is a node\<close>

text \<open>What a step of the cluster is for one of its nodes: nothing, or steps of that node.\<close>

definition nodes_ok :: "('w, 'r, 'm) world list \<Rightarrow> 'm cluster \<Rightarrow> bool" where
  "nodes_ok Ws c \<longleftrightarrow> length (cl_nodes c) = length Ws \<and>
    (\<forall>i < length Ws. reach (node_init (Ws ! i)) (node_step (Ws ! i)) (cl_nodes c ! i))"

lemma sender_attempt_counts:
  "snd (sender_attempt cl s a c) = c \<or> snd (sender_attempt cl s a c) = add_peer_errors 1 c"
  by (auto simp: sender_attempt_def snapshot_send_def Let_def split: option.split sum.split)

lemma attempt_step:
  assumes "s' = s\<lparr>sys_stats := snd (sender_attempt cl sndr a (sys_stats s))\<rparr>"
  shows "s' = s \<or> node_step W SendError s s'"
  using sender_attempt_counts [of cl sndr a "sys_stats s"] send_error [of W s] assms by auto

lemma nodes_ok_set:
  "nodes_ok Ws c \<Longrightarrow> i < length Ws \<Longrightarrow> reach (node_init (Ws ! i)) (node_step (Ws ! i)) s \<Longrightarrow> nodes_ok Ws (set_node i s c)"
  by (simp add: nodes_ok_def nth_list_update)

lemma nodes_ok_progress [simp]: "nodes_ok Ws (set_progress i k p c) = nodes_ok Ws c"
  by (simp add: nodes_ok_def)

interpretation nodes: invariant "cluster_init Ws" "cluster_step Ws" "nodes_ok Ws" for Ws
proof (unfold_locales, goal_cases)
  case (1 c)
  then show ?case by (auto simp: cluster_init_def nodes_ok_def intro: reach_init)
next
  case (2 c e c')
  from 2(3) show ?case
  proof cases
    case (local_step i e' s)
    have "reach (node_init (Ws ! i)) (node_step (Ws ! i)) (cl_nodes c ! i)" using 2(2) local_step(3) by (simp add: nodes_ok_def)
    with local_step(5) have "reach (node_init (Ws ! i)) (node_step (Ws ! i)) s" by (rule reach_step [rotated])
    with 2(2) local_step(2,3) show ?thesis by (simp add: nodes_ok_set)
  next
    case (attempt i k s a)
    have "reach (node_init (Ws ! i)) (node_step (Ws ! i)) (cl_nodes c ! i)" using 2(2) attempt(3) by (simp add: nodes_ok_def)
    with attempt_step [OF attempt(6), of "Ws ! i"] have "reach (node_init (Ws ! i)) (node_step (Ws ! i)) s"
      by (auto intro: reach_step)
    with 2(2) attempt(2,3) show ?thesis by (simp add: nodes_ok_set)
  next
    case (arrive i j k msg conn s1 s2 s3)
    have "reach (node_init (Ws ! j)) (node_step (Ws ! j)) (cl_nodes c ! j)" using 2(2) arrive(4) by (simp add: nodes_ok_def)
    with arrive(8-10) have "reach (node_init (Ws ! j)) (node_step (Ws ! j)) s3" by (meson reach_step)
    with 2(2) arrive(2,4) show ?thesis by (simp add: nodes_ok_set)
  qed
qed

section \<open>What the steps of a node do to senders and received snapshots\<close>

text \<open>The snapshots that the workers of a node were given, executed or not.\<close>

definition snapshot_load :: "'m task \<Rightarrow> (bytes \<times> 'm) list list" where
  "snapshot_load t = (case t of AddSnapshot kvs \<Rightarrow> [kvs] | _ \<Rightarrow> [])"

definition slot_snapshots :: "'m slot \<Rightarrow> (bytes \<times> 'm) list multiset" where
  "slot_snapshots sl = mset (concat (map snapshot_load (sl_done sl @ sl_queue sl)))"

definition got_snapshots :: "'m system \<Rightarrow> (bytes \<times> 'm) list multiset" where
  "got_snapshots s = (\<Sum>k<length (sys_slots s). slot_snapshots (sys_slots s ! k))"

lemma snapshot_load_simps [simp]: "snapshot_load (AddSnapshot kvs) = [kvs]" "\<not> is_AddSnapshot t \<Longrightarrow> snapshot_load t = []"
  by (cases t; simp add: snapshot_load_def)+

lemma got_snapshots_push:
  assumes "sys_slots s' = push_all ps (sys_slots s)" and "\<forall>p \<in> set ps. \<not> is_AddSnapshot (snd p)"
  shows "got_snapshots s' = got_snapshots s"
proof -
  have "concat (map (snapshot_load \<circ> snd) (filter (\<lambda>p. fst p = k) ps)) = []" for k
    using assms(2) by (simp add: list.map_id)
  then show ?thesis
    using assms(1) by (simp add: got_snapshots_def slot_snapshots_def nth_push_all del: concat_eq_Nil_conv mset_concat)
qed

lemma got_snapshots_work:
  assumes "k < length (sys_slots s)" and "sl_queue (sys_slots s ! k) \<noteq> []"
  shows "got_snapshots (work W k s) = got_snapshots s"
proof -
  have "slot_snapshots (sys_slots (work W k s) ! j) = slot_snapshots (sys_slots s ! j)" if "j < length (sys_slots s)" for j
    using assms by (cases "sl_queue (sys_slots s ! k)") (auto simp: slot_work [OF assms(1) that] slot_snapshots_def)
  then show ?thesis by (simp add: got_snapshots_def)
qed

lemma got_snapshots_step:
  assumes "node_step W e s s'" and "\<And>conn msg. e \<noteq> PeerMessage conn msg"
  shows "got_snapshots s' = got_snapshots s"
  using step_slots [OF assms(1)]
proof (elim disjE exE conjE)
  fix k assume "k < length (sys_slots s)" "sl_queue (sys_slots s ! k) \<noteq> []" "s' = work W k s"
  then show ?thesis by (simp add: got_snapshots_work)
next
  fix ps assume ps: "sys_slots s' = push_all ps (sys_slots s)" "\<forall>p \<in> set ps. queued_by e (snd p)"
  have "\<not> is_AddSnapshot t" if "queued_by e t" for t
    using that assms(2) by (cases t; cases e) (auto simp: queued_by_def)
  with ps show ?thesis by (intro got_snapshots_push) auto
qed

lemma got_snapshots_message:
  assumes "node_step W (PeerMessage conn msg) s s'" and "sys_conns s conn = Some 0"
    and "\<And>n. 0 < n \<Longrightarrow> peer_connection (w_capnp W) n 0 [Inr msg] = ([(0, AddSnapshot kvs)], Closed)"
  shows "got_snapshots s' = got_snapshots s + {#kvs#}"
  using assms(1)
proof cases
  case (peer_message pos k t)
  then have "k = 0 \<and> t = AddSnapshot kvs \<and> 0 < length (sys_slots s)"
    using assms(2,3) peer_connection_task [of "w_capnp W" "length (sys_slots s)" pos msg k t] by auto
  then have s': "sys_slots s' = (sys_slots s)[0 := (sys_slots s ! 0)\<lparr>sl_queue := sl_queue (sys_slots s ! 0) @ [AddSnapshot kvs]\<rparr>]"
      "0 < length (sys_slots s)"
    using peer_message(1) by (simp_all add: push_all_def push_def)
  then have "(\<Sum>k<length (sys_slots s). slot_snapshots (sys_slots s' ! k)) =
      (\<Sum>k<length (sys_slots s). slot_snapshots (sys_slots s ! k)) + {#kvs#}"
    by (intro sum_upd [of 0]) (simp_all add: slot_snapshots_def)
  with s' show ?thesis by (simp add: got_snapshots_def)
qed

text \<open>Senders are only added, and to configured peers.\<close>

lemma senders_step:
  assumes "node_step W e s s'"
  shows "\<exists>new. sys_senders s' = sys_senders s @ new \<and> (\<forall>x \<in> set new. goes_to x \<in> set (w_peers W))"
  using assms
proof (cases rule: node_step_kinds)
  case (round_end replies)
  then show ?thesis
    by (auto simp: end_round_def snapshot_round_def join_snapshots_ok)
qed (auto simp: start_round_def start_interval_def aggregate_interval_def collect_interval_def Let_def split: sum.split prod.split)

definition senders_ok :: "('w, 'r, 'm) world \<Rightarrow> 'm system \<Rightarrow> bool" where
  "senders_ok W s \<longleftrightarrow> (\<forall>x \<in> set (sys_senders s). goes_to x \<in> set (w_peers W))"

interpretation senders: invariant "node_init W" "node_step W" "senders_ok W" for W
proof (unfold_locales, goal_cases)
  case (1 s)
  then show ?case by (auto simp: senders_ok_def node_init_def boot_def)
next
  case (2 s e s')
  then show ?case using senders_step [OF 2(3)] by (auto simp: senders_ok_def)
qed

section \<open>What arrived\<close>

text \<open>
  The metrics that a peer reads from the message of a sender, and the messages that arrived at
  a node, by the senders they came from.
\<close>

definition payload :: "('w, 'r, 'm) capnp_lib \<Rightarrow> 'm snapshot_sender \<Rightarrow> (bytes \<times> 'm) list" where
  "payload cl s = decoded cl (map (fill_capnp cl) (concat (snap_metrics s)))"

definition arrived_from :: "('w, 'r, 'm) capnp_lib \<Rightarrow> socket_addr \<Rightarrow> 'm cluster \<Rightarrow> nat \<Rightarrow> nat \<Rightarrow> (bytes \<times> 'm) list multiset" where
  "arrived_from cl a c i k =
    (if goes_to (sender_of c i k) = a then repeat_mset (pr_arrived (cl_progress c i k)) {#payload cl (sender_of c i k)#} else {#})"

definition arrived_at :: "('w, 'r, 'm) capnp_lib \<Rightarrow> socket_addr \<Rightarrow> 'm cluster \<Rightarrow> (bytes \<times> 'm) list multiset" where
  "arrived_at cl a c = (\<Sum>i<length (cl_nodes c). \<Sum>k<length (sys_senders (cl_nodes c ! i)). arrived_from cl a c i k)"

text \<open>The nodes run the same program, at addresses of their own.\<close>

definition one_program :: "('w, 'r, 'm) capnp_lib \<Rightarrow> ('w, 'r, 'm) world list \<Rightarrow> bool" where
  "one_program cl Ws \<longleftrightarrow> (\<forall>W \<in> set Ws. w_capnp W = cl) \<and> distinct (map listens Ws)"

definition progress_ok :: "progress \<Rightarrow> bool" where
  "progress_ok p \<longleftrightarrow> pr_arrived p \<le> pr_copies p \<and> pr_copies p \<le> pr_attempts p \<and>
    pr_attempts p \<le> (if pr_over p then 4 else 3)"

definition cluster_ok :: "('w, 'r, 'm) capnp_lib \<Rightarrow> ('w, 'r, 'm) world list \<Rightarrow> 'm cluster \<Rightarrow> bool" where
  "cluster_ok cl Ws c \<longleftrightarrow> length (cl_nodes c) = length Ws \<and> (\<forall>i k. progress_ok (cl_progress c i k)) \<and>
    (\<forall>i < length Ws. \<forall>k \<ge> length (sys_senders (cl_nodes c ! i)). cl_progress c i k = progress_new) \<and>
    (\<forall>j < length Ws. got_snapshots (cl_nodes c ! j) = arrived_at cl (listens (Ws ! j)) c)"

lemma message_payload:
  assumes "capnp_law cl ok" and "snapshot_message cl (snap_metrics s) = Inr msg" and "0 < n"
  shows "peer_connection cl n 0 [Inr msg] = ([(0, AddSnapshot (payload cl s))], Closed)"
proof -
  have "msg = build_snapshot cl (map (fill_capnp cl) (concat (snap_metrics s)))"
    using assms(2) by (simp add: snapshot_message_def Let_def split: if_splits)
  moreover obtain reader where "get_root cl msg = Inr reader"
      "which_of cl reader = Inr (MSnapshot (Inr (map (fill_capnp cl) (concat (snap_metrics s)))))"
    using assms(1) unfolding calculation capnp_law_def by blast
  ultimately show ?thesis using assms(3) by (simp add: parse_and_send_def payload_def del: map_concat)
qed

lemma received_at_most_one: "length (received_messages cl s a) \<le> 1"
  by (simp add: received_messages_def split: polled.split sum.split peer_error.split)

lemma attempted_ok: "progress_ok p \<Longrightarrow> \<not> pr_over p \<Longrightarrow> progress_ok (attempted cl s a p)"
  using received_at_most_one [of cl s a]
  by (auto simp: progress_ok_def attempted_def peer_client_ret_def split: polled.split)

text \<open>
  The attempts of a sender, one after the other, are those of its retrying future: the same
  number, with the same copies.
\<close>

definition try_on :: "('w, 'r, 'm) capnp_lib \<Rightarrow> 'm snapshot_sender \<Rightarrow> 'w attempt \<Rightarrow> progress \<Rightarrow> progress" where
  "try_on cl s a p = (if pr_over p then p else attempted cl s a p)"

lemma attempts_retried:
  assumes "retried n (map (sender_outcome cl s) tries) = Some (r, k)" and "\<not> pr_over p" and "pr_attempts p + n = 3"
  shows "pr_over (fold (try_on cl s) tries p) \<and> pr_attempts (fold (try_on cl s) tries p) = pr_attempts p + k \<and>
    pr_copies (fold (try_on cl s) tries p) = pr_copies p + length (concat (map (received_messages cl s) (take k tries)))"
  using assms(1-3)
proof (induction tries arbitrary: n k p)
  case (Cons a tries)
  have stop: "pr_over q \<Longrightarrow> fold (try_on cl s) tries q = q" for q by (induction tries) (simp_all add: try_on_def)
  have step: "try_on cl s a p = attempted cl s a p" using Cons.prems(2) by (simp add: try_on_def)
  have "sender_outcome cl s a \<noteq> NotReady" by (simp add: sender_outcome_def split: sum.split)
  then consider x where "sender_outcome cl s a = Ready x" | e where "sender_outcome cl s a = Failed e" "n = 0"
    | e m where "sender_outcome cl s a = Failed e" "n = Suc m"
    by (cases "sender_outcome cl s a"; cases n) auto
  then show ?case
  proof cases
    case 3
    with Cons.prems(1) obtain k' where k': "retried m (map (sender_outcome cl s) tries) = Some (r, k')" "k = Suc k'" by auto
    have "\<not> pr_over (attempted cl s a p)" "pr_attempts (attempted cl s a p) + m = 3"
      using 3 Cons.prems(3) by (simp_all add: attempted_def peer_client_ret_def)
    from Cons.IH [OF k'(1) this] k'(2) show ?thesis by (simp add: step) (simp add: attempted_def)
  qed (use Cons.prems stop [of "attempted cl s a p"] in \<open>auto simp: step attempted_def peer_client_ret_def\<close>)
qed simp

lemma attempts_are_sender_run:
  assumes "sender_run cl s tries = Some (r, k)"
  defines "q \<equiv> fold (try_on cl s) tries progress_new"
  shows "pr_over q \<and> pr_attempts q = k \<and> pr_copies q = length (concat (map (received_messages cl s) (take k tries)))"
  using attempts_retried [of 3 cl s tries r k progress_new] assms(1)
  by (simp add: q_def sender_run_retried progress_new_def)

text \<open>Local steps and attempts leave what arrived as it is: a new sender has not sent anything.\<close>

lemma arrived_at_cong:
  assumes n: "length (cl_nodes c') = length (cl_nodes c)"
    and senders: "\<And>i. i < length (cl_nodes c) \<Longrightarrow> \<exists>new. sys_senders (cl_nodes c' ! i) = sys_senders (cl_nodes c ! i) @ new"
    and same: "\<And>i k. pr_arrived (cl_progress c' i k) = pr_arrived (cl_progress c i k)"
    and none: "\<And>i k. i < length (cl_nodes c) \<Longrightarrow> length (sys_senders (cl_nodes c ! i)) \<le> k \<Longrightarrow> pr_arrived (cl_progress c i k) = 0"
  shows "arrived_at cl a c' = arrived_at cl a c"
proof -
  have "(\<Sum>k<length (sys_senders (cl_nodes c' ! i)). arrived_from cl a c' i k) =
      (\<Sum>k<length (sys_senders (cl_nodes c ! i)). arrived_from cl a c i k)" if i: "i < length (cl_nodes c)" for i
  proof -
    obtain new where new: "sys_senders (cl_nodes c' ! i) = sys_senders (cl_nodes c ! i) @ new" using senders [OF i] by blast
    have "(\<Sum>k<length (sys_senders (cl_nodes c' ! i)). arrived_from cl a c' i k) =
        (\<Sum>k<length (sys_senders (cl_nodes c ! i)). arrived_from cl a c' i k)"
      by (rule sum.mono_neutral_right) (use new in \<open>auto simp: arrived_from_def same none [OF i]\<close>)
    also have "\<dots> = (\<Sum>k<length (sys_senders (cl_nodes c ! i)). arrived_from cl a c i k)"
      by (rule sum.cong) (simp_all add: arrived_from_def same new nth_append)
    finally show ?thesis .
  qed
  with n show ?thesis by (simp add: arrived_at_def)
qed

lemma arrived_at_arrive:
  assumes i: "i < length (cl_nodes c)" and k: "k < length (sys_senders (cl_nodes c ! i))"
    and s: "sys_senders s = sys_senders (cl_nodes c ! j)"
    and p: "pr_arrived p = pr_arrived (cl_progress c i k) + 1"
  shows "arrived_at cl a (set_progress i k p (set_node j s c)) =
    arrived_at cl a c + (if goes_to (sender_of c i k) = a then {#payload cl (sender_of c i k)#} else {#})"
proof -
  let ?c = "set_progress i k p (set_node j s c)"
  have senders: "sys_senders (cl_nodes ?c ! l) = sys_senders (cl_nodes c ! l)" if "l < length (cl_nodes c)" for l
    using s that by (cases "j < length (cl_nodes c)") (simp_all add: nth_list_update list_update_beyond)
  have old: "arrived_from cl a ?c l m = arrived_from cl a c l m" if "l < length (cl_nodes c)" "l \<noteq> i \<or> m \<noteq> k" for l m
    using that by (auto simp: arrived_from_def senders simp del: set_simps(1,3))
  have new: "arrived_from cl a ?c i k = arrived_from cl a c i k + (if goes_to (sender_of c i k) = a then {#payload cl (sender_of c i k)#} else {#})"
    using i p by (simp add: arrived_from_def senders del: set_simps(1,3))
  have "(\<Sum>m<length (sys_senders (cl_nodes c ! i)). arrived_from cl a ?c i m) =
      (\<Sum>m<length (sys_senders (cl_nodes c ! i)). arrived_from cl a c i m) + (if goes_to (sender_of c i k) = a then {#payload cl (sender_of c i k)#} else {#})"
  proof (rule sum_upd [OF k])
    show "arrived_from cl a ?c i m = arrived_from cl a c i m" if "m \<noteq> k" for m using i that by (intro old) simp_all
  qed (rule new)
  then have "(\<Sum>l<length (cl_nodes c). \<Sum>m<length (sys_senders (cl_nodes ?c ! l)). arrived_from cl a ?c l m) =
      (\<Sum>l<length (cl_nodes c). \<Sum>m<length (sys_senders (cl_nodes c ! l)). arrived_from cl a c l m) +
      (if goes_to (sender_of c i k) = a then {#payload cl (sender_of c i k)#} else {#})"
    by (intro sum_upd [OF i]) (use i in \<open>simp_all add: senders old del: set_simps(1,3)\<close>)
  then show ?thesis by (simp add: arrived_at_def)
qed

lemma peer_steps:
  "node_step W (PeerOpen conn) s s1 \<Longrightarrow> s1 = s\<lparr>sys_conns := (sys_conns s)(conn := Some 0)\<rparr>"
  "node_step W (PeerClose conn) s2 s3 \<Longrightarrow> s3 = s2\<lparr>sys_conns := (sys_conns s2)(conn := None)\<rparr>"
  "node_step W (PeerMessage conn msg) s1 s2 \<Longrightarrow> sys_senders s2 = sys_senders s1"
  by (auto elim: node_step.cases)

lemma arrival:
  assumes "capnp_law (w_capnp W) ok" and "snapshot_message (w_capnp W) (snap_metrics x) = Inr msg"
    and "node_step W (PeerOpen conn) s s1" and "node_step W (PeerMessage conn msg) s1 s2" and "node_step W (PeerClose conn) s2 s3"
  shows "sys_senders s3 = sys_senders s" "got_snapshots s3 = got_snapshots s + {#payload (w_capnp W) x#}"
proof -
  note s1 = peer_steps(1) [OF assms(3)] and s3 = peer_steps(2) [OF assms(5)]
  show "sys_senders s3 = sys_senders s" using peer_steps(3) [OF assms(4)] by (simp add: s1 s3)
  have "sys_conns s1 conn = Some 0" by (simp add: s1)
  from got_snapshots_message [OF assms(4) this message_payload [OF assms(1,2)]]
  show "got_snapshots s3 = got_snapshots s + {#payload (w_capnp W) x#}" by (simp add: s1 s3 got_snapshots_def)
qed

lemma cluster_ok_quiet:
  assumes ok: "cluster_ok cl Ws c" and i: "i < length Ws" and step: "s = cl_nodes c ! i \<or> (\<exists>e. node_step (Ws ! i) e (cl_nodes c ! i) s \<and>
      (local_event e \<or> e = SendError))"
    and p: "\<forall>l k. pr_arrived (pr l k) = pr_arrived (cl_progress c l k) \<and> progress_ok (pr l k)"
      "\<forall>l < length Ws. \<forall>k \<ge> length (sys_senders (cl_nodes c ! l)). pr l k = progress_new"
  shows "cluster_ok cl Ws (set_node i s c\<lparr>cl_progress := pr\<rparr>)"
proof -
  let ?c = "set_node i s c\<lparr>cl_progress := pr\<rparr>"
  have n: "length (cl_nodes c) = length Ws" using ok by (simp add: cluster_ok_def)
  have senders: "\<exists>new. sys_senders (cl_nodes ?c ! l) = sys_senders (cl_nodes c ! l) @ new" if "l < length Ws" for l
    using step senders_step [of "Ws ! i" _ "cl_nodes c ! i" s] that n by (cases "l = i") (auto simp: set_node_def)
  have "got_snapshots s = got_snapshots (cl_nodes c ! i)"
    using step
  proof
    assume "\<exists>e. node_step (Ws ! i) e (cl_nodes c ! i) s \<and> (local_event e \<or> e = SendError)"
    then obtain e where e: "node_step (Ws ! i) e (cl_nodes c ! i) s" "local_event e \<or> e = SendError" by blast
    from e(2) have "e \<noteq> PeerMessage conn msg" for conn msg by (auto simp: local_event_def)
    with e(1) show ?thesis by (rule got_snapshots_step)
  qed simp
  then have got: "got_snapshots (cl_nodes ?c ! j) = got_snapshots (cl_nodes c ! j)" if "j < length Ws" for j
    using that n i by (simp add: set_node_def nth_list_update)
  have "arrived_at cl a ?c = arrived_at cl a c" for a
  proof (rule arrived_at_cong)
    show "pr_arrived (cl_progress c l k) = 0" if "l < length (cl_nodes c)" "length (sys_senders (cl_nodes c ! l)) \<le> k" for l k
      using ok that n by (simp add: cluster_ok_def progress_new_def)
  qed (use senders n p(1) in \<open>simp_all add: set_node_def\<close>)
  moreover have "pr l k = progress_new" if l: "l < length Ws" and k: "length (sys_senders (cl_nodes ?c ! l)) \<le> k" for l k
  proof -
    have "length (sys_senders (cl_nodes c ! l)) \<le> k" using senders [OF l] k by auto
    with p(2) l show ?thesis by blast
  qed
  ultimately show ?thesis using ok got p(1) by (simp add: cluster_ok_def set_node_def)
qed

lemma cluster_ok_arrive:
  assumes law: "capnp_law cl ok" and prog: "one_program cl Ws" and ok: "cluster_ok cl Ws c"
    and i: "i < length Ws" and j: "j < length Ws" and less: "pr_arrived (cl_progress c i k) < pr_copies (cl_progress c i k)"
    and to: "goes_to (sender_of c i k) = listens (Ws ! j)"
    and msg: "snapshot_message (w_capnp (Ws ! i)) (snap_metrics (sender_of c i k)) = Inr msg"
    and steps: "node_step (Ws ! j) (PeerOpen conn) (cl_nodes c ! j) s1" "node_step (Ws ! j) (PeerMessage conn msg) s1 s2"
      "node_step (Ws ! j) (PeerClose conn) s2 s3"
  shows "cluster_ok cl Ws (set_progress i k ((cl_progress c i k)\<lparr>pr_arrived := pr_arrived (cl_progress c i k) + 1\<rparr>) (set_node j s3 c))"
    (is "cluster_ok cl Ws ?c")
proof -
  have n: "length (cl_nodes c) = length Ws" using ok by (simp add: cluster_ok_def)
  have codec: "w_capnp (Ws ! i) = cl" "w_capnp (Ws ! j) = cl" using prog i j by (simp_all add: one_program_def)
  have k: "k < length (sys_senders (cl_nodes c ! i))"
  proof (rule ccontr)
    assume "\<not> k < length (sys_senders (cl_nodes c ! i))"
    then have "cl_progress c i k = progress_new" using ok i by (simp add: cluster_ok_def)
    with less show False by (simp add: progress_new_def)
  qed
  note arrived = arrival [of "Ws ! j" ok "sender_of c i k" msg, unfolded codec, OF law msg [unfolded codec] steps]
  have "pr_arrived ((cl_progress c i k)\<lparr>pr_arrived := pr_arrived (cl_progress c i k) + 1\<rparr>) = pr_arrived (cl_progress c i k) + 1" by simp
  note total = arrived_at_arrive [OF _ k arrived(1) this, unfolded n, OF i]
  have "got_snapshots (cl_nodes ?c ! l) = arrived_at cl (listens (Ws ! l)) ?c" if l: "l < length Ws" for l
  proof -
    have "listens (Ws ! j) = listens (Ws ! l) \<longleftrightarrow> l = j"
      using prog j l by (auto simp: one_program_def distinct_conv_nth)
    then show ?thesis unfolding total using ok l j n arrived(2) by (simp add: to cluster_ok_def nth_list_update)
  qed
  moreover have "sys_senders (cl_nodes ?c ! l) = sys_senders (cl_nodes c ! l)" if "l < length Ws" for l
    using arrived(1) that j n by (simp add: nth_list_update)
  moreover have "progress_ok ((cl_progress c i k)\<lparr>pr_arrived := pr_arrived (cl_progress c i k) + 1\<rparr>)"
    using ok less by (simp add: cluster_ok_def progress_ok_def)
  ultimately show ?thesis using ok k i unfolding cluster_ok_def by (auto simp: n)
qed

lemma cluster_ok_attempt:
  assumes ok: "cluster_ok cl Ws c" and i: "i < length Ws" and k: "k < length (sys_senders (cl_nodes c ! i))"
    and over: "\<not> pr_over (cl_progress c i k)"
    and s: "s = (cl_nodes c ! i)\<lparr>sys_stats := snd (sender_attempt cl' x a (sys_stats (cl_nodes c ! i)))\<rparr>"
  shows "cluster_ok cl Ws (set_progress i k (attempted cl' x' a' (cl_progress c i k)) (set_node i s c))"
proof -
  let ?pr = "(cl_progress c)(i := (cl_progress c i)(k := attempted cl' x' a' (cl_progress c i k)))"
  have "cluster_ok cl Ws (set_node i s c\<lparr>cl_progress := ?pr\<rparr>)"
  proof (rule cluster_ok_quiet [OF ok i])
    show "s = cl_nodes c ! i \<or> (\<exists>e. node_step (Ws ! i) e (cl_nodes c ! i) s \<and> (local_event e \<or> e = SendError))"
      using attempt_step [OF s, of "Ws ! i"] by blast
    show "\<forall>l m. pr_arrived (?pr l m) = pr_arrived (cl_progress c l m) \<and> progress_ok (?pr l m)"
      using ok attempted_ok [OF _ over, of cl' x' a'] by (auto simp: cluster_ok_def) (simp add: attempted_def)
    show "\<forall>l < length Ws. \<forall>m \<ge> length (sys_senders (cl_nodes c ! l)). ?pr l m = progress_new"
      using ok k by (auto simp: cluster_ok_def)
  qed
  then show ?thesis by (simp add: set_progress_def set_node_def)
qed

lemma cluster_ok_step:
  assumes law: "capnp_law cl ok" and prog: "one_program cl Ws" and ok: "cluster_ok cl Ws c" and step: "cluster_step Ws e c c'"
  shows "cluster_ok cl Ws c'"
  using step
proof cases
  case (local_step i e' s)
  from ok have "cluster_ok cl Ws (set_node i s c\<lparr>cl_progress := cl_progress c\<rparr>)"
    by (rule cluster_ok_quiet) (use local_step ok in \<open>auto simp: cluster_ok_def\<close>)
  with local_step(2) show ?thesis by (simp add: set_node_def)
next
  case (attempt i k s a)
  with cluster_ok_attempt [OF ok attempt(3-6)] show ?thesis by simp
next
  case (arrive i j k msg conn s1 s2 s3)
  with cluster_ok_arrive [OF law prog ok arrive(3-10)] show ?thesis by simp
qed

lemma cluster_ok_init:
  assumes "cluster_init Ws c"
  shows "cluster_ok cl Ws c"
proof -
  have "sys_senders (cl_nodes c ! i) = []" and "got_snapshots (cl_nodes c ! i) = {#}" if "i < length Ws" for i
  proof -
    have init: "node_init (Ws ! i) (cl_nodes c ! i)" using assms that by (simp add: cluster_init_def)
    then show "sys_senders (cl_nodes c ! i) = []" by (auto simp: node_init_def boot_def)
    have "slot_snapshots (sys_slots (cl_nodes c ! i) ! k) = {#}" if "k < length (sys_slots (cl_nodes c ! i))" for k
      unfolding boot_slots [OF init nth_mem [OF that]] by (simp add: slot_snapshots_def boot_slot_def)
    then show "got_snapshots (cl_nodes c ! i) = {#}" by (simp add: got_snapshots_def)
  qed
  with assms show ?thesis
    by (simp add: cluster_ok_def cluster_init_def arrived_at_def progress_ok_def) (simp add: progress_new_def)
qed

interpretation deliveries: invariant "cluster_init Ws" "cluster_step Ws" "\<lambda>c. capnp_law cl ok \<and> one_program cl Ws \<longrightarrow> cluster_ok cl Ws c" for Ws cl ok
  by unfold_locales (auto simp: cluster_ok_init intro: cluster_ok_step)

section \<open>A settled cluster\<close>

text \<open>Every node replicates to every other node once.\<close>

definition full_mesh :: "('w, 'r, 'm) world list \<Rightarrow> bool" where
  "full_mesh Ws \<longleftrightarrow> (\<forall>i < length Ws. \<forall>j < length Ws. count_list (w_peers (Ws ! i)) (listens (Ws ! j)) = (if i = j then 0 else 1))"

text \<open>
  Nothing is under way: no worker has metrics for the next snapshot or a snapshot in its queue,
  no round is open, and every sender delivered its message exactly once.
\<close>

definition settled :: "'m cluster \<Rightarrow> bool" where
  "settled c \<longleftrightarrow> (\<forall>i < length (cl_nodes c). sys_rounds (cl_nodes c ! i) = [] \<and>
    (\<forall>sl \<in> set (sys_slots (cl_nodes c ! i)). short (runner (sl_worker sl)) = [] \<and> list_all (\<lambda>t. \<not> is_AddSnapshot t) (sl_queue sl)) \<and>
    (\<forall>k < length (sys_senders (cl_nodes c ! i)). pr_arrived (cl_progress c i k) = 1))"

text \<open>What the workers of a node ever handed to its snapshots.\<close>

definition own_total :: "(bytes \<Rightarrow> 'm \<Rightarrow> 'c::comm_monoid_add) \<Rightarrow> 'm system \<Rightarrow> 'c" where
  "own_total \<mu> s = (\<Sum>k<length (sys_slots s). log_total \<mu> UNIV (snap_log (sys_slots s ! k)))"

lemma sum_mset_sum: "(\<Sum>x\<in>#(\<Sum>i\<in>A. M i). f x) = (\<Sum>i\<in>A. \<Sum>x\<in>#M i. f x)"
  by (induction A rule: infinite_finite_induct) simp_all

lemma loads_total:
  "(\<Sum>kvs\<leftarrow>concat (map snapshot_load ts). entries_total \<mu> kvs) =
    entries_total \<mu> (concat (map (\<lambda>t. case t of AddSnapshot kvs \<Rightarrow> kvs | _ \<Rightarrow> []) ts))"
proof (induction ts)
  case (Cons t ts)
  then show ?case by (cases t) simp_all
qed simp

lemma replicated_total:
  assumes "list_all (\<lambda>t. \<not> is_AddSnapshot t) (sl_queue sl)"
  shows "(\<Sum>kvs\<in>#slot_snapshots sl. entries_total \<mu> kvs) = entries_total \<mu> (replicated sl)"
proof -
  have "concat (map snapshot_load (sl_queue sl)) = []" using assms by (simp add: list_all_iff)
  then have "(\<Sum>kvs\<in>#slot_snapshots sl. entries_total \<mu> kvs) = (\<Sum>kvs\<leftarrow>concat (map snapshot_load (sl_done sl)). entries_total \<mu> kvs)"
    by (simp add: slot_snapshots_def sum_mset_sum_list del: mset_concat concat_eq_Nil_conv flip: mset_map)
  also have "\<dots> = entries_total \<mu> (replicated sl)" unfolding replicated_def by (rule loads_total)
  finally show ?thesis .
qed

lemma sent_to_total:
  "(\<Sum>k<length xs. if goes_to (xs ! k) = a then entries_total \<mu> (concat (snap_metrics (xs ! k))) else 0) =
    entries_total \<mu> (concat (map (\<lambda>x. concat (snap_metrics x)) (filter (\<lambda>x. goes_to x = a) xs)))"
  by (induction xs) (simp_all add: sum.lessThan_Suc_shift del: sum.lessThan_Suc cong: if_cong)

text \<open>What a settled node sent to a peer is what its workers handed to its snapshots.\<close>

lemma sent_is_own:
  assumes "additive (w_lib W) \<mu>" and "reach (node_init W) (node_step W) s" and "sys_rounds s = []" and "count_list (w_peers W) a = 1"
  shows "entries_total \<mu> (sent_to a s) = own_total \<mu> s"
proof -
  have "replication_ok W \<mu> s" using assms(1,2) by (intro replication.reach_inv) (simp add: reach_measured)
  then show ?thesis using assms(3,4) by (simp add: replication_ok_def sent_ok_def own_total_def open_snaps_def)
qed

lemma sent_to_no_peer:
  assumes "reach (node_init W) (node_step W) s" and "count_list (w_peers W) a = 0"
  shows "sent_to a s = []"
proof -
  have "senders_ok W s" by (rule senders.reach_inv [OF assms(1)])
  with assms(2) have "\<forall>x \<in> set (sys_senders s). goes_to x \<noteq> a" by (auto simp: senders_ok_def count_list_0_iff)
  then show ?thesis by (simp add: sent_to_def)
qed

lemma settled_arrivals:
  assumes ok: "capnp_law cl ok" "\<forall>i < length (cl_nodes c). \<forall>x \<in> set (sys_senders (cl_nodes c ! i)). \<forall>(name, m) \<in> set (concat (snap_metrics x)). ok name m"
    and "settled c"
  shows "(\<Sum>kvs\<in>#arrived_at cl a c. entries_total \<mu> kvs) = (\<Sum>i<length (cl_nodes c). entries_total \<mu> (sent_to a (cl_nodes c ! i)))"
proof -
  have "(\<Sum>k<length (sys_senders (cl_nodes c ! i)). \<Sum>kvs\<in>#arrived_from cl a c i k. entries_total \<mu> kvs) =
      entries_total \<mu> (sent_to a (cl_nodes c ! i))" if i: "i < length (cl_nodes c)" for i
  proof -
    have "(\<Sum>kvs\<in>#arrived_from cl a c i k. entries_total \<mu> kvs) =
        (if goes_to (sender_of c i k) = a then entries_total \<mu> (concat (snap_metrics (sender_of c i k))) else 0)"
      if k: "k < length (sys_senders (cl_nodes c ! i))" for k
    proof -
      have "payload cl (sender_of c i k) = concat (snap_metrics (sender_of c i k))"
        unfolding payload_def using ok(2) i k by (intro decoded_fill [OF ok(1)]) (metis nth_mem)
      moreover have "pr_arrived (cl_progress c i k) = 1" using assms(3) i k by (simp add: settled_def)
      ultimately show ?thesis by (simp add: arrived_from_def)
    qed
    then show ?thesis by (simp add: sent_to_def flip: sent_to_total)
  qed
  then show ?thesis by (simp add: arrived_at_def sum_mset_sum)
qed

lemma settled_inflow:
  assumes "additive (w_lib W) \<mu>" and "reach (node_init W) (node_step W) s"
    and quiet: "\<forall>sl \<in> set (sys_slots s). short (runner (sl_worker sl)) = [] \<and> list_all (\<lambda>t. \<not> is_AddSnapshot t) (sl_queue sl)"
  shows "entries_total \<mu> (sys_inflow s) = own_total \<mu> s + (\<Sum>kvs\<in>#got_snapshots s. entries_total \<mu> kvs)"
proof -
  have "replication_ok W \<mu> s" using assms(1,2) by (intro replication.reach_inv) (simp add: reach_measured)
  moreover have "(\<Sum>kvs\<in>#got_snapshots s. entries_total \<mu> kvs) = (\<Sum>k<length (sys_slots s). entries_total \<mu> (replicated (sys_slots s ! k)))"
    using quiet by (simp add: got_snapshots_def sum_mset_sum replicated_total)
  ultimately show ?thesis
    using quiet by (simp add: replication_ok_def taken_in_def snap_total_def own_total_def sum.distrib)
qed

section \<open>Execution\<close>

fun cluster_exec :: "('w, 'r, 'm) world list \<Rightarrow> 'w cluster_event \<Rightarrow> 'm cluster \<Rightarrow> 'm cluster option" where
  "cluster_exec Ws (Local i e) c =
    (if i < length Ws \<and> local_event e then map_option (\<lambda>s. set_node i s c) (node_exec (Ws ! i) e (cl_nodes c ! i)) else None)"
| "cluster_exec Ws (Attempt i k a) c =
    (if i < length Ws \<and> k < length (sys_senders (cl_nodes c ! i)) \<and> \<not> pr_over (cl_progress c i k) then
       Some (set_progress i k (attempted (w_capnp (Ws ! i)) (sender_of c i k) a (cl_progress c i k))
         (set_node i ((cl_nodes c ! i)\<lparr>sys_stats :=
            snd (sender_attempt (w_capnp (Ws ! i)) (sender_of c i k) a (sys_stats (cl_nodes c ! i)))\<rparr>) c))
     else None)"
| "cluster_exec Ws (Arrive i k j conn) c =
    (if i < length Ws \<and> j < length Ws \<and> pr_arrived (cl_progress c i k) < pr_copies (cl_progress c i k) \<and>
        goes_to (sender_of c i k) = listens (Ws ! j) then
       case snapshot_message (w_capnp (Ws ! i)) (snap_metrics (sender_of c i k)) of
         Inl p \<Rightarrow> None
       | Inr msg \<Rightarrow>
           map_option (\<lambda>s. set_progress i k ((cl_progress c i k)\<lparr>pr_arrived := pr_arrived (cl_progress c i k) + 1\<rparr>) (set_node j s c))
             (node_exec_all (Ws ! j) [PeerOpen conn, PeerMessage conn msg, PeerClose conn] (cl_nodes c ! j))
     else None)"

lemma cluster_exec_step:
  assumes "cluster_exec Ws e c = Some c'"
  shows "cluster_step Ws e c c'"
proof (cases e)
  case (Local i e')
  with assms show ?thesis by (auto split: if_splits intro: cluster_step.local_step node_exec_step)
next
  case (Attempt i k a)
  with assms show ?thesis by (auto split: if_splits intro: cluster_step.attempt)
next
  case (Arrive i k j conn)
  obtain msg s3 where c': "c' = set_progress i k ((cl_progress c i k)\<lparr>pr_arrived := pr_arrived (cl_progress c i k) + 1\<rparr>) (set_node j s3 c)"
      "i < length Ws" "j < length Ws" "pr_arrived (cl_progress c i k) < pr_copies (cl_progress c i k)"
      "goes_to (sender_of c i k) = listens (Ws ! j)"
      "snapshot_message (w_capnp (Ws ! i)) (snap_metrics (sender_of c i k)) = Inr msg"
      "node_exec_all (Ws ! j) [PeerOpen conn, PeerMessage conn msg, PeerClose conn] (cl_nodes c ! j) = Some s3"
    using assms by (auto simp: Arrive simp del: node_exec_all.simps split: if_splits sum.splits)
  from c'(7) obtain s1 s2 where "node_exec (Ws ! j) (PeerOpen conn) (cl_nodes c ! j) = Some s1"
      "node_exec (Ws ! j) (PeerMessage conn msg) s1 = Some s2" "node_exec (Ws ! j) (PeerClose conn) s2 = Some s3"
    by (auto simp del: node_exec.simps split: option.splits)
  then show ?thesis unfolding Arrive c'(1) by (intro cluster_step.arrive [OF c'(2-6)] node_exec_step)
qed

fun cluster_exec_all :: "('w, 'r, 'm) world list \<Rightarrow> 'w cluster_event list \<Rightarrow> 'm cluster \<Rightarrow> 'm cluster option" where
  "cluster_exec_all Ws [] c = Some c"
| "cluster_exec_all Ws (e # es) c = (case cluster_exec Ws e c of None \<Rightarrow> None | Some c' \<Rightarrow> cluster_exec_all Ws es c')"

lemma cluster_exec_all_reach:
  "cluster_exec_all Ws es c = Some c' \<Longrightarrow> reach (cluster_init Ws) (cluster_step Ws) c \<Longrightarrow> reach (cluster_init Ws) (cluster_step Ws) c'"
  by (induction es arbitrary: c) (auto split: option.splits intro: reach_step cluster_exec_step)

text \<open>
  Two nodes, each with one worker. Each receives a datagram and replicates it: the first at its
  second attempt, the second at once. Then the first node has a carbon interval.
\<close>

definition mesh_world :: "u16 \<Rightarrow> u16 \<Rightarrow> ((bytes \<times> nat) which, bytes \<times> nat, nat) world" where
  "mesh_world own other = sample_world
    \<lparr>w_peers := [localhost other],
     w_cfg := (w_cfg sample_world)\<lparr>network := (network (w_cfg sample_world))\<lparr>peer_listen := localhost own\<rparr>\<rparr>\<rparr>"

definition mesh_worlds :: "((bytes \<times> nat) which, bytes \<times> nat, nat) world list" where
  "mesh_worlds = [mesh_world 1 2, mesh_world 2 1]"

definition mesh_boot :: "nat cluster" where
  "mesh_boot = \<lparr>cl_nodes = map (\<lambda>W. case node_start (w_cfg W) of Inr nd \<Rightarrow> boot nd | Inl p \<Rightarrow> undefined) mesh_worlds,
     cl_progress = (\<lambda>i k. progress_new)\<rparr>"

definition mesh_events :: "(bytes \<times> nat) which cluster_event list" where
  "mesh_events =
    [Local 0 (Receive 0 (Datagram (''cpu'' @ [CHR 0x0A]) (SocketAddrV4 10 0 0 1 5))),
     Local 1 (Receive 0 (Datagram (''mem'' @ [CHR 0x0A]) (SocketAddrV4 10 0 0 2 5))),
     Local 0 (Work 0), Local 1 (Work 0), Local 0 SnapshotTimer, Local 0 (Work 0), Local 0 (SnapshotsTaken [0]),
     Attempt 0 0 refusing, Local 1 SnapshotTimer, Attempt 0 0 working, Local 1 (Work 0), Local 1 (SnapshotsTaken [0]),
     Attempt 1 0 working, Arrive 0 0 1 7, Arrive 1 0 0 7, Local 1 (Work 0), Local 0 (Work 0),
     Local 0 CarbonTimer, Local 0 (Work 0), Local 0 (Rotated_all 1), Local 0 (Collected 1)]"

definition mesh_done :: "nat cluster" where
  "mesh_done = the (cluster_exec_all mesh_worlds mesh_events mesh_boot)"

lemma mesh_reach: "reach (cluster_init mesh_worlds) (cluster_step mesh_worlds) mesh_done"
proof -
  have "(case node_start (w_cfg (mesh_world 1 2)) :: panic + nat node of Inr nd \<Rightarrow> True | Inl p \<Rightarrow> False)"
    and "(case node_start (w_cfg (mesh_world 2 1)) :: panic + nat node of Inr nd \<Rightarrow> True | Inl p \<Rightarrow> False)"
    by code_simp+
  then have "cluster_init mesh_worlds mesh_boot"
    by (auto simp: cluster_init_def mesh_boot_def node_init_def mesh_worlds_def less_Suc_eq split: sum.splits)
  moreover have "cluster_exec_all mesh_worlds mesh_events mesh_boot \<noteq> None" by code_simp
  ultimately show ?thesis by (auto simp: mesh_done_def intro: cluster_exec_all_reach reach_init)
qed

lemma mesh_settled: "one_program sample_capnp mesh_worlds" "full_mesh mesh_worlds" "settled mesh_done"
proof -
  show "one_program sample_capnp mesh_worlds" by (simp add: one_program_def mesh_worlds_def mesh_world_def sample_world_def)
  show "full_mesh mesh_worlds" by (simp add: full_mesh_def mesh_worlds_def mesh_world_def less_Suc_eq)
  show "settled mesh_done" by code_simp
qed

section \<open>Properties\<close>

text \<open>
  C14. What arrives in a cluster. In every reachable state of nodes that run the same program at
  different addresses, the snapshots that the workers of a node were given are those of the
  senders addressed to the node, each as often as copies of its message have arrived and with
  the metrics that the codec preserves; no sender makes more than four attempts, and no more
  copies arrive than it made attempts.
\<close>

theorem cluster_deliveries:
  assumes "capnp_law cl ok" and "one_program cl Ws" and "reach (cluster_init Ws) (cluster_step Ws) c" and "j < length Ws"
  shows "got_snapshots (cl_nodes c ! j) =
      (\<Sum>i<length Ws. \<Sum>k<length (sys_senders (cl_nodes c ! i)).
        if goes_to (sender_of c i k) = listens (Ws ! j)
        then repeat_mset (pr_arrived (cl_progress c i k)) {#payload cl (sender_of c i k)#} else {#}) \<and>
    pr_arrived (cl_progress c i k) \<le> pr_copies (cl_progress c i k) \<and>
    pr_copies (cl_progress c i k) \<le> pr_attempts (cl_progress c i k) \<and> pr_attempts (cl_progress c i k) \<le> 4"
proof -
  have "cluster_ok cl Ws c" using deliveries.reach_inv [OF assms(3), of cl ok] assms(1,2) by simp
  then have "got_snapshots (cl_nodes c ! j) = arrived_at cl (listens (Ws ! j)) c" "length (cl_nodes c) = length Ws"
      "progress_ok (cl_progress c i k)"
    using assms(4) by (simp_all add: cluster_ok_def)
  then show ?thesis by (simp add: arrived_at_def arrived_from_def progress_ok_def split: if_splits)
qed

theorem cluster_deliveries_witness:
  "got_snapshots (cl_nodes mesh_done ! 1) = {#[(''cpu'', 1)]#} \<and> pr_attempts (cl_progress mesh_done 0 0) = 2"
proof -
  have "(let c = mesh_done in \<Sum>i<length mesh_worlds. \<Sum>k<length (sys_senders (cl_nodes c ! i)).
      if goes_to (sender_of c i k) = listens (mesh_worlds ! 1)
      then repeat_mset (pr_arrived (cl_progress c i k)) {#payload sample_capnp (sender_of c i k)#} else {#}) =
    {#[(''cpu'', 1)]#}"
    by (code_simp, simp)
  moreover have "pr_attempts (cl_progress mesh_done 0 0) = 2" "1 < length mesh_worlds" by code_simp+
  ultimately show ?thesis
    using cluster_deliveries [OF sample_capnp_law mesh_settled(1) mesh_reach, of 1] by (simp add: Let_def)
qed

text \<open>
  C1. The nodes of a cluster come to hold the same. If every node replicates to every other one
  once, then in every settled state, whatever the interleaving of the nodes, their workers and
  the network was, all nodes have taken in the same amount, by every measure that \<open>aggregate\<close>
  adds up: that of all metrics that entered any of the nodes and were handed to its snapshots.
  So a node that led all the time and holds nothing any more has passed exactly this amount on to
  carbon: nothing is missing and nothing is counted twice, whichever node leads. The codec is
  assumed to preserve the metrics that were sent.
\<close>

theorem settled_nodes_agree:
  fixes \<mu> :: "bytes \<Rightarrow> 'm \<Rightarrow> 'c::comm_monoid_add"
  assumes "capnp_law cl ok" and "one_program cl Ws" and "full_mesh Ws" and "\<forall>W \<in> set Ws. additive (w_lib W) \<mu>"
    and "reach (cluster_init Ws) (cluster_step Ws) c" and "settled c"
    and "\<forall>i < length (cl_nodes c). \<forall>x \<in> set (sys_senders (cl_nodes c ! i)). \<forall>(name, m) \<in> set (concat (snap_metrics x)). ok name m"
    and "j < length Ws"
  shows "entries_total \<mu> (sys_inflow (cl_nodes c ! j)) = (\<Sum>i<length Ws. own_total \<mu> (cl_nodes c ! i)) \<and>
    (held_total \<mu> (cl_nodes c ! j) = 0 \<and> sys_discarded (cl_nodes c ! j) = [] \<longrightarrow>
      (\<Sum>b\<leftarrow>sys_batches (cl_nodes c ! j). entries_total \<mu> (bt_cache b)) = (\<Sum>i<length Ws. own_total \<mu> (cl_nodes c ! i)))"
proof -
  have ok: "cluster_ok cl Ws c" "nodes_ok Ws c"
    using deliveries.reach_inv [OF assms(5), of cl ok] nodes.reach_inv [OF assms(5)] assms(1,2) by simp_all
  then have n: "length (cl_nodes c) = length Ws" by (simp add: nodes_ok_def)
  have node: "additive (w_lib (Ws ! i)) \<mu>" "reach (node_init (Ws ! i)) (node_step (Ws ! i)) (cl_nodes c ! i)"
      "sys_rounds (cl_nodes c ! i) = []" if "i < length Ws" for i
    using that ok(2) assms(4,6) n by (simp_all add: nodes_ok_def settled_def)
  have "entries_total \<mu> (sent_to (listens (Ws ! j)) (cl_nodes c ! i)) = (if i = j then 0 else own_total \<mu> (cl_nodes c ! i))"
    if i: "i < length Ws" for i
    using assms(3,8) i sent_is_own [OF node [OF i], of "listens (Ws ! j)"] sent_to_no_peer [OF node(2) [OF i], of "listens (Ws ! j)"]
    by (auto simp: full_mesh_def)
  then have "(\<Sum>kvs\<in>#got_snapshots (cl_nodes c ! j). entries_total \<mu> kvs) =
      (\<Sum>i<length Ws. if i = j then 0 else own_total \<mu> (cl_nodes c ! i))"
    using ok(1) assms(8) settled_arrivals [OF assms(1,7,6), of \<mu> "listens (Ws ! j)"] by (simp add: cluster_ok_def)
  moreover have "entries_total \<mu> (sys_inflow (cl_nodes c ! j)) =
      own_total \<mu> (cl_nodes c ! j) + (\<Sum>kvs\<in>#got_snapshots (cl_nodes c ! j). entries_total \<mu> kvs)"
    using assms(6,8) n by (intro settled_inflow [OF node(1,2) [OF assms(8)]]) (simp add: settled_def)
  moreover have "(\<Sum>i<length Ws. own_total \<mu> (cl_nodes c ! i)) =
      (\<Sum>i<length Ws. if i = j then 0 else own_total \<mu> (cl_nodes c ! i)) + own_total \<mu> (cl_nodes c ! j)"
    using assms(8) by (intro sum_upd [of j]) simp_all
  ultimately have inflow: "entries_total \<mu> (sys_inflow (cl_nodes c ! j)) = (\<Sum>i<length Ws. own_total \<mu> (cl_nodes c ! i))"
    by (simp add: add.commute)
  have "reach ledger_init ledger_step (ledger_of \<mu> (cl_nodes c ! j))"
    using node(1,2) [OF assms(8)] by (intro node_ledger.abs_reach [of "Ws ! j"]) (simp add: reach_measured)
  from ledger.reach_inv [OF this] inflow show ?thesis by (simp add: balanced_def ledger_of_def)
qed

theorem settled_nodes_agree_witness:
  "(\<Sum>b\<leftarrow>sys_batches (cl_nodes mesh_done ! 0). entries_total (\<lambda>k v. v) (bt_cache b)) = (2 :: nat) \<and>
   entries_total (\<lambda>k v. v) (sys_inflow (cl_nodes mesh_done ! 1)) = (2 :: nat)"
proof -
  have "let c = mesh_done in (\<Sum>i<length mesh_worlds. own_total (\<lambda>k v. v) (cl_nodes c ! i)) = (2 :: nat) \<and>
      held_total (\<lambda>k v. v) (cl_nodes c ! 0) = (0 :: nat) \<and> sys_discarded (cl_nodes c ! 0) = [] \<and>
      (\<forall>i < length (cl_nodes c). \<forall>x \<in> set (sys_senders (cl_nodes c ! i)). \<forall>(name, m) \<in> set (concat (snap_metrics x)). name \<noteq> [])"
    by code_simp
  then have total: "(\<Sum>i<length mesh_worlds. own_total (\<lambda>k v. v) (cl_nodes mesh_done ! i)) = (2 :: nat)"
      "held_total (\<lambda>k v. v) (cl_nodes mesh_done ! 0) = (0 :: nat)" "sys_discarded (cl_nodes mesh_done ! 0) = []"
    and names: "\<forall>i < length (cl_nodes mesh_done). \<forall>x \<in> set (sys_senders (cl_nodes mesh_done ! i)). \<forall>(name, m) \<in> set (concat (snap_metrics x)). name \<noteq> []"
    unfolding Let_def by blast+
  have lib: "\<forall>W \<in> set mesh_worlds. additive (w_lib W) (\<lambda>k v. v)"
    using sample_world_additive by (simp add: mesh_worlds_def mesh_world_def)
  have n: "0 < length mesh_worlds" "1 < length mesh_worlds" by (simp_all add: mesh_worlds_def)
  note agree = settled_nodes_agree [OF sample_capnp_law mesh_settled(1,2) lib mesh_reach mesh_settled(3) names]
  from agree [OF n(1)] agree [OF n(2)] total show ?thesis by simp
qed

end
