(* ===== verification/Program.thy ===== *)
theory Program
  imports Replication
begin

text \<open>
  \<open>main\<close> of \<^verbatim>\<open>src/main.rs\<close> from the command line on: a management command is sent and its answer
  printed, or the node is started, part after part in the order of the code. Each start can
  fail, and most failures are panics. The lock of the consensus state is here too, since it is
  during the start of internal Raft that a panic can happen while it is held.
\<close>

section \<open>The surroundings of the process\<close>

record platform =
  pf_read_file :: "string \<Rightarrow> string option"
  pf_from_toml :: "string \<Rightarrow> system_config option"
  pf_level :: "string \<Rightarrow> bool"
  pf_v6 :: "string \<Rightarrow> socket_addr option"
  pf_dns :: "string \<Rightarrow> ip_addr list option"
  pf_gethostname :: "nat \<Rightarrow> bytes option"
  pf_os :: os
  pf_interval :: "u64 \<Rightarrow> string option"
  pf_http_bind :: "socket_addr \<Rightarrow> string option"
  pf_http :: "http_request \<Rightarrow> string + http_response"
  pf_json :: json_lib

abbreviation pf_resolve :: "platform \<Rightarrow> string \<Rightarrow> panic + socket_addr" where
  "pf_resolve pf \<equiv> try_resolve (pf_v6 pf) (pf_dns pf)"

section \<open>Starting a node\<close>

datatype consensus_start = StartNone | StartConsul consul_consensus | StartRaft raft_config

definition start_consensus :: "system_config \<Rightarrow> consensus_start" where
  "start_consensus cfg =
    (case consensus cfg of
       Internal \<Rightarrow> StartRaft (raft cfg)
     | Consul \<Rightarrow> StartConsul (consul_setup cfg)
     | NoConsensus \<Rightarrow> StartNone)"

definition start_udp :: "os \<Rightarrow> system_config \<Rightarrow> panic + sock list" where
  "start_udp os cfg =
    (let net = network cfg in
     if multimessage net then sync_udp_socket os (listen net) (mm_async net) (unat (n_threads cfg))
     else case async_udp_sockets os (listen net) (unat (async_sockets net)) of
       Inl p \<Rightarrow> Inl p
     | Inr pool \<Rightarrow> cloned os (unat (n_threads cfg)) pool)"

record 'm daemon =
  dm_node :: "'m node"
  dm_snapshot :: native_snapshot
  dm_server :: native_server
  dm_consensus :: consensus_start
  dm_sockets :: "sock list"

text \<open>
  The periodic timers, in the order in which the code makes them; \<open>pf_interval\<close> is the message of
  the panic with which \<open>Interval::new\<close> refuses a period of so many milliseconds, if it does. The
  flush timer is only made for a positive period.
\<close>

fun start_timers :: "(u64 \<Rightarrow> string option) \<Rightarrow> u64 list \<Rightarrow> panic + unit" where
  "start_timers interval [] = Inr ()"
| "start_timers interval (dur # durs) =
    (case interval dur of Some e \<Rightarrow> Inl (Panic e) | None \<Rightarrow> start_timers interval durs)"

definition main_timers :: "system_config \<Rightarrow> u64 list" where
  "main_timers cfg =
    carbon_interval (carbon cfg) #
    (if 0 < buffer_flush_time (network cfg) then [buffer_flush_time (network cfg)] else [])"

text \<open>
  The start of all parts, in order. Binding the management server panics where it fails, like
  the UDP sockets.
\<close>

definition daemon_start :: "platform \<Rightarrow> system_config \<Rightarrow> panic + 'm daemon" where
  "daemon_start pf cfg =
    (case node_start cfg of
       Inl p \<Rightarrow> Inl p
     | Inr nd \<Rightarrow>
    (case start_timers (pf_interval pf) [own_stats_period (stats_interval cfg)] of
       Inl p \<Rightarrow> Inl p
     | Inr own_timer \<Rightarrow>
    (case native_snapshot_new (pf_resolve pf) (network_nodes (network cfg)) (peer_client_bind (network cfg))
            (ucast (snapshot_interval (network cfg))) of
       Inl p \<Rightarrow> Inl p
     | Inr snapshot \<Rightarrow>
    (case start_timers (pf_interval pf) [nsn_interval snapshot] of
       Inl p \<Rightarrow> Inl p
     | Inr snap_timer \<Rightarrow>
    (case pf_http_bind pf (mgmt_listen (network cfg)) of
       Some e \<Rightarrow> Inl (Panic e)
     | None \<Rightarrow>
    (case start_timers (pf_interval pf) (main_timers cfg) of
       Inl p \<Rightarrow> Inl p
     | Inr timers \<Rightarrow>
    (case start_udp (pf_os pf) cfg of
       Inl p \<Rightarrow> Inl p
     | Inr socks \<Rightarrow>
         Inr \<lparr>dm_node = nd, dm_snapshot = snapshot,
              dm_server = native_server_new (peer_listen (network cfg)) (length (node_workers nd)),
              dm_consensus = start_consensus cfg, dm_sockets = socks\<rparr>)))))))"

section \<open>The program\<close>

datatype 'm outcome = Queried "mgmt_error + client_output" | Serving "'m daemon"

record mgmt_client_args =
  mc_address :: socket_addr
  mc_command :: mgmt_command

definition mgmt_client_new :: "socket_addr \<Rightarrow> mgmt_command \<Rightarrow> mgmt_client_args" where
  "mgmt_client_new address command = \<lparr>mc_address = address, mc_command = command\<rparr>"

definition main_program :: "platform \<Rightarrow> matches \<Rightarrow> panic + 'm outcome" where
  "main_program pf app =
    (case system_load (pf_read_file pf) (pf_from_toml pf) app of
       Inl p \<Rightarrow> Inl p
     | Inr (cfg, command) \<Rightarrow>
         if \<not> pf_level pf (verbosity cfg) then Inl (Panic ''bad verbosity'')
         else case command of
           Query cmd dest \<Rightarrow>
             (case pf_resolve pf dest of
                Inl p \<Rightarrow> Inl p
              | Inr addr \<Rightarrow>
                  let client = mgmt_client_new addr cmd
                  in Inr (Queried (mgmt_client (pf_json pf) (pf_http pf) (mc_address client) (mc_command client))))
         | Daemon \<Rightarrow> map_sum id Serving (daemon_start pf cfg))"

section \<open>The carbon timer\<close>

text \<open>
  What the main thread does at a tick, before the thread of the interval takes over: it needs
  the time and the address of the carbon server.
\<close>

definition carbon_tick ::
    "(string \<Rightarrow> panic + socket_addr) \<Rightarrow> carbon_config \<Rightarrow> string + u64 \<Rightarrow> panic + (general_error + u64 \<times> socket_addr)" where
  "carbon_tick resolve cfg now =
    (case now of
       Inl e \<Rightarrow> Inr (Inl (general_error.Time e))
     | Inr ts \<Rightarrow> map_sum id (\<lambda>addr. Inr (ts, addr)) (resolve (carbon_address cfg)))"

text \<open>
  The timer: each tick is an error of the timer, or what the clock and the resolver then say.
  The result is the intervals that were started and how it ended, if it did.
\<close>

fun carbon_timer ::
    "carbon_config \<Rightarrow> (string + (string + u64) \<times> (string \<Rightarrow> panic + socket_addr)) list
      \<Rightarrow> (u64 \<times> socket_addr) list \<times> (panic + general_error) option" where
  "carbon_timer cfg [] = ([], None)"
| "carbon_timer cfg (Inl e # ticks) = ([], Some (Inr (general_error.Timer e)))"
| "carbon_timer cfg (Inr (now, resolve) # ticks) =
    (case carbon_tick resolve cfg now of
       Inl p \<Rightarrow> ([], Some (Inl p))
     | Inr (Inl e) \<Rightarrow> ([], Some (Inr e))
     | Inr (Inr start) \<Rightarrow> (let (starts, res) = carbon_timer cfg ticks in (start # starts, res)))"

section \<open>The lock of the consensus state\<close>

text \<open>
  A mutex whose holder panicked is poisoned, and every later \<open>lock().unwrap()\<close> panics.
\<close>

record locked_leadership =
  ll_state :: leadership
  ll_poisoned :: bool

text \<open>
  The Raft thread, after its delay: it enables consensus and starts Raft while it holds the
  lock.
\<close>

definition raft_thread ::
    "platform \<Rightarrow> u64 \<Rightarrow> raft_config \<Rightarrow> locked_leadership
      \<Rightarrow> (panic + u64 \<times> (u64, socket_addr) hash_map \<times> raft_options) \<times> locked_leadership" where
  "raft_thread pf rnd cfg l =
    (if ll_poisoned l then (Inl (Panic ''PoisonError''), l)
     else
       let l1 = l\<lparr>ll_state := (ll_state l)\<lparr>CONSENSUS_STATE := Enabled\<rparr>\<rparr> in
       case start_internal_raft (pf_resolve pf) (get_hostname (pf_gethostname pf)) rnd cfg of
         Inl p \<Rightarrow> (Inl p, l1\<lparr>ll_poisoned := True\<rparr>)
       | Inr started \<Rightarrow> (Inr started, l1))"

text \<open>\<open>BiggerIdSolver\<close> of the Raft library decides which of two nodes connects.\<close>

definition raft_solve :: "(bool \<Rightarrow> u64 \<Rightarrow> u64 \<Rightarrow> bool) \<Rightarrow> bool \<Rightarrow> u64 \<Rightarrow> u64 \<Rightarrow> bool" where
  "raft_solve bigger_id_solver is_client local_id remote_id = bigger_id_solver is_client local_id remote_id"

text \<open>The requests of the management interface that take the lock.\<close>

definition mgmt_locks :: "json_lib \<Rightarrow> http_request \<Rightarrow> bool" where
  "mgmt_locks js req =
    (case req_method req of
       GET \<Rightarrow> req_path req = ''/status''
     | POST \<Rightarrow> posted js req \<noteq> []
     | OtherMethod \<Rightarrow> False)"

definition mgmt_call_locked ::
    "json_lib \<Rightarrow> http_request \<Rightarrow> locked_leadership \<Rightarrow> (panic + string + http_response) \<times> locked_leadership" where
  "mgmt_call_locked js req l =
    (if ll_poisoned l \<and> mgmt_locks js req then (Inl (Panic ''PoisonError''), l)
     else let (resp, st) = mgmt_call js req (ll_state l) in (Inr resp, l\<lparr>ll_state := st\<rparr>))"

definition switch_leader_locked :: "bool \<Rightarrow> locked_leadership \<Rightarrow> panic + locked_leadership" where
  "switch_leader_locked acquired l =
    (if ll_poisoned l then Inl (Panic ''PoisonError'') else Inr (l\<lparr>ll_state := switch_leader acquired (ll_state l)\<rparr>))"

section \<open>Lemmas\<close>

lemma mgmt_call_unlocked: "\<not> mgmt_locks js req \<Longrightarrow> snd (mgmt_call js req l) = l"
  unfolding mgmt_call_state by (auto simp: mgmt_locks_def posted_def split: http_method.splits)

lemma mgmt_call_poisoned:
  assumes "ll_poisoned l"
  shows "snd (mgmt_call_locked js req l) = l"
    and "mgmt_locks js req \<Longrightarrow> fst (mgmt_call_locked js req l) = Inl (Panic ''PoisonError'')"
  using assms mgmt_call_unlocked [of js req "ll_state l"] by (simp_all add: mgmt_call_locked_def case_prod_unfold Let_def)

lemma native_snapshot_new_Inr_iff:
  "(\<exists>sn. native_snapshot_new resolve nodes bind_to ival = Inr sn) \<longleftrightarrow> (\<forall>node \<in> set nodes. \<exists>a. resolve node = Inr a)"
proof -
  have "(\<exists>peers. map resolve nodes = map Inr peers) \<longleftrightarrow> (\<forall>node \<in> set nodes. \<exists>a. resolve node = Inr a)"
  proof (induction nodes)
    case (Cons node nodes)
    then show ?case by (auto simp: Cons_eq_map_conv)
  qed simp
  then show ?thesis
    by (cases "resolve_all resolve nodes") (auto simp: native_snapshot_new_def simp flip: resolve_all_Inr_iff)
qed

lemma start_timers_Inr_iff:
  "start_timers interval durs = Inl p \<Longrightarrow> \<exists>dur \<in> set durs. \<exists>e. interval dur = Some e"
  "start_timers interval durs = Inr u \<longleftrightarrow> (\<forall>dur \<in> set durs. interval dur = None)"
  by (induction durs) (auto split: option.splits)

section \<open>Properties\<close>

text \<open>
  C26. A command from the command line to the node. If the configuration can be read and the
  host resolves, then \<open>bioyino query consensus\<close> with an action and a leader action, over a
  working connection to a node in any state, leaves that node in the commanded state and
  prints this state; nothing of a node is started in the process of the client.
\<close>

theorem query_commands_node:
  assumes "json_roundtrip (pf_json pf)"
    and "pf_read_file pf (m_config app) = Some text" and "pf_from_toml pf text = Some cfg"
    and "pf_level pf (case m_verbosity app of Some v \<Rightarrow> v | None \<Rightarrow> verbosity cfg)"
    and "m_query app = Some \<lparr>qm_host = host, qm_status = False, qm_consensus = Some (Some action, leader_action)\<rparr>"
    and "consensus_action_from_str action = Inr a" and "leader_action_from_str leader_action = Inr la"
    and "pf_resolve pf host = Inr addr" and "pf_http pf = (\<lambda>req. fst (mgmt_call (pf_json pf) req l))"
  shows "(let l' = snd (mgmt_call (pf_json pf) (mgmt_request (pf_json pf) addr (ConsensusCommand a la)) l) in
    main_program pf app = Inr (Queried (Inr (PrintNewState (server_status_new l')))) \<and>
    CONSENSUS_STATE l' = new_consensus_state a \<and>
    IS_LEADER l' = (case la of Unchanged \<Rightarrow> IS_LEADER l | LeaderEnable \<Rightarrow> True | LeaderDisable \<Rightarrow> False))"
proof -
  have "system_load (pf_read_file pf) (pf_from_toml pf) app =
      Inr (case m_verbosity app of Some v \<Rightarrow> cfg\<lparr>verbosity := v\<rparr> | None \<Rightarrow> cfg, Query (ConsensusCommand a la) host)"
    by (simp add: system_load_def load_command_def assms Let_def)
  moreover have "pf_level pf (verbosity (case m_verbosity app of Some v \<Rightarrow> cfg\<lparr>verbosity := v\<rparr> | None \<Rightarrow> cfg))"
    using assms(4) by (simp split: option.splits)
  moreover have "mgmt_client (pf_json pf) (pf_http pf) addr (ConsensusCommand a la) =
      Inr (PrintNewState (server_status_new (snd (mgmt_call (pf_json pf) (mgmt_request (pf_json pf) addr (ConsensusCommand a la)) l))))"
    using assms(1) unfolding assms(9)
    by (simp add: json_roundtrip_def mgmt_client_def mgmt_answer_def mgmt_request_def mgmt_call_def Let_def)
  moreover have "posted (pf_json pf) (mgmt_request (pf_json pf) addr (ConsensusCommand a la)) = [(a, la)]"
    using assms(1) by (simp add: posted_def mgmt_request_def json_roundtrip_def)
  ultimately show ?thesis
    by (simp add: main_program_def assms(8) mgmt_client_new_def mgmt_call_state Let_def)
qed

definition sample_platform :: platform where
  "sample_platform =
    \<lparr>pf_read_file = (\<lambda>path. Some []), pf_from_toml = (\<lambda>text. Some system_default), pf_level = (\<lambda>v. True),
     pf_v6 = (\<lambda>s. None), pf_dns = (\<lambda>host. if host = ''node'' then Some [IpV4 10 0 0 7] else None),
     pf_gethostname = (\<lambda>n. Some (''node'' @ [CHR 0x00])), pf_os = sample_os,
     pf_interval = (\<lambda>dur. if dur = 0 then Some ''duration must be non-zero'' else None), pf_http_bind = (\<lambda>addr. None),
     pf_http = (\<lambda>req. fst (mgmt_call sample_json req leadership_init)), pf_json = sample_json\<rparr>"

definition sample_matches :: matches where
  "sample_matches = \<lparr>m_config = ''bioyino.toml'', m_verbosity = None,
     m_query = Some \<lparr>qm_host = ''node:8137'', qm_status = False, qm_consensus = Some (Some ''enable'', ''enable'')\<rparr>\<rparr>"

theorem query_commands_node_witness:
  "main_program sample_platform sample_matches =
    (Inr (Queried (Inr (PrintNewState \<lparr>leader_status = True, consensus_status = Enabled\<rparr>))) :: panic + nat outcome)"
proof -
  let ?l = "snd (mgmt_call sample_json (mgmt_request sample_json (SocketAddrV4 10 0 0 7 8137) (ConsensusCommand Enable LeaderEnable)) leadership_init)"
  have addr: "pf_resolve sample_platform ''node:8137'' = Inr (SocketAddrV4 10 0 0 7 8137)"
    by (simp add: sample_platform_def try_resolve_def read_socket_addr_def read_ipv4_def read_limited_def read_u16_def
        read_nat_def digit_value_def socket_addr_new_def)
  have args: "consensus_action_from_str ''enable'' = Inr Enable" "leader_action_from_str ''enable'' = Inr LeaderEnable"
    by code_simp+
  have pf: "json_roundtrip (pf_json sample_platform)" "pf_read_file sample_platform (m_config sample_matches) = Some []"
      "pf_from_toml sample_platform [] = Some system_default"
      "pf_level sample_platform (case m_verbosity sample_matches of Some v \<Rightarrow> v | None \<Rightarrow> verbosity system_default)"
      "m_query sample_matches = Some \<lparr>qm_host = ''node:8137'', qm_status = False, qm_consensus = Some (Some ''enable'', ''enable'')\<rparr>"
      "pf_http sample_platform = (\<lambda>req. fst (mgmt_call (pf_json sample_platform) req leadership_init))"
    by (simp_all add: sample_platform_def sample_matches_def sample_json_roundtrip)
  have "pf_json sample_platform = sample_json" by (simp add: sample_platform_def)
  with query_commands_node [where 'a = nat, OF pf(1-5) args addr pf(6)]
  have "main_program sample_platform sample_matches = (Inr (Queried (Inr (PrintNewState (server_status_new ?l)))) :: panic + nat outcome)"
    and "CONSENSUS_STATE ?l = Enabled" and "IS_LEADER ?l"
    by (simp_all add: Let_def new_consensus_state_def)
  then show ?thesis by (simp add: server_status_new_def)
qed

text \<open>
  C27. When a node starts. It does exactly if it has a worker, every peer it is to replicate to
  resolves, the timers can be made with the configured periods, the management address can be
  bound and the UDP sockets can be opened.
\<close>

theorem daemon_starts:
  "(\<exists>d :: 'm daemon. daemon_start pf cfg = Inr d) \<longleftrightarrow>
    w_threads cfg \<noteq> 0 \<and> (\<forall>node \<in> set (network_nodes (network cfg)). \<exists>a. pf_resolve pf node = Inr a) \<and>
    (\<forall>dur \<in> set (own_stats_period (stats_interval cfg) # snapshot_interval (network cfg) # main_timers cfg). pf_interval pf dur = None) \<and>
    pf_http_bind pf (mgmt_listen (network cfg)) = None \<and> (\<exists>socks. start_udp (pf_os pf) cfg = Inr socks)"
proof -
  have workers: "(\<exists>nd :: 'm node. node_start cfg = Inr nd) \<longleftrightarrow> w_threads cfg \<noteq> 0"
    by (auto simp: node_start_def start_workers_def Let_def unat_eq_zero)
  note peers = native_snapshot_new_Inr_iff [of "pf_resolve pf" "network_nodes (network cfg)" "peer_client_bind (network cfg)"
      "snapshot_interval (network cfg)"]
  show ?thesis
  proof (cases "native_snapshot_new (pf_resolve pf) (network_nodes (network cfg)) (peer_client_bind (network cfg)) (snapshot_interval (network cfg))")
    case (Inl p)
    with peers show ?thesis by (auto simp: daemon_start_def split: sum.splits)
  next
    case (Inr sn)
    then have "nsn_interval sn = snapshot_interval (network cfg)" by (auto simp: native_snapshot_new_def map_sum_def split: sum.splits)
    with Inr peers workers show ?thesis
      by (cases "node_start cfg :: panic + 'm node") (auto simp: daemon_start_def start_timers_Inr_iff(2) dest: start_timers_Inr_iff(1) split: sum.splits option.splits)
  qed
qed

theorem daemon_starts_witness:
  "(\<exists>d :: nat daemon. daemon_start sample_platform (system_default\<lparr>network := network_default\<lparr>network_nodes := [''node:8136'']\<rparr>\<rparr>) = Inr d) \<and>
   \<not> (\<exists>d :: nat daemon. daemon_start sample_platform (system_default\<lparr>network := network_default\<lparr>network_nodes := [''gone:8136'']\<rparr>\<rparr>) = Inr d)"
proof -
  have dns: "pf_resolve sample_platform ''node:8136'' = Inr (SocketAddrV4 10 0 0 7 8136)"
      "pf_resolve sample_platform ''gone:8136'' = Inl (Panic ''failed resolving'')"
    by (simp_all add: sample_platform_def try_resolve_def read_socket_addr_def read_ipv4_def read_limited_def read_u16_def
        read_nat_def digit_value_def socket_addr_new_def)
  have "\<exists>socks. start_udp (pf_os sample_platform) (system_default\<lparr>network := network_default\<lparr>network_nodes := ns\<rparr>\<rparr>) = Inr socks" for ns
    using async_udp_sockets_ok [of sample_os "localhost 8125"]
    by (simp add: sample_platform_def start_udp_def system_default_def network_default_def sample_os_def is_v6_def udp_calls_def cloned_def)
  moreover have "pf_http_bind sample_platform a = None" for a by (simp add: sample_platform_def)
  moreover have "w_threads (system_default\<lparr>network := net\<rparr>) \<noteq> 0" for net by (simp add: system_default_def)
  moreover have "pf_interval sample_platform dur = None \<longleftrightarrow> dur \<noteq> 0" for dur by (simp add: sample_platform_def)
  moreover have "main_timers (system_default\<lparr>network := network_default\<lparr>network_nodes := ns\<rparr>\<rparr>) = [30000]" for ns
    by (simp add: main_timers_def system_default_def network_default_def carbon_default_def)
  ultimately show ?thesis
    unfolding daemon_starts by (simp add: dns own_stats_period_def system_default_def network_default_def)
qed

text \<open>
  C40. A failed start of internal Raft disables the management of the node. The Raft thread
  panics while it holds the lock of the consensus state; from then on every request for the
  status and every command panics, and so does every switch of the leader, while leadership
  stays as it is, with consensus enabled. The handler of a request runs on the main runtime, so
  in the program the first such panic also ends the process; here it is the value of the call.
\<close>

theorem raft_failure_poisons:
  assumes "\<not> ll_poisoned l" and "start_internal_raft (pf_resolve pf) (get_hostname (pf_gethostname pf)) rnd cfg = Inl p"
  shows "\<exists>l'. raft_thread pf rnd cfg l = (Inl p, l') \<and>
    ll_state l' = (ll_state l)\<lparr>CONSENSUS_STATE := Enabled\<rparr> \<and>
    (\<forall>js req. snd (mgmt_call_locked js req l') = l' \<and>
      fst (mgmt_call_locked js req l') =
        (if mgmt_locks js req then Inl (Panic ''PoisonError'') else Inr (fst (mgmt_call js req (ll_state l'))))) \<and>
    (\<forall>acquired. switch_leader_locked acquired l' = Inl (Panic ''PoisonError''))"
proof -
  let ?l = "l\<lparr>ll_state := (ll_state l)\<lparr>CONSENSUS_STATE := Enabled\<rparr>, ll_poisoned := True\<rparr>"
  have "raft_thread pf rnd cfg l = (Inl p, ?l)" using assms by (simp add: raft_thread_def Let_def)
  moreover have "fst (mgmt_call_locked js req ?l) =
      (if mgmt_locks js req then Inl (Panic ''PoisonError'') else Inr (fst (mgmt_call js req (ll_state ?l))))" for js req
    by (simp add: mgmt_call_locked_def case_prod_unfold Let_def)
  moreover have "snd (mgmt_call_locked js req ?l) = ?l" for js req by (rule mgmt_call_poisoned) simp
  ultimately show ?thesis by (intro exI [of _ ?l]) (simp add: switch_leader_locked_def)
qed

theorem raft_failure_poisons_witness:
  "\<exists>l'. snd (raft_thread sample_platform 7 (raft_default\<lparr>raft_nodes := [(''gone:8138'', 1)]\<rparr>)
      \<lparr>ll_state = leadership_init, ll_poisoned = False\<rparr>) = l' \<and>
    fst (mgmt_call_locked sample_json (mgmt_request sample_json (localhost 8137) Status) l') = Inl (Panic ''PoisonError'')"
proof -
  let ?cfg = "raft_default\<lparr>raft_nodes := [(''gone:8138'', 1)]\<rparr>" and ?l = "\<lparr>ll_state = leadership_init, ll_poisoned = False\<rparr>"
  have host: "get_hostname (pf_gethostname sample_platform) = Some ''node''" by code_simp
  have "pf_resolve sample_platform ''gone:8138'' = Inl (Panic ''failed resolving'')"
      "pf_resolve sample_platform ''node:8138'' = Inr (SocketAddrV4 10 0 0 7 8138)"
    by (simp_all add: sample_platform_def try_resolve_def read_socket_addr_def read_ipv4_def read_limited_def read_u16_def
        read_nat_def digit_value_def socket_addr_new_def)
  then have "start_internal_raft (pf_resolve sample_platform) (get_hostname (pf_gethostname sample_platform)) 7 ?cfg =
      Inl (Panic ''failed resolving'')"
    by (simp add: start_internal_raft_def raft_this_def host raft_default_def)
  from raft_failure_poisons [OF _ this, of ?l] obtain l' where
      l': "raft_thread sample_platform 7 ?cfg ?l = (Inl (Panic ''failed resolving''), l')"
      "\<forall>js req. fst (mgmt_call_locked js req l') =
        (if mgmt_locks js req then Inl (Panic ''PoisonError'') else Inr (fst (mgmt_call js req (ll_state l'))))"
    by auto
  have "mgmt_locks sample_json (mgmt_request sample_json (localhost 8137) Status)"
    by (simp add: mgmt_locks_def mgmt_request_def)
  with l' show ?thesis by simp
qed

text \<open>
  The carbon timer stops for good. Intervals are started, in order, up to the first tick at
  which the timer fails, the clock is before the epoch or the address of the carbon server does
  not resolve; whatever comes after that tick, no interval is started any more. In the last of
  the three cases the main thread panics.
\<close>

lemma carbon_timer_stops:
  assumes "\<forall>t \<in> set good. \<exists>start. carbon_tick (snd t) cfg (fst t) = Inr (Inr start)"
    and "case bad of Inl e \<Rightarrow> True | Inr (now, resolve) \<Rightarrow> \<nexists>start. carbon_tick resolve cfg now = Inr (Inr start)"
  shows "carbon_timer cfg (map Inr good @ bad # later) =
    (map (\<lambda>t. projr (projr (carbon_tick (snd t) cfg (fst t)))) good,
     Some (case bad of
       Inl e \<Rightarrow> Inr (general_error.Timer e)
     | Inr (Inl e, resolve) \<Rightarrow> Inr (general_error.Time e)
     | Inr (Inr ts, resolve) \<Rightarrow> Inl (projl (resolve (carbon_address cfg)))))"
  using assms(1)
proof (induction good)
  case Nil
  show ?case
  proof (cases bad)
    case (Inr tick)
    obtain now resolve where tick: "tick = (now, resolve)" by (cases tick)
    show ?thesis
      using assms(2) by (cases now; cases "resolve (carbon_address cfg)") (simp_all add: Inr tick carbon_tick_def)
  qed simp
next
  case (Cons t good)
  then obtain start where "carbon_tick (snd t) cfg (fst t) = Inr (Inr start)" by auto
  with Cons show ?case by (cases t) auto
qed

end
