(* ===== verification/Scenarios.thy ===== *)
theory Scenarios
  imports Program
begin

text \<open>
  The tests of \<^verbatim>\<open>src/peer.rs\<close> and \<^verbatim>\<open>src/management.rs\<close> as definitions, and the proofs that they pass: for
  every metric and every codec that reads back what it wrote, where the tests try one. The test
  of \<^verbatim>\<open>src/task.rs\<close> is about the parser of the metric crate and has no counterpart.
\<close>

section \<open>test_peer_protocol_capnp\<close>

text \<open>
  The messages of the test; \<open>build\<close> makes a message with the given root, which the library reads
  back.
\<close>

definition single_name :: bytes where
  "single_name = ''complex.test.bioyino_single''"

definition multi_name :: bytes where
  "multi_name = ''complex.test.bioyino_multi''"

definition shot_name :: bytes where
  "shot_name = ''complex.test.bioyino_snapshot''"

definition test_messages :: "('w, 'r, 'm) capnp_lib \<Rightarrow> ('r which \<Rightarrow> 'w) \<Rightarrow> 'm \<Rightarrow> 'w list" where
  "test_messages cl build metric =
    [build (MSingle (Inr (fill_capnp cl (single_name, metric)))),
     build (MMulti (Inr [fill_capnp cl (multi_name, metric)])),
     build (MSnapshot (Inr [fill_capnp cl (shot_name, metric)]))]"

text \<open>The server with one channel, and the worker that executes what the connection brings.\<close>

definition test_server :: native_server where
  "test_server = native_server_new (localhost 8136) 1"

definition test_config :: system_config where
  "test_config = system_default\<lparr>metrics := (metrics system_default)\<lparr>log_parse_errors := True\<rparr>\<rparr>"

definition peer_test_run ::
    "os \<Rightarrow> ('w, 'r, 'm) capnp_lib \<Rightarrow> ('r which \<Rightarrow> 'w) \<Rightarrow> 'm metric_lib \<Rightarrow> 'm \<Rightarrow> 'm worker" where
  "peer_test_run os cl build lib metric =
    (let (conns, res) = native_server_run os cl test_server [Inr (map Inr (test_messages cl build metric))]
     in run_tasks lib (\<lambda>ch. True) (map snd (concat (map fst conns))) (worker_new test_config))"

definition builder_law :: "('w, 'r, 'm) capnp_lib \<Rightarrow> ('r which \<Rightarrow> 'w) \<Rightarrow> bool" where
  "builder_law cl build \<longleftrightarrow> (\<forall>root. \<exists>reader. get_root cl (build root) = Inr reader \<and> which_of cl reader = Inr root)"

lemma test_tasks:
  assumes "builder_law cl build" and "capnp_law cl ok" and "\<And>name. ok name metric"
  shows "peer_connection cl 1 0 (map Inr (test_messages cl build metric)) =
    ([(0, AddMetric single_name metric), (0, AddMetrics [(multi_name, metric)]), (0, AddSnapshot [(shot_name, metric)])], Closed)"
proof -
  have built: "\<exists>reader. get_root cl (build root) = Inr reader \<and> parse_and_send cl reader =
      (case root of
         MSingle (Inr r) \<Rightarrow> (case from_capnp cl r of Inl e \<Rightarrow> Inl e | Inr (name, metric) \<Rightarrow> Inr (AddMetric name metric))
       | MSingle (Inl e) \<Rightarrow> Inl (MCapnp e)
       | MMulti (Inl e) \<Rightarrow> Inl (MCapnp e) | MMulti (Inr rs) \<Rightarrow> Inr (AddMetrics (decoded cl rs))
       | MSnapshot (Inl e) \<Rightarrow> Inl (MCapnp e) | MSnapshot (Inr rs) \<Rightarrow> Inr (AddSnapshot (decoded cl rs)))" for root
  proof -
    obtain reader where "get_root cl (build root) = Inr reader" "which_of cl reader = Inr root"
      using assms(1) by (auto simp: builder_law_def)
    then show ?thesis by (auto simp: parse_and_send_def split: which.split sum.split)
  qed
  have read: "from_capnp cl (fill_capnp cl (name, metric)) = Inr (name, metric)" for name
    using assms(2,3) by (simp add: capnp_law_def)
  then have "decoded cl [fill_capnp cl (name, metric)] = [(name, metric)]" for name by (simp add: decoded_def)
  with read built [of "MSingle (Inr (fill_capnp cl (single_name, metric)))"]
    built [of "MMulti (Inr [fill_capnp cl (multi_name, metric)])"] built [of "MSnapshot (Inr [fill_capnp cl (shot_name, metric)])"]
  show ?thesis by (auto simp: test_messages_def)
qed

text \<open>
  The assertions of the test: the metrics of the single and of the multiple message are in the
  short cache, that of the snapshot is in the long cache.
\<close>

lemma peer_test_passes:
  fixes lib :: "'m metric_lib"
  assumes "builder_law cl build" and "capnp_law cl ok" and "\<And>name. ok name metric"
    and "reusing_listener os (localhost 8136) = Inr listener"
  defines "w \<equiv> peer_test_run os cl build lib metric"
  shows "get_long_entry (runner w) shot_name = Some metric \<and>
    get_short_entry (runner w) single_name = Some metric \<and> get_short_entry (runner w) multi_name = Some metric"
proof -
  have "single_name \<noteq> multi_name" by (simp add: single_name_def multi_name_def)
  moreover have "w = run_tasks lib (\<lambda>ch. True)
      [AddMetric single_name metric, AddMetrics [(multi_name, metric)], AddSnapshot [(shot_name, metric)]] (worker_new test_config)"
    using test_tasks [OF assms(1-3)]
    by (simp add: w_def peer_test_run_def native_server_run_def test_server_def native_server_new_def assms(4) del: peer_connection.simps)
  ultimately show ?thesis
    by (simp add: run_tasks_def run_effects put_metric_def worker_new_def task_runner_new_def get_long_entry_def get_short_entry_def)
qed

section \<open>management_command\<close>

text \<open>A status query and a command, sent to the server of the test by two clients.\<close>

definition mgmt_test_run :: "json_lib \<Rightarrow> leadership \<Rightarrow> (mgmt_error + client_output) \<times> (mgmt_error + client_output) \<times> leadership" where
  "mgmt_test_run js l =
    (let send = (\<lambda>cmd l. (mgmt_client js (\<lambda>req. fst (mgmt_call js req l)) (localhost 8137) cmd,
           snd (mgmt_call js (mgmt_request js (localhost 8137) cmd) l)));
         (shown, l1) = send Status l;
         (answer, l2) = send (ConsensusCommand Enable LeaderEnable) l1
     in (shown, answer, l2))"

text \<open>
  Neither client fails, the first one prints the state the process started with, and after the
  second one the server leads with consensus enabled.
\<close>

lemma mgmt_test_passes:
  assumes "json_roundtrip js"
  shows "\<exists>l. mgmt_test_run js leadership_init =
      (Inr (PrintStatus (server_status_new leadership_init)), Inr (PrintNewState (server_status_new l)), l) \<and>
    server_status_new l = \<lparr>leader_status = True, consensus_status = Enabled\<rparr>"
  using mgmt_client_server [OF assms, of leadership_init "localhost 8137" Enable LeaderEnable]
  by (auto simp: mgmt_test_run_def Let_def new_consensus_state_def server_status_new_def)

end
