(* ===== verification/Spec2Isabelle.thy ===== *)
theory Spec2Isabelle
  imports Race Rounds Delivery Egress Typing Cluster Scenarios
begin

text \<open>
  Bioyino, a StatsD server: a verification development of the sources under \<^verbatim>\<open>src/src\<close>.

  \<^bold>\<open>The program.\<close> UDP front ends receive datagrams of many senders, buffer them by sender and
  pass them as parse tasks to counting workers. A worker parses the byte stream of each
  sender and keeps two caches of metrics: a short one (since the last snapshot) and a long
  one (since the last rotation). At every snapshot interval the short caches are moved to the
  long ones and sent to the other nodes, whose servers put them into their long caches. At
  every carbon interval the workers hand over their long caches; on the leader the aggregator
  joins them, turns each metric into named values and passes these, split over connections,
  to clients that send them to a carbon server, each under a retrying future. Which node
  leads is decided by the management interface and by one of two consensus mechanisms, Consul
  or an internal Raft. The node reports statistics about itself as metrics to its first
  worker.

  \<^bold>\<open>Theories.\<close>

  \<^item> \<open>Prelude\<close>: machine types as words, hash maps as association lists in iteration order, and
    the contract \<open>entry_store\<close> (a routine that adds an entry to a keyed store) with what it
    implies for batches of entries in any order. \<open>Decimal\<close>: numbers in decimal. \<open>Floats\<close>: the
    IEEE values, rounding and conversions that the sources use, as exact rationals.
  \<^item> \<open>Globals\<close> (\<^verbatim>\<open>errors.rs\<close>, the statics of \<^verbatim>\<open>main.rs\<close>, \<open>switch_leader\<close> of \<^verbatim>\<open>util.rs\<close>): errors,
    counters, consensus state and leader flag.
  \<^item> \<open>Management\<close> (\<^verbatim>\<open>management.rs\<close>): commands, \<open>MgmtServer::call\<close> as \<open>mgmt_call\<close> and the client
    as \<open>mgmt_client\<close>; what a sequence of requests does, and that client and server agree.
  \<^item> \<open>Config\<close> (\<^verbatim>\<open>config.rs\<close>): the sections as records, their defaults, \<open>System::load\<close>.
  \<^item> \<open>Task\<close> (\<^verbatim>\<open>task.rs\<close>): the worker as the record \<open>worker\<close> (its \<open>TaskRunner\<close>, counters and
    replies) and \<open>run\<close>, one equation for each task; conservation of metrics, snapshots,
    isolation of streams, aging of buffers, well-formedness. \<open>update_metric\<close> satisfies
    \<open>entry_store\<close>.
  \<^item> \<open>Aggregate\<close> (\<^verbatim>\<open>aggregate.rs\<close>): accumulation (also an \<open>entry_store\<close>), the three modes of
    dispatch: the single and the common mode send the same values, the separate mode panics if
    there is a value to send, since its threads have no executor.
  \<^item> \<open>Backoff\<close> (\<open>BackoffRetry\<close> of \<^verbatim>\<open>util.rs\<close>): the poll loop over the answers of the action and
    the timer; number of attempts, termination, delays, and that it computes what the plain
    loop \<open>retried\<close> computes.
  \<^item> \<open>Carbon\<close> (\<^verbatim>\<open>carbon.rs\<close>, the split in \<^verbatim>\<open>main.rs\<close>): formatting, encoding, chunks; a reader
    recovers what was sent.
  \<^item> \<open>Ingress\<close>: the contract \<open>front_end\<close> (no byte of a sender is lost or reordered until it is sent
    on), which both front ends satisfy. What a queue accepts is \<open>passed_on\<close>, what it refuses
    \<open>refused\<close>. \<open>Server\<close> (\<^verbatim>\<open>server.rs\<close>): one run of \<open>StatsdServer::into_future\<close> is
    \<open>server_receive\<close>, a listener \<open>server_run\<close>. \<open>Udp\<close> (\<^verbatim>\<open>udp.rs\<close>): preparation and loop of a
    multimessage thread, with the memory it shares with the kernel as positions in a buffer;
    the listeners of the asynchronous mode.
  \<^item> \<open>Peer\<close> (\<^verbatim>\<open>peer.rs\<close>): connections of the peer server, snapshot rounds and senders.
  \<^item> \<open>Util\<close> (the rest of \<^verbatim>\<open>util.rs\<close>): \<open>try_resolve\<close>, \<open>get_hostname\<close> and the own statistics.
    \<open>Sockets\<close> (the socket helpers of \<^verbatim>\<open>util.rs\<close>, \<^verbatim>\<open>udp.rs\<close> and \<^verbatim>\<open>raft.rs\<close>): sequences of calls to the
    operating system, each of which may fail.
  \<^item> \<open>Consensus\<close> (\<^verbatim>\<open>raft.rs\<close>, \<^verbatim>\<open>consul.rs\<close>): Raft notifications and start-up; the Consul loop as
    the machine \<open>consul_step\<close>; what either can do to leadership.
    \<open>Race\<close>: the Raft thread and the management thread, interleaved at each access to the lock
    and the flag of leadership.
  \<^item> \<open>Node\<close> (\<^verbatim>\<open>main.rs\<close>): the initial state of a node and the carbon interval, end to end.
    \<open>Egress\<close>: the values of an interval on their way to the carbon server, over connections
    that break, each backend under its retrying future.
  \<^item> \<open>Replication\<close> (\<^verbatim>\<open>peer.rs\<close>): the peer server with its listener and its restarts, the snapshot
    client, and a sender under its retrying future.
  \<^item> \<open>Program\<close> (\<open>main\<close>): from the command line to the answer of a query or to a running node,
    with every failure on the way; the carbon timer; the lock of the consensus state.
  \<^item> \<open>Transitions\<close>: transition systems, with the contracts \<open>invariant\<close> and \<open>refinement\<close> and a rule
    for fair runs. \<open>System\<close>: the threads of a node as the relation \<open>node_step\<close>, one rule for each
    event (a datagram, a batch of \<open>recvmmsg\<close>, a task, a message of a peer, a timer, an answer, a command), and its
    executable form \<open>node_exec\<close>. Over it:
    \<open>Channels\<close> (every request has a channel of its own and is awaited until it is answered),
    \<open>Ledger\<close> (the node refines a ledger that accounts for everything),
    \<open>Batches\<close> (what goes to carbon is complete),
    \<open>Delivery\<close> (bytes from the sockets to the workers, in both modes),
    \<open>Snapshots\<close> (what a node sends to its peers),
    \<open>Typing\<close> (the type invariant of a node),
    \<open>Liveness\<close> and \<open>Rounds\<close> (under weak fairness tasks are executed, intervals of a leader end with
    their batch, what is discarded and why, and what enters a node is handed to senders for its peers).
  \<^item> \<open>Cluster\<close>: several nodes and the network between them as the relation \<open>cluster_step\<close>; what
    arrives where and how often, and that settled nodes agree.
  \<^item> \<open>Scenarios\<close>: the tests of \<^verbatim>\<open>peer.rs\<close> and \<^verbatim>\<open>management.rs\<close>, which pass.
  \<^item> This theory: the path of a sender's bytes from the network to a worker's parser.

  \<^bold>\<open>Conventions.\<close> Stateful code passes its state explicitly; an action on the surroundings (a
  message, a queued task, a request) is appended to a list in the result. A panic is the left
  case of a sum \<open>panic + 'a\<close>, an error value the left case of a sum with the error type.
  Atomic counters are words and wrap around. Sequences of events (datagrams, tasks, ticks,
  answers) are lists, so that statements about them cover every order of arrival; the threads
  of a node and the nodes of a cluster interleave as steps of a relation, so that statements
  about reachable states cover every schedule. Where two threads can interleave inside an
  operation (\<open>switch_leader\<close> in the Raft thread), the operation is also given in its atomic
  steps. What the program loses is kept in the state: bytes in the buffers of a listener that
  stopped (\<open>sys_dropped\<close>), batches with fewer values than connections (\<open>sys_lost\<close>), and the
  metrics of both followers and panicking leaders (\<open>sys_discarded\<close>). Hash maps are lists in iteration order, and
  what does not depend on that order is stated for every permutation.

  \<^bold>\<open>Parameters.\<close> Code outside the repository is an argument: the metric crate (\<open>metric_lib\<close>), the
  JSON and Cap'n Proto codecs, the hash of an address, \<open>recvmmsg\<close>, DNS, the float formatter,
  connections, the operating system's socket calls, the command line and TOML readers, the Raft
  library and the Consul agent. Where a theorem relies on such code,
  the documented behaviour is a named hypothesis: \<open>additive\<close> (a measure that \<open>aggregate\<close> adds
  up), \<open>capnp_law\<close>, \<open>builder_law\<close> and \<open>json_roundtrip\<close> (decoding inverts encoding),
  \<open>recvmmsg_law\<close>, \<open>family_law\<close> (an IPv4 socket is not bound to an IPv6 address). Those that a
  property relies on are shown to hold for a concrete instance.

  \<^bold>\<open>Bounds and fuel.\<close> No function has fuel. The retrying future is a recursion over the list of
  answers it is given, with the theorem that \<open>2 * retries + 1\<close> decisive answers are enough.
  Bounds in hypotheses are those of the machine types: datagrams below \<open>2 ^ 16\<close> bytes, a flush
  length below \<open>2 ^ 63\<close>, a receive buffer below \<open>2 ^ 64\<close>, fewer than \<open>2 ^ 32\<close> metrics in one
  snapshot message.

  \<^bold>\<open>Not modelled.\<close> The creation of threads and runtimes, which can fail, and logging. The time at
  which timers fire: a timer is an event that can happen at any moment, and the pauses of the
  Consul loop are not visible. In the system of threads a queue takes every task, since each
  task is sent through a clone of the queue's sender, which always has a slot; in the front ends
  a queue that refuses is a case of its own. Nodes do not crash in the cluster, and a panic of an
  interval ends only the thread of the interval, without the counters it had changed before.
  A datagram is what fits into the buffer of its reader. What is written to a connection
  without an error counts as received. The URLs of the Consul requests are valid. The test of \<^verbatim>\<open>task.rs\<close> is about the parser of the metric crate. All of
  \<^verbatim>\<open>bigint.rs\<close> is commented out.
\<close>

section \<open>From the network to a worker\<close>

lemma queue_of_sender:
  assumes "\<forall>p \<in> set ps. well_routed hash cfg n p \<and> ps_accepted p \<and> (hash (ps_source p) = hash a \<longrightarrow> ps_source p = a)"
    and "consistent_parsing (metrics cfg)"
  shows "filter (stream_of (hash a)) (map (\<lambda>p. Parse (ps_hash p) (ps_payload p))
      (filter (\<lambda>p. ps_chan p = unat (hash a) mod n \<and> ps_accepted p) ps)) =
    map (Parse (hash a)) (map ps_payload (filter (\<lambda>p. ps_source p = a) ps))"
  using assms by (induction ps) (auto simp: well_routed_def stream_of_def)

text \<open>
  C2. The path of a sender's bytes, from its datagrams to the parser. With consistent
  parsing, one worker's queue holds all that was passed on of the sender's bytes; the metrics
  that this worker finds in the sender's stream are those of the sender's pieces alone,
  whatever else is in the queue; and the pieces, followed by what the listener still buffers,
  are the sender's datagrams, byte for byte and in order. It is assumed that no queue refused
  a task and that no two senders that were heard have the same hash.
\<close>

theorem sender_stream_end_to_end:
  assumes "0 < n" and "i < length flags" and "\<forall>d \<in> set ds. snd d \<noteq> []"
    and "consistent_parsing (metrics cfg)"
    and "server_run hash accepts n (datagrams ds) (server_start cfg bsize i) (fresh_net flags c) = Inr (Some srv, net)"
    and "\<forall>p \<in> set (net_log net). ps_accepted p" and "inj_on hash (insert a (ps_source ` set (net_log net)))"
    and "runner_wf (runner w)"
  shows "\<exists>pieces.
    stream_metrics lib alive (hash a) (worker_queue (unat (hash a) mod n) net) w =
      stream_metrics lib alive (hash a) (map (Parse (hash a)) pieces) w \<and>
    concat pieces @ pending (bufmap srv) a = payload_from ds a"
proof -
  let ?pieces = "map ps_payload (filter (\<lambda>p. ps_source p = a) (net_log net))"
  have "\<forall>p \<in> set (net_log net). well_routed hash cfg n p \<and> ps_accepted p \<and> (hash (ps_source p) = hash a \<longrightarrow> ps_source p = a)"
    using server_run_routed [OF assms(5)] assms(6,7) by (auto simp: inj_on_def)
  note queue = queue_of_sender [OF this assms(4)]
  have "same_stream (hash a) w w" using assms(8) by (simp add: same_stream_def)
  from stream_metrics_isolated [OF this, of lib alive "worker_queue (unat (hash a) mod n) net"]
  have "stream_metrics lib alive (hash a) (worker_queue (unat (hash a) mod n) net) w =
      stream_metrics lib alive (hash a) (map (Parse (hash a)) ?pieces) w"
    unfolding worker_queue_def queue .
  moreover have "concat ?pieces @ pending (bufmap srv) a = payload_from ds a"
    using async_run_bytes [OF assms(1-3), of hash accepts cfg bsize c] assms(5) by (simp add: flushed_def)
  ultimately show ?thesis by blast
qed

theorem sender_stream_end_to_end_witness:
  "\<exists>srv net pieces. server_run sample_hash (\<lambda>k. True) 3 (datagrams sample_datagrams)
      (server_start (sample_config True) 1500 0) (fresh_net [False] counters_init) = Inr (Some srv, net) \<and>
    stream_metrics sample_lib (\<lambda>ch. True) 5 (worker_queue 2 net) (worker_new system_default) =
      stream_metrics sample_lib (\<lambda>ch. True) 5 (map (Parse 5) pieces) (worker_new system_default) \<and>
    concat pieces @ pending (bufmap srv) (SocketAddrV4 10 0 0 1 5) = ''x:1|c''"
proof -
  let ?run = "server_run sample_hash (\<lambda>k. True) 3 (datagrams sample_datagrams)
    (server_start (sample_config True) 1500 0) (fresh_net [False] counters_init)"
  let ?a = "SocketAddrV4 10 0 0 1 5"
  have eval: "map_sum id (\<lambda>(srv, net). (srv \<noteq> None, map (\<lambda>p. (ps_source p, ps_accepted p)) (net_log net))) ?run =
      Inr (True, [(?a, True), (SocketAddrV4 10 0 0 2 8, True)])"
    by code_simp
  then obtain srv net where run: "?run = Inr (Some srv, net)"
    and log: "map (\<lambda>p. (ps_source p, ps_accepted p)) (net_log net) = [(?a, True), (SocketAddrV4 10 0 0 2 8, True)]"
    by (cases ?run) auto
  have "map ps_source (net_log net) = [?a, SocketAddrV4 10 0 0 2 8]" and "map ps_accepted (net_log net) = [True, True]"
    using arg_cong [where f = "map fst", OF log] arg_cong [where f = "map snd", OF log] by (simp_all add: comp_def)
  then have src: "ps_source ` set (net_log net) = {?a, SocketAddrV4 10 0 0 2 8}" and "ps_accepted ` set (net_log net) = {True}"
    by (metis list.set(1) list.set(2) list.set_map, metis insert_absorb2 list.set(1) list.set(2) list.set_map)
  then have acc: "\<forall>p \<in> set (net_log net). ps_accepted p" by (metis imageI singletonD)
  have inj: "inj_on sample_hash (insert ?a (ps_source ` set (net_log net)))"
    unfolding src by (simp add: sample_hash_def)
  have ds: "\<forall>d \<in> set sample_datagrams. snd d \<noteq> []" and cp: "consistent_parsing (metrics (sample_config True))"
    and num: "0 < (3 :: nat)" "0 < length [False]"
    by (simp_all add: sample_datagrams_def sample_config_def)
  have hash: "sample_hash ?a = 5" and bytes: "payload_from sample_datagrams ?a = ''x:1|c''"
    by (simp_all add: sample_hash_def sample_datagrams_def)
  have worker: "unat (5 :: u64) mod 3 = 2" by simp
  from sender_stream_end_to_end [OF num ds cp run acc inj runner_wf_new [of system_default], of sample_lib "\<lambda>ch. True"]
  show ?thesis unfolding hash bytes worker using run by blast
qed

end
